(* ===== verification/Prelude.thy ===== *)
theory Prelude
  imports Main "HOL-Library.Word"
begin

text \<open>
  Shared vocabulary of the development.

  \<^item> Machine integers. A Rust \<open>u8\<close> that is part of a byte string is an \<open>8 word\<close>. The wider unsigned
    types (\<open>u16\<close>, \<open>u32\<close>, \<open>u64\<close>, \<open>usize\<close>, the target is 64 bit) are natural numbers; every operation
    of the source that looks at the width is written out: \<open>checked_add\<close> and \<open>checked_mul\<close> are
    \<open>checked_add64\<close> and \<open>checked_mul64\<close>, a plain \<open>+\<close> or \<open>*\<close> that can pass the width is the
    wrapping \<open>add64\<close>, \<open>mul64\<close> of a release build.
  \<^item> Byte strings. \<open>slice xs o n\<close> is \<open>xs[o..o+n]\<close>, \<open>put xs o ys\<close> is
    \<open>xs[o..o+ys.len()].copy_from_slice(ys)\<close>, \<open>le_bytes\<close> and \<open>be_bytes\<close> are \<open>to_le_bytes\<close> and
    \<open>to_be_bytes\<close>, \<open>le_val\<close> and \<open>be_val\<close> their inverses.
  \<^item> Address ranges. \<open>ranges\<close> is the set of addresses a list of half-open ranges covers.
  \<^item> The proof collections \<open>bytes_simps\<close> and \<open>width_simps\<close>.
\<close>

named_theorems bytes_simps \<open>lengths and reads of byte strings after writes\<close>
named_theorems width_simps \<open>unfolding of the width-checked arithmetic\<close>

type_synonym byte = "8 word"
type_synonym bytes = "8 word list"

section \<open>Width-checked arithmetic\<close>

definition u16_max :: nat where "u16_max = 2 ^ 16 - 1"
definition u32_max :: nat where "u32_max = 2 ^ 32 - 1"
definition u64_max :: nat where "u64_max = 2 ^ 64 - 1"

definition checked_add64 :: "nat \<Rightarrow> nat \<Rightarrow> nat option" where
  "checked_add64 a b = (if a + b < 2 ^ 64 then Some (a + b) else None)"

definition checked_mul64 :: "nat \<Rightarrow> nat \<Rightarrow> nat option" where
  "checked_mul64 a b = (if a * b < 2 ^ 64 then Some (a * b) else None)"

definition add64 :: "nat \<Rightarrow> nat \<Rightarrow> nat" where
  "add64 a b = (a + b) mod 2 ^ 64"

definition sub64 :: "nat \<Rightarrow> nat \<Rightarrow> nat" where
  "sub64 a b = (a + 2 ^ 64 - b) mod 2 ^ 64"

definition mul64 :: "nat \<Rightarrow> nat \<Rightarrow> nat" where
  "mul64 a b = (a * b) mod 2 ^ 64"

definition div_ceil :: "nat \<Rightarrow> nat \<Rightarrow> nat" where
  "div_ceil a b = (if a mod b = 0 then a div b else a div b + 1)"

lemmas width_unfold [width_simps] =
  checked_add64_def checked_mul64_def add64_def sub64_def mul64_def

lemma checked_add64_Some [width_simps]:
  "checked_add64 a b = Some c \<longleftrightarrow> c = a + b \<and> a + b < 2 ^ 64"
  by (auto simp: checked_add64_def)

lemma checked_add64_None [width_simps]:
  "checked_add64 a b = None \<longleftrightarrow> 2 ^ 64 \<le> a + b"
  by (auto simp: checked_add64_def)

lemma checked_mul64_Some [width_simps]:
  "checked_mul64 a b = Some c \<longleftrightarrow> c = a * b \<and> a * b < 2 ^ 64"
  by (auto simp: checked_mul64_def)

lemma add64_small: "a + b < 2 ^ 64 \<Longrightarrow> add64 a b = a + b"
  by (simp add: add64_def)

lemma mul64_small: "a * b < 2 ^ 64 \<Longrightarrow> mul64 a b = a * b"
  by (simp add: mul64_def)

lemma sub64_small: "b \<le> a \<Longrightarrow> a < 2 ^ 64 \<Longrightarrow> sub64 a b = a - b"
proof -
  assume "b \<le> a" "a < 2 ^ 64"
  then have "a + 2 ^ 64 - b = (a - b) + 2 ^ 64" "a - b < 2 ^ 64" by simp_all
  then show ?thesis by (simp only: sub64_def mod_add_self2 mod_less)
qed

lemma div_ceil_mult:
  "div_ceil a b * b = (if a mod b = 0 then a else a - a mod b + b)"
proof -
  have "a div b * b = a - a mod b" by (metis minus_mod_eq_div_mult)
  then show ?thesis by (simp add: div_ceil_def add_mult_distrib add.commute)
qed

lemma div_ceil_upper: "0 < b \<Longrightarrow> a \<le> div_ceil a b * b"
proof (cases "a mod b = 0")
  case False
  moreover assume "0 < b"
  then have "a mod b < b" by simp
  ultimately show ?thesis unfolding div_ceil_mult by (simp only: if_False)
qed (simp add: div_ceil_mult)

lemma div_ceil_lower: "0 < b \<Longrightarrow> div_ceil a b * b < a + b"
  using mod_less_eq_dividend [of a b] unfolding div_ceil_mult by (auto split: if_split)

lemma div_ceil_le: "0 < b \<Longrightarrow> a \<le> n * b \<Longrightarrow> div_ceil a b \<le> n"
proof -
  assume "0 < b" "a \<le> n * b"
  then have "div_ceil a b * b < n * b + b" using div_ceil_lower [of b a] by linarith
  then have "div_ceil a b * b < (n + 1) * b" by simp
  then show ?thesis using \<open>0 < b\<close> by (simp only: mult_less_cancel2) linarith
qed

lemma div_ceil_pos: "0 < b \<Longrightarrow> 0 < a \<Longrightarrow> 0 < div_ceil a b"
  using div_ceil_upper [of b a] by (cases "div_ceil a b = 0") auto

section \<open>Byte strings\<close>

definition slice :: "'a list \<Rightarrow> nat \<Rightarrow> nat \<Rightarrow> 'a list" where
  "slice xs i n = take n (drop i xs)"

definition put :: "'a list \<Rightarrow> nat \<Rightarrow> 'a list \<Rightarrow> 'a list" where
  "put xs i ys = take i xs @ ys @ drop (i + length ys) xs"

lemma length_slice [simp, bytes_simps]: "length (slice xs i n) = min n (length xs - i)"
  by (simp add: slice_def)

lemma length_put [simp, bytes_simps]:
  "i + length ys \<le> length xs \<Longrightarrow> length (put xs i ys) = length xs"
  by (simp add: put_def)

lemma nth_slice [bytes_simps]:
  "j < n \<Longrightarrow> i + n \<le> length xs \<Longrightarrow> slice xs i n ! j = xs ! (i + j)"
  by (simp add: slice_def)

lemma nth_put [bytes_simps]:
  "i + length ys \<le> length xs \<Longrightarrow> j < length xs \<Longrightarrow>
   put xs i ys ! j = (if i \<le> j \<and> j < i + length ys then ys ! (j - i) else xs ! j)"
  by (auto simp: put_def nth_append min_def)

lemma slice_eqI:
  "length ys = n \<Longrightarrow> i + n \<le> length xs \<Longrightarrow> (\<And>j. j < n \<Longrightarrow> xs ! (i + j) = ys ! j) \<Longrightarrow> slice xs i n = ys"
  by (rule nth_equalityI) (auto simp: nth_slice)

lemma slice_put_same [simp, bytes_simps]:
  "i + length ys \<le> length xs \<Longrightarrow> n = length ys \<Longrightarrow> slice (put xs i ys) i n = ys"
  by (rule slice_eqI) (auto simp: nth_put)

lemma slice_put_before [bytes_simps]:
  "i + length ys \<le> length xs \<Longrightarrow> j + n \<le> i \<Longrightarrow> slice (put xs i ys) j n = slice xs j n"
  by (rule slice_eqI) (auto simp: nth_put nth_slice)

lemma slice_put_after [bytes_simps]:
  "i + length ys \<le> length xs \<Longrightarrow> i + length ys \<le> j \<Longrightarrow> slice (put xs i ys) j n = slice xs j n"
  by (simp add: slice_def put_def)

lemma slice_slice:
  "j + m \<le> n \<Longrightarrow> slice (slice xs i n) j m = slice xs (i + j) m"
  by (simp add: slice_def drop_take min_def add.commute)

lemma slice_append: "slice xs i a @ slice xs (i + a) b = slice xs i (a + b)"
  by (simp add: slice_def take_add add.commute)

lemma slice_all [simp]: "slice xs 0 (length xs) = xs"
  by (simp add: slice_def)

lemma put_slice_self: "i + n \<le> length xs \<Longrightarrow> put xs i (slice xs i n) = xs"
  by (rule nth_equalityI) (auto simp: nth_put nth_slice)

lemma put_put_adjacent:
  "i + length ys + length zs \<le> length xs \<Longrightarrow>
   put (put xs i ys) (i + length ys) zs = put xs i (ys @ zs)"
  by (rule nth_equalityI) (auto simp: nth_put nth_append)

lemma put_patched_slice:
  assumes "i + m \<le> length xs" "w + length p \<le> m"
  shows "put xs i (put (slice xs i m) w p) = put xs (i + w) p"
proof (rule nth_equalityI)
  fix j assume "j < length (put xs i (put (slice xs i m) w p))"
  then have j: "j < length xs" using assms by simp
  show "put xs i (put (slice xs i m) w p) ! j = put xs (i + w) p ! j"
  proof (cases "i \<le> j \<and> j < i + m")
    case True
    then have "put xs i (put (slice xs i m) w p) ! j = put (slice xs i m) w p ! (j - i)"
      using j assms by (simp add: nth_put)
    also have "\<dots> = (if w \<le> j - i \<and> j - i < w + length p then p ! (j - i - w) else slice xs i m ! (j - i))"
      using True assms by (intro nth_put) auto
    also have "\<dots> = (if i + w \<le> j \<and> j < i + w + length p then p ! (j - (i + w)) else xs ! j)"
      using True assms by (auto simp: nth_slice)
    finally show ?thesis using j assms by (simp add: nth_put)
  next
    case False
    then show ?thesis using j assms by (auto simp: nth_put)
  qed
qed (use assms in simp)

text \<open>Reads of a concatenation of fields of known length, and the incremental filling of a zeroed
  buffer, which is how the crate's encoders write.\<close>

lemma slice_append_right [bytes_simps]:
  "length xs \<le> i \<Longrightarrow> slice (xs @ ys) i n = slice ys (i - length xs) n"
  by (simp add: slice_def)

lemma slice_append_left [bytes_simps]:
  "i + n \<le> length xs \<Longrightarrow> slice (xs @ ys) i n = slice xs i n"
  by (simp add: slice_def)

lemma slice_Cons_right [bytes_simps]: "0 < i \<Longrightarrow> slice (x # xs) i n = slice xs (i - 1) n"
  by (cases i) (simp_all add: slice_def)

lemma slice_whole [bytes_simps]: "n = length xs \<Longrightarrow> slice xs 0 n = xs"
  by (simp add: slice_def)

lemma slice_append_head [bytes_simps]: "n = length xs \<Longrightarrow> slice (xs @ ys) 0 n = xs"
  by (simp add: slice_def)

lemma put_zeros:
  "length xs = i \<Longrightarrow> length ys \<le> n \<Longrightarrow>
   put (xs @ replicate n z) i ys = (xs @ ys) @ replicate (n - length ys) z"
  by (simp add: put_def)

lemma put_zeros_first:
  "length ys \<le> n \<Longrightarrow> put (replicate n z) 0 ys = ys @ replicate (n - length ys) z"
  by (simp add: put_def)

subsection \<open>Little and big endian integers\<close>

primrec le_bytes :: "nat \<Rightarrow> nat \<Rightarrow> bytes" where
  "le_bytes 0 v = []"
| "le_bytes (Suc k) v = word_of_nat v # le_bytes k (v div 256)"

primrec le_val :: "bytes \<Rightarrow> nat" where
  "le_val [] = 0"
| "le_val (b # bs) = unat b + 256 * le_val bs"

definition be_bytes :: "nat \<Rightarrow> nat \<Rightarrow> bytes" where
  "be_bytes k v = rev (le_bytes k v)"

definition be_val :: "bytes \<Rightarrow> nat" where
  "be_val bs = le_val (rev bs)"

lemma length_le_bytes [simp, bytes_simps]: "length (le_bytes k v) = k"
  by (induction k arbitrary: v) simp_all

lemma length_be_bytes [simp, bytes_simps]: "length (be_bytes k v) = k"
  by (simp add: be_bytes_def)

lemma unat_lt_256 [simp]: "unat (b :: byte) < 256"
  by (rule order.strict_trans2 [OF unsigned_less]) simp

lemma le_val_bound: "le_val bs < 256 ^ length bs"
proof (induction bs)
  case (Cons b bs)
  have "unat b + 256 * le_val bs < 256 * (le_val bs + 1)" using unat_lt_256 [of b] by simp
  also have "\<dots> \<le> 256 * 256 ^ length bs" using Cons by (intro mult_le_mono2) simp
  finally show ?case by simp
qed simp

lemma le_val_le_bytes [simp]: "le_val (le_bytes k v) = v mod 256 ^ k"
proof (induction k arbitrary: v)
  case (Suc k)
  have "v mod (256 * 256 ^ k) = 256 * (v div 256 mod 256 ^ k) + v mod 256"
    by (simp add: mod_mult2_eq)
  then show ?case by (simp add: Suc unat_of_nat)
qed simp

lemma le_bytes_le_val [simp]: "k = length bs \<Longrightarrow> le_bytes k (le_val bs) = bs"
proof (induction bs arbitrary: k)
  case (Cons b bs)
  have "unat (word_of_nat (unat b + 256 * le_val bs) :: byte) = unat b"
    by (simp add: unat_of_nat del: of_nat_add of_nat_mult)
  then have "(word_of_nat (unat b + 256 * le_val bs) :: byte) = b"
    by (rule word_unat_eq_iff [THEN iffD2])
  with Cons show ?case by simp
qed simp

lemma be_val_be_bytes [simp]: "be_val (be_bytes k v) = v mod 256 ^ k"
  by (simp add: be_val_def be_bytes_def)

lemma be_val_bound: "be_val bs < 256 ^ length bs"
  using le_val_bound [of "rev bs"] by (simp add: be_val_def)

text \<open>\<open>u16le\<close>, \<open>u32le\<close>, \<open>u64le\<close>: the readers every on-disk parser of the crate defines.\<close>

definition u16le :: "bytes \<Rightarrow> nat \<Rightarrow> nat" where "u16le b i = le_val (slice b i 2)"
definition u32le :: "bytes \<Rightarrow> nat \<Rightarrow> nat" where "u32le b i = le_val (slice b i 4)"
definition u64le :: "bytes \<Rightarrow> nat \<Rightarrow> nat" where "u64le b i = le_val (slice b i 8)"

lemma le_val_slice_bound: "le_val (slice b i n) < 256 ^ n"
proof -
  have "le_val (slice b i n) < 256 ^ length (slice b i n)" by (rule le_val_bound)
  also have "\<dots> \<le> 256 ^ n" by (rule power_increasing) auto
  finally show ?thesis .
qed

lemma u16le_bound: "u16le b i < 2 ^ 16"
  using le_val_slice_bound [of b i 2] by (simp add: u16le_def)

lemma u32le_bound: "u32le b i < 2 ^ 32"
  using le_val_slice_bound [of b i 4] by (simp add: u32le_def)

lemma u64le_bound: "u64le b i < 2 ^ 64"
  using le_val_slice_bound [of b i 8] by (simp add: u64le_def)

section \<open>Half-open address ranges\<close>

type_synonym range = "nat \<times> nat"

definition range_set :: "range \<Rightarrow> nat set" where
  "range_set r = {fst r..<snd r}"

definition ranges :: "range list \<Rightarrow> nat set" where
  "ranges rs = (\<Union>r \<in> set rs. range_set r)"

lemma ranges_Nil [simp]: "ranges [] = {}"
  by (simp add: ranges_def)

lemma ranges_Cons [simp]: "ranges (r # rs) = {fst r..<snd r} \<union> ranges rs"
  by (simp add: ranges_def range_set_def)

lemma ranges_append [simp]: "ranges (xs @ ys) = ranges xs \<union> ranges ys"
  by (auto simp: ranges_def)

lemma in_ranges: "x \<in> ranges rs \<longleftrightarrow> (\<exists>(s, e) \<in> set rs. s \<le> x \<and> x < e)"
  by (force simp: ranges_def range_set_def)

section \<open>Sorted lists\<close>

text \<open>\<open>partition_point p xs\<close>: the length of the prefix on which \<open>p\<close> holds, which is what Rust's
  binary search computes on a list that \<open>p\<close> partitions.\<close>

definition partition_point :: "('a \<Rightarrow> bool) \<Rightarrow> 'a list \<Rightarrow> nat" where
  "partition_point p xs = length (takeWhile p xs)"

lemma partition_point_le [simp]: "partition_point p xs \<le> length xs"
  by (simp add: partition_point_def length_takeWhile_le)

lemma take_partition_point: "take (partition_point p xs) xs = takeWhile p xs"
  by (simp add: partition_point_def takeWhile_eq_take [symmetric])

lemma drop_partition_point: "drop (partition_point p xs) xs = dropWhile p xs"
  by (simp add: partition_point_def dropWhile_eq_drop [symmetric])

text \<open>\<open>binary_search_by_key\<close>: \<open>Inr i\<close> is \<open>Ok(i)\<close>, the position of the key; \<open>Inl i\<close> is \<open>Err(i)\<close>,
  where it would be inserted. On a list sorted by the key this is the only possible answer.\<close>

definition binary_search_by_key :: "'k::linorder \<Rightarrow> ('a \<Rightarrow> 'k) \<Rightarrow> 'a list \<Rightarrow> nat + nat" where
  "binary_search_by_key k f xs =
     (let i = partition_point (\<lambda>x. f x < k) xs in
      if i < length xs \<and> f (xs ! i) = k then Inr i else Inl i)"

lemma point_split:
  fixes f :: "'a \<Rightarrow> 'k::linorder"
  assumes "sorted_wrt (\<lambda>a b. f a < f b) xs" "i = partition_point (\<lambda>x. f x < k) xs"
  shows "i \<le> length xs" "\<And>x. x \<in> set (take i xs) \<Longrightarrow> f x < k" "\<And>x. x \<in> set (drop i xs) \<Longrightarrow> k \<le> f x"
proof -
  show "i \<le> length xs" by (simp add: assms(2))
  show "f x < k" if "x \<in> set (take i xs)" for x
    using that by (auto simp: assms(2) take_partition_point dest: set_takeWhileD)
  show "k \<le> f x" if "x \<in> set (drop i xs)" for x
  proof -
    let ?B = "dropWhile (\<lambda>x. f x < k) xs"
    have x: "x \<in> set ?B" using that by (simp add: assms(2) drop_partition_point)
    then obtain b B where B: "?B = b # B" by (cases ?B) auto
    then have "k \<le> f b" by (metis dropWhile_eq_Cons_conv not_less)
    moreover have "sorted_wrt (\<lambda>a b. f a < f b) (b # B)"
      using assms(1) B by (metis sorted_wrt_append takeWhile_dropWhile_id)
    ultimately show "k \<le> f x" using x B by (force dest: order.strict_implies_order order.trans)
  qed
qed

lemma binary_search_split:
  fixes f :: "'a \<Rightarrow> 'k::linorder"
  assumes "sorted_wrt (\<lambda>a b. f a < f b) xs"
  obtains A B where "xs = A @ B" "\<forall>x \<in> set A. f x < k" "\<forall>x \<in> set B. k \<le> f x"
    "binary_search_by_key k f xs = (if B \<noteq> [] \<and> f (hd B) = k then Inr (length A) else Inl (length A))"
proof
  let ?i = "partition_point (\<lambda>x. f x < k) xs"
  note ps = point_split [OF assms refl, where k = k]
  show "xs = take ?i xs @ drop ?i xs" by simp
  show "\<forall>x \<in> set (take ?i xs). f x < k" "\<forall>x \<in> set (drop ?i xs). k \<le> f x" using ps(2,3) by blast+
  show "binary_search_by_key k f xs =
      (if drop ?i xs \<noteq> [] \<and> f (hd (drop ?i xs)) = k then Inr (length (take ?i xs)) else Inl (length (take ?i xs)))"
    by (auto simp: binary_search_by_key_def Let_def hd_drop_conv_nth)
qed

end
