(* ===== verification/Interval_Set.thy ===== *)
theory Interval_Set
  imports Prelude
begin

text \<open>
  \<open>IntervalSet\<close> (\<open>core/src/fs/btrfs/write/interval_set.rs\<close>): the sorted list of disjoint half-open
  ranges the btrfs writer uses to detect double allocation and double release. The operations are
  translated one by one; \<open>ivs_ok\<close> is the representation invariant the struct's comment states
  (every range ends strictly before the next one starts). The lemmas say that under the invariant the
  list is the set \<open>ranges\<close> of addresses it covers: \<open>overlaps\<close> and \<open>contains_range\<close> decide
  intersection and inclusion, \<open>insert\<close> and \<open>remove\<close> are union and difference.
  The locale \<open>range_tracker\<close> is the interface the allocators rely on; its lemmas about sequences of
  allocations and releases are proved from the laws alone.
\<close>

section \<open>The data structure\<close>

record interval_set =
  intervals :: "range list"

definition iset_new :: interval_set where
  "iset_new = \<lparr>intervals = []\<rparr>"

definition overlaps :: "interval_set \<Rightarrow> nat \<Rightarrow> nat \<Rightarrow> bool" where
  "overlaps self start len =
     (if len = 0 then False
      else case checked_add64 start len of
        None \<Rightarrow> True
      | Some stop \<Rightarrow>
          (let idx = partition_point (\<lambda>(s, _). s < stop) (intervals self) in
           if 0 < idx \<and> start < snd (intervals self ! (idx - 1)) then True else False))"

definition iset_insert :: "interval_set \<Rightarrow> nat \<Rightarrow> nat \<Rightarrow> bool \<times> interval_set" where
  "iset_insert self start len =
     (if len = 0 then (True, self)
      else case checked_add64 start len of
        None \<Rightarrow> (False, self)
      | Some stop \<Rightarrow>
          (let ivs = intervals self;
               idx = partition_point (\<lambda>(s, _). s < stop) ivs in
           if 0 < idx \<and> start < snd (ivs ! (idx - 1)) then (False, self)
           else
             let touch_prev = (0 < idx \<and> snd (ivs ! (idx - 1)) = start);
                 new_start = (if touch_prev then fst (ivs ! (idx - 1)) else start);
                 remove_start = (if touch_prev then idx - 1 else idx);
                 touch_next = (idx < length ivs \<and> fst (ivs ! idx) = stop);
                 new_end = (if touch_next then snd (ivs ! idx) else stop);
                 remove_end = (if touch_next then idx + 1 else idx)
             in (True, self\<lparr>intervals :=
                   take remove_start ivs @ [(new_start, new_end)] @ drop remove_end ivs\<rparr>)))"

fun remove_loop :: "nat \<Rightarrow> nat \<Rightarrow> range list \<Rightarrow> range list" where
  "remove_loop start stop [] = []"
| "remove_loop start stop ((s, e) # rest) =
     (if e \<le> start \<or> stop \<le> s then [(s, e)]
      else (if s < start then [(s, start)] else []) @ (if stop < e then [(stop, e)] else []))
     @ remove_loop start stop rest"

definition iset_remove :: "interval_set \<Rightarrow> nat \<Rightarrow> nat \<Rightarrow> interval_set" where
  "iset_remove self start len =
     (if len = 0 then self
      else case checked_add64 start len of
        None \<Rightarrow> self
      | Some stop \<Rightarrow> self\<lparr>intervals := remove_loop start stop (intervals self)\<rparr>)"

definition contains_range :: "interval_set \<Rightarrow> nat \<Rightarrow> nat \<Rightarrow> bool" where
  "contains_range self start len =
     (if len = 0 then True
      else case checked_add64 start len of
        None \<Rightarrow> False
      | Some stop \<Rightarrow>
          (let idx = partition_point (\<lambda>(s, _). s \<le> start) (intervals self) in
           if 0 < idx then
             (let (prev_start, prev_end) = intervals self ! (idx - 1) in
              prev_start \<le> start \<and> stop \<le> prev_end)
           else False))"

definition remove_exact :: "interval_set \<Rightarrow> nat \<Rightarrow> nat \<Rightarrow> bool \<times> interval_set" where
  "remove_exact self start len =
     (if len = 0 then (True, self)
      else if \<not> contains_range self start len then (False, self)
      else (True, iset_remove self start len))"

definition iset_len :: "interval_set \<Rightarrow> nat" where
  "iset_len self = length (intervals self)"

definition iset_is_empty :: "interval_set \<Rightarrow> bool" where
  "iset_is_empty self = (intervals self = [])"

definition iset_clear :: "interval_set \<Rightarrow> interval_set" where
  "iset_clear self = self\<lparr>intervals := []\<rparr>"

section \<open>The representation invariant\<close>

definition ivs_ok :: "range list \<Rightarrow> bool" where
  "ivs_ok ivs \<longleftrightarrow> sorted_wrt (\<lambda>a b. snd a < fst b) ivs
     \<and> (\<forall>r \<in> set ivs. fst r < snd r \<and> snd r < 2 ^ 64)"

definition iset_ok :: "interval_set \<Rightarrow> bool" where
  "iset_ok self = ivs_ok (intervals self)"

definition iset_addrs :: "interval_set \<Rightarrow> nat set" where
  "iset_addrs self = ranges (intervals self)"

lemma ivs_ok_Nil [simp]: "ivs_ok []"
  by (simp add: ivs_ok_def)

lemma ivs_ok_Cons [simp]:
  "ivs_ok (r # rs) \<longleftrightarrow>
     fst r < snd r \<and> snd r < 2 ^ 64 \<and> (\<forall>q \<in> set rs. snd r < fst q) \<and> ivs_ok rs"
  by (auto simp: ivs_ok_def)

lemma ivs_ok_append [simp]:
  "ivs_ok (xs @ ys) \<longleftrightarrow> ivs_ok xs \<and> ivs_ok ys \<and> (\<forall>a \<in> set xs. \<forall>b \<in> set ys. snd a < fst b)"
  by (auto simp: ivs_ok_def sorted_wrt_append)

text \<open>Below the start of the first range there is no address; an address of the list lies in
  exactly the ranges it names.\<close>

lemma ranges_lower: "\<forall>r \<in> set rs. k \<le> fst r \<Longrightarrow> x \<in> ranges rs \<Longrightarrow> k \<le> x"
  by (fastforce simp: in_ranges)

lemma ranges_upper: "\<forall>r \<in> set rs. snd r \<le> k \<Longrightarrow> x \<in> ranges rs \<Longrightarrow> x < k"
  by (fastforce simp: in_ranges)

text \<open>The binary search splits the list in the ranges that start before \<open>k\<close> and the others. The
  comparison of the source is against the start, strict or not; both are the predicate \<open>p\<close> here.\<close>

lemma split_at_point:
  assumes "idx = partition_point p ivs"
  obtains A B where "ivs = A @ B" "length A = idx" "\<forall>r \<in> set A. p r" "B \<noteq> [] \<Longrightarrow> \<not> p (hd B)"
proof (rule that)
  show "ivs = takeWhile p ivs @ dropWhile p ivs" by simp
  show "length (takeWhile p ivs) = idx" using assms by (simp add: partition_point_def)
  show "\<forall>r \<in> set (takeWhile p ivs). p r" by (blast dest: set_takeWhileD)
  show "dropWhile p ivs \<noteq> [] \<Longrightarrow> \<not> p (hd (dropWhile p ivs))" by (rule hd_dropWhile)
qed

lemma ivs_ok_tail_ge:
  assumes "ivs_ok B" "B \<noteq> [] \<Longrightarrow> k \<le> fst (hd B)"
  shows "\<forall>r \<in> set B. k \<le> fst r"
  using assms by (cases B) fastforce+

text \<open>The guard \<open>overlaps\<close> and \<open>insert\<close> share: the last range that starts before \<open>stop\<close> decides.\<close>

lemma probe_split:
  assumes ok: "ivs_ok ivs" and lt: "start < stop"
    and idx: "idx = partition_point (\<lambda>(s, _). s < stop) ivs"
  obtains A B where "ivs = A @ B" "length A = idx" "\<forall>r \<in> set A. fst r < stop" "\<forall>r \<in> set B. stop \<le> fst r"
proof -
  obtain A B where AB: "ivs = A @ B" "length A = idx" "\<forall>r \<in> set A. fst r < stop"
    "B \<noteq> [] \<Longrightarrow> stop \<le> fst (hd B)"
    using split_at_point [OF idx] by (metis (mono_tags, lifting) case_prod_beta not_le)
  moreover have "\<forall>r \<in> set B. stop \<le> fst r"
    using ok AB by (intro ivs_ok_tail_ge) auto
  ultimately show ?thesis using that by blast
qed

lemma probe_last:
  assumes ok: "ivs_ok ivs" and lt: "start < stop"
    and idx: "idx = partition_point (\<lambda>(s, _). s < stop) ivs"
  shows "0 < idx \<and> start < snd (ivs ! (idx - 1)) \<longleftrightarrow> {start..<stop} \<inter> ranges ivs \<noteq> {}"
proof -
  obtain A B where AB: "ivs = A @ B" "length A = idx" "\<forall>r \<in> set A. fst r < stop" "\<forall>r \<in> set B. stop \<le> fst r"
    by (rule probe_split [OF ok lt idx])
  have B: "{start..<stop} \<inter> ranges B = {}" using ranges_lower [OF AB(4)] by fastforce
  show ?thesis
  proof (cases A rule: rev_cases)
    case Nil
    then show ?thesis using AB B by simp
  next
    case (snoc A' r)
    then have r: "ivs ! (idx - 1) = r" "0 < idx" "fst r < snd r" "fst r < stop" "\<forall>q \<in> set A'. snd q < fst r"
      using AB ok by (auto simp: nth_append)
    show ?thesis
    proof (cases "start < snd r")
      case True
      then have "max start (fst r) \<in> {start..<stop} \<inter> ranges ivs" using r lt AB(1) snoc by auto
      then show ?thesis using True r by blast
    next
      case False
      then have "snd r \<le> start" "\<And>q. q \<in> set A' \<Longrightarrow> snd q \<le> start" using r(3,5) by force+
      then have "\<forall>q \<in> set A. snd q \<le> start" using snoc by auto
      then have "{start..<stop} \<inter> ranges A = {}" using ranges_upper by fastforce
      then show ?thesis using False r AB(1) B by auto
    qed
  qed
qed

lemma overlaps_iff:
  assumes "iset_ok self" "0 < len"
  shows "overlaps self start len \<longleftrightarrow>
           2 ^ 64 \<le> start + len \<or> {start..<start + len} \<inter> iset_addrs self \<noteq> {}"
  using probe_last [of "intervals self" start "start + len", OF _ _ refl] assms
  by (simp add: overlaps_def iset_ok_def iset_addrs_def checked_add64_def Let_def)

section \<open>Insertion\<close>

lemma splice_ok:
  assumes ok: "ivs_ok (A @ B)" and lt: "start < stop" "stop < 2 ^ 64"
    and A: "\<forall>r \<in> set A. snd r \<le> start" and B: "\<forall>r \<in> set B. stop \<le> fst r"
    and tp: "tp \<longleftrightarrow> A \<noteq> [] \<and> snd (last A) = start" and tn: "tn \<longleftrightarrow> B \<noteq> [] \<and> fst (hd B) = stop"
    and new: "new = (if tp then butlast A else A)
       @ [(if tp then fst (last A) else start, if tn then snd (hd B) else stop)]
       @ (if tn then tl B else B)"
  shows "ivs_ok new \<and> ranges new = ranges (A @ B) \<union> {start..<stop}"
proof -
  obtain A' s where A': "(if tp then butlast A else A) = A'" "(if tp then fst (last A) else start) = s"
    "ivs_ok A'" "\<forall>r \<in> set A'. snd r < s" "s \<le> start"
    "ranges A \<union> {start..<stop} = ranges A' \<union> {s..<stop}"
  proof (cases A rule: rev_cases)
    case Nil
    then show ?thesis using tp lt by (intro that [of "[]" start]) auto
  next
    case (snoc A1 r)
    show ?thesis
    proof (cases "snd r = start")
      case True
      then show ?thesis using snoc tp ok lt A by (intro that [of A1 "fst r"]) auto
    next
      case False
      then have "snd r < start" using A snoc by (simp add: order.not_eq_order_implies_strict)
      then have "\<forall>q \<in> set A. snd q < start" using ok snoc by fastforce
      then show ?thesis using False snoc tp ok by (intro that [of A start]) auto
    qed
  qed
  obtain B' e where B': "(if tn then tl B else B) = B'" "(if tn then snd (hd B) else stop) = e"
    "ivs_ok B'" "\<forall>r \<in> set B'. e < fst r" "stop \<le> e" "e < 2 ^ 64"
    "ranges B \<union> {s..<stop} = ranges B' \<union> {s..<e}"
  proof (cases B)
    case Nil
    then show ?thesis using tn lt by (intro that [of "[]" stop]) auto
  next
    case (Cons r B1)
    show ?thesis
    proof (cases "fst r = stop")
      case True
      then show ?thesis using Cons tn ok lt A'(5) by (intro that [of B1 "snd r"]) auto
    next
      case False
      then have "stop < fst r" using B Cons by (simp add: order.not_eq_order_implies_strict)
      then have "\<forall>q \<in> set B. stop < fst q" using ok Cons by fastforce
      then show ?thesis using False Cons tn ok lt by (intro that [of B stop]) auto
    qed
  qed
  have "new = A' @ (s, e) # B'" using new A'(1,2) B'(1,2) by simp
  moreover have se: "s < e" using A'(5) B'(5) lt by simp
  moreover have "\<forall>a \<in> set A'. \<forall>b \<in> set B'. snd a < fst b"
    using A'(4) B'(4) se by (meson order.strict_trans)
  moreover have "ranges (A @ B) \<union> {start..<stop} = ranges A' \<union> ({s..<e} \<union> ranges B')"
    using A'(6) B'(7) by (simp add: Un_ac) blast
  ultimately show ?thesis using A'(3,4) B'(3,4,6) by simp
qed

lemma iset_insert_reject:
  assumes "iset_ok self" "iset_insert self start len = (False, self')"
  shows "self' = self \<and> 0 < len \<and> overlaps self start len"
  using assms probe_last [of "intervals self" start "start + len", OF _ _ refl]
  by (auto simp: iset_insert_def overlaps_def Let_def split: if_splits option.splits)

lemma iset_insert_accept:
  assumes ok: "iset_ok self" and ins: "iset_insert self start len = (True, self')"
  shows "iset_ok self' \<and> iset_addrs self' = iset_addrs self \<union> {start..<start + len}
     \<and> {start..<start + len} \<inter> iset_addrs self = {} \<and> (len = 0 \<or> start + len < 2 ^ 64)"
proof (cases "len = 0")
  case True
  then show ?thesis using assms by (simp add: iset_insert_def)
next
  case False
  let ?ivs = "intervals self" and ?stop = "start + len"
  define idx where idx: "idx = partition_point (\<lambda>(s, _). s < ?stop) ?ivs"
  have w: "?stop < 2 ^ 64" and g: "\<not> (0 < idx \<and> start < snd (?ivs ! (idx - 1)))"
    using ins False by (auto simp: iset_insert_def Let_def checked_add64_def idx split: if_splits)
  have okl: "ivs_ok ?ivs" and lt: "start < ?stop" using ok False by (simp_all add: iset_ok_def)
  have dis: "{start..<?stop} \<inter> ranges ?ivs = {}" using probe_last [OF okl lt idx] g by blast
  obtain A B where AB: "?ivs = A @ B" "length A = idx" "\<forall>r \<in> set A. fst r < ?stop" "\<forall>r \<in> set B. ?stop \<le> fst r"
    by (rule probe_split [OF okl lt idx])
  have A: "\<forall>r \<in> set A. snd r \<le> start"
  proof (cases A rule: rev_cases)
    case (snoc A1 r)
    then have "snd r \<le> start" using g AB by (auto simp: nth_append)
    then show ?thesis using okl AB(1) snoc by fastforce
  qed simp
  have prev: "0 < idx \<and> snd (?ivs ! (idx - 1)) = start \<longleftrightarrow> A \<noteq> [] \<and> snd (last A) = start"
    using AB(1,2) by (cases A rule: rev_cases) (auto simp: nth_append)
  have last: "A \<noteq> [] \<Longrightarrow> ?ivs ! (idx - 1) = last A" "A \<noteq> [] \<Longrightarrow> take (idx - 1) ?ivs = butlast A" "take idx ?ivs = A"
    using AB(1,2) by (cases A rule: rev_cases; auto simp: nth_append)+
  have "next": "idx < length ?ivs \<and> fst (?ivs ! idx) = ?stop \<longleftrightarrow> B \<noteq> [] \<and> fst (hd B) = ?stop"
    "B \<noteq> [] \<Longrightarrow> ?ivs ! idx = hd B" "drop (idx + 1) ?ivs = tl B" "drop idx ?ivs = B"
    using AB(1,2) by (auto simp: nth_append hd_conv_nth drop_Suc)
  define tp where tp: "tp \<longleftrightarrow> 0 < idx \<and> snd (?ivs ! (idx - 1)) = start"
  define tn where tn: "tn \<longleftrightarrow> idx < length ?ivs \<and> fst (?ivs ! idx) = ?stop"
  have "checked_add64 start len = Some ?stop" using w by (simp add: checked_add64_def)
  then have "iset_insert self start len = (True, self\<lparr>intervals := take (if tp then idx - 1 else idx) ?ivs
       @ [(if tp then fst (?ivs ! (idx - 1)) else start, if tn then snd (?ivs ! idx) else ?stop)]
       @ drop (if tn then idx + 1 else idx) ?ivs\<rparr>)"
    unfolding iset_insert_def Let_def
    by (simp only: option.case False if_False idx [symmetric] g tp [symmetric] tn [symmetric])
  then have eq: "intervals self' = take (if tp then idx - 1 else idx) ?ivs
       @ [(if tp then fst (?ivs ! (idx - 1)) else start, if tn then snd (?ivs ! idx) else ?stop)]
       @ drop (if tn then idx + 1 else idx) ?ivs"
    using ins by auto
  have tp': "tp \<longleftrightarrow> A \<noteq> [] \<and> snd (last A) = start" and tn': "tn \<longleftrightarrow> B \<noteq> [] \<and> fst (hd B) = ?stop"
    unfolding tp tn using prev "next"(1) by simp_all
  have new: "intervals self' = (if tp then butlast A else A)
       @ [(if tp then fst (last A) else start, if tn then snd (hd B) else ?stop)]
       @ (if tn then tl B else B)"
    unfolding eq using last "next"(2-4) tp' tn' by (cases tp; cases tn) auto
  have "ivs_ok (intervals self') \<and> ranges (intervals self') = ranges (A @ B) \<union> {start..<?stop}"
    by (rule splice_ok [OF _ lt w A AB(4) tp' tn' new]) (use okl AB(1) in simp)
  then show ?thesis using dis w AB(1) by (simp add: iset_ok_def iset_addrs_def)
qed

section \<open>Removal and containment\<close>

lemma remove_loop_addrs:
  "start < stop \<Longrightarrow> \<forall>r \<in> set ivs. fst r < snd r \<Longrightarrow>
   ranges (remove_loop start stop ivs) = ranges ivs - {start..<stop}"
  by (induction start stop ivs rule: remove_loop.induct) auto

lemma remove_loop_mem:
  "q \<in> set (remove_loop start stop ivs) \<Longrightarrow> start < stop \<Longrightarrow>
   \<exists>r \<in> set ivs. fst r \<le> fst q \<and> snd q \<le> snd r"
  by (induction start stop ivs rule: remove_loop.induct) (fastforce split: if_splits)+

lemma remove_loop_ok:
  assumes "start < stop" "ivs_ok ivs"
  shows "ivs_ok (remove_loop start stop ivs)"
  using assms
proof (induction start stop ivs rule: remove_loop.induct)
  case (2 start stop s e rest)
  have later: "\<And>q. q \<in> set (remove_loop start stop rest) \<Longrightarrow> e < fst q"
    using remove_loop_mem [OF _ "2.prems"(1)] "2.prems"(2) by fastforce
  show ?case using "2.IH" "2.prems" by (auto dest!: later)
qed simp

lemma iset_remove_spec:
  assumes ok: "iset_ok self" and w: "len = 0 \<or> start + len < 2 ^ 64"
  shows "iset_ok (iset_remove self start len) \<and>
         iset_addrs (iset_remove self start len) = iset_addrs self - {start..<start + len}"
proof (cases "len = 0")
  case False
  have "\<forall>r \<in> set (intervals self). fst r < snd r" using ok by (simp add: iset_ok_def ivs_ok_def)
  then show ?thesis
    using False w ok remove_loop_ok [of start "start + len" "intervals self"]
      remove_loop_addrs [of start "start + len" "intervals self"]
    by (simp add: iset_remove_def iset_ok_def iset_addrs_def checked_add64_def)
qed (use ok in \<open>simp add: iset_remove_def\<close>)

text \<open>Because adjacent ranges are merged, a contiguous block of covered addresses lies in one
  range: the single comparison \<open>contains_range\<close> makes is complete.\<close>

lemma contiguous_in_one:
  assumes "ivs_ok ivs" "{start..<stop} \<subseteq> ranges ivs" "start < stop"
  shows "\<exists>r \<in> set ivs. fst r \<le> start \<and> stop \<le> snd r"
proof -
  obtain r where r: "r \<in> set ivs" "fst r \<le> start" "start < snd r"
    using assms(2,3) by (fastforce simp: in_ranges)
  have "stop \<le> snd r"
  proof (rule ccontr)
    assume "\<not> stop \<le> snd r"
    then have "snd r \<in> ranges ivs" using assms(2) r by auto
    then obtain q where q: "q \<in> set ivs" "fst q \<le> snd r" "snd r < snd q" by (fastforce simp: in_ranges)
    obtain X Y where XY: "ivs = X @ r # Y" using r(1) by (meson split_list)
    have "q \<noteq> r" using q by auto
    then have "q \<in> set X \<or> q \<in> set Y" using q(1) XY by auto
    then show False using assms(1) XY q r by fastforce
  qed
  then show ?thesis using r by blast
qed

lemma contains_range_iff:
  assumes ok: "iset_ok self"
  shows "contains_range self start len \<longleftrightarrow>
           len = 0 \<or> start + len < 2 ^ 64 \<and> {start..<start + len} \<subseteq> iset_addrs self"
proof (cases "len = 0 \<or> 2 ^ 64 \<le> start + len")
  case True
  then show ?thesis by (auto simp: contains_range_def checked_add64_def)
next
  case False
  let ?ivs = "intervals self"
  define idx where idx: "idx = partition_point (\<lambda>(s, _). s \<le> start) ?ivs"
  have okl: "ivs_ok ?ivs" using ok by (simp add: iset_ok_def)
  obtain A B where AB: "?ivs = A @ B" "length A = idx" "\<forall>r \<in> set A. fst r \<le> start"
    "B \<noteq> [] \<Longrightarrow> Suc start \<le> fst (hd B)"
    using split_at_point [OF idx] by (metis (mono_tags, lifting) case_prod_beta not_less_eq_eq)
  have B: "\<forall>r \<in> set B. Suc start \<le> fst r" using okl AB by (intro ivs_ok_tail_ge) auto
  have "contains_range self start len \<longleftrightarrow> A \<noteq> [] \<and> start + len \<le> snd (last A)"
  proof (cases A rule: rev_cases)
    case (snoc A' r)
    then have "?ivs ! (idx - 1) = r" "0 < idx" using AB by (auto simp: nth_append)
    then show ?thesis
      using False snoc AB(3)
      by (auto simp: contains_range_def Let_def checked_add64_def idx [symmetric] split: prod.split)
  next
    case Nil
    then have "idx = 0" using AB by simp
    then show ?thesis using False Nil by (simp add: contains_range_def Let_def idx checked_add64_def)
  qed
  also have "\<dots> \<longleftrightarrow> {start..<start + len} \<subseteq> ranges ?ivs"
  proof
    assume l: "A \<noteq> [] \<and> start + len \<le> snd (last A)"
    then have "last A \<in> set ?ivs" "fst (last A) \<le> start" using AB by auto
    moreover have "{start..<start + len} \<subseteq> range_set (last A)" using l calculation(2) by (auto simp: range_set_def)
    ultimately show "{start..<start + len} \<subseteq> ranges ?ivs" by (auto simp: ranges_def)
  next
    assume sub: "{start..<start + len} \<subseteq> ranges ?ivs"
    obtain r where r: "r \<in> set ?ivs" "fst r \<le> start" "start + len \<le> snd r"
      using contiguous_in_one [OF okl sub] False by auto
    then have "r \<notin> set B" using B by (meson not_less_eq_eq)
    then have "r \<in> set A" using r(1) AB(1) by simp
    then have "A \<noteq> []" "snd r \<le> snd (last A)"
      using okl AB(1) by (cases A rule: rev_cases; fastforce)+
    then show "A \<noteq> [] \<and> start + len \<le> snd (last A)" using r by simp
  qed
  finally show ?thesis using False by (simp add: iset_addrs_def)
qed

section \<open>The interface the allocators use\<close>

text \<open>A tracker of address ranges: \<open>insert\<close> refuses a range that meets a tracked one, \<open>release\<close>
  refuses a range that is not tracked in full. \<open>run\<close> is a sequence of allocations and releases
  with the answers the tracker gave.\<close>

datatype track_op = Alloc nat nat | Release nat nat

definition op_addrs :: "track_op \<Rightarrow> nat set" where
  "op_addrs p = (case p of Alloc s n \<Rightarrow> {s..<s + n} | Release s n \<Rightarrow> {s..<s + n})"

locale range_tracker =
  fixes invar :: "'s \<Rightarrow> bool" and addrs :: "'s \<Rightarrow> nat set"
    and insert_rng :: "'s \<Rightarrow> nat \<Rightarrow> nat \<Rightarrow> bool \<times> 's" and release_rng :: "'s \<Rightarrow> nat \<Rightarrow> nat \<Rightarrow> bool \<times> 's"
  assumes insert_ok: "invar t \<Longrightarrow> insert_rng t s n = (True, t') \<Longrightarrow>
      invar t' \<and> addrs t' = addrs t \<union> {s..<s + n} \<and> {s..<s + n} \<inter> addrs t = {}"
    and insert_no: "invar t \<Longrightarrow> insert_rng t s n = (False, t') \<Longrightarrow> t' = t"
    and release_ok: "invar t \<Longrightarrow> release_rng t s n = (True, t') \<Longrightarrow>
      invar t' \<and> addrs t' = addrs t - {s..<s + n} \<and> {s..<s + n} \<subseteq> addrs t"
    and release_no: "invar t \<Longrightarrow> release_rng t s n = (False, t') \<Longrightarrow> t' = t"
begin

definition apply_op :: "'s \<Rightarrow> track_op \<Rightarrow> bool \<times> 's" where
  "apply_op t p = (case p of Alloc s n \<Rightarrow> insert_rng t s n | Release s n \<Rightarrow> release_rng t s n)"

fun run :: "'s \<Rightarrow> track_op list \<Rightarrow> (track_op \<times> bool) list \<times> 's" where
  "run t [] = ([], t)"
| "run t (p # ps) = (let (b, t') = apply_op t p; (rest, t'') = run t' ps in ((p, b) # rest, t''))"

lemma apply_invar: "invar t \<Longrightarrow> apply_op t p = (b, t') \<Longrightarrow> invar t'"
  by (cases p; cases b)
    (auto simp: apply_op_def dest: insert_ok insert_no release_ok release_no)

lemma apply_refused: "invar t \<Longrightarrow> apply_op t p = (False, t') \<Longrightarrow> t' = t"
  by (cases p) (auto simp: apply_op_def dest: insert_no release_no)

lemma apply_accepted:
  "invar t \<Longrightarrow> apply_op t p = (True, t') \<Longrightarrow>
   (case p of Alloc _ _ \<Rightarrow> addrs t' = addrs t \<union> op_addrs p \<and> op_addrs p \<inter> addrs t = {}
            | Release _ _ \<Rightarrow> addrs t' = addrs t - op_addrs p \<and> op_addrs p \<subseteq> addrs t)"
  by (cases p) (auto simp: apply_op_def op_addrs_def dest: insert_ok release_ok)

lemma run_invar: "invar t \<Longrightarrow> run t ps = (log, t') \<Longrightarrow> invar t'"
  by (induction ps arbitrary: t log) (auto split: prod.splits dest: apply_invar)

text \<open>An address an allocation of the run was granted stays tracked until a release of the run
  covers it.\<close>

lemma run_keeps:
  assumes "invar t" "run t ps = (log, t')" "x \<in> addrs t"
    and "\<And>s n. (Release s n, True) \<in> set log \<Longrightarrow> x \<notin> {s..<s + n}"
  shows "x \<in> addrs t'"
  using assms
proof (induction ps arbitrary: t log)
  case (Cons p ps)
  obtain b u rest where u: "apply_op t p = (b, u)" "run u ps = (rest, t')" "log = (p, b) # rest"
    using Cons.prems(2) by (auto split: prod.splits)
  have "x \<in> addrs u"
  proof (cases b)
    case True
    then show ?thesis
      using apply_accepted [OF Cons.prems(1)] u(1,3) Cons.prems(3,4)
      by (cases p) (fastforce simp: op_addrs_def)+
  next
    case False
    then show ?thesis using apply_refused [OF Cons.prems(1), of p u] u(1) Cons.prems(3) by simp
  qed
  then show ?case
    using Cons.IH [OF apply_invar [OF Cons.prems(1) u(1)] u(2)] Cons.prems(4) u(3) by simp
qed simp

text \<open>Double allocation is always caught: two allocations granted in one run with no release in
  between that touches the first do not share an address.\<close>

lemma run_append:
  "run t (ps @ qs) = (let (l1, u) = run t ps; (l2, v) = run u qs in (l1 @ l2, v))"
  by (induction ps arbitrary: t) (auto simp: Let_def split: prod.splits)

lemma granted_disjoint:
  assumes inv: "invar t" and r: "run t (Alloc s n # ps @ [Alloc s' n']) = ((Alloc s n, True) # log @ [(Alloc s' n', True)], t')"
    and len: "length log = length ps"
    and norel: "\<And>a k. (Release a k, True) \<in> set log \<Longrightarrow> {a..<a + k} \<inter> {s..<s + n} = {}"
  shows "{s..<s + n} \<inter> {s'..<s' + n'} = {}"
proof -
  obtain u where u: "apply_op t (Alloc s n) = (True, u)" "run u (ps @ [Alloc s' n']) = (log @ [(Alloc s' n', True)], t')"
    using r by (auto split: prod.splits)
  obtain l1 v where v: "run u ps = (l1, v)" by (cases "run u ps") auto
  then have v2: "apply_op v (Alloc s' n') = (True, t')" "l1 = log"
    using u(2) by (auto simp: run_append Let_def split: prod.splits)
  have iu: "invar u" using apply_invar [OF inv u(1)] .
  have sub: "{s..<s + n} \<subseteq> addrs u" using apply_accepted [OF inv u(1)] by (auto simp: op_addrs_def)
  have "{s..<s + n} \<subseteq> addrs v"
  proof
    fix x assume "x \<in> {s..<s + n}"
    then show "x \<in> addrs v" using run_keeps [OF iu v] v2(2) sub norel by blast
  qed
  moreover have "{s'..<s' + n'} \<inter> addrs v = {}"
    using apply_accepted [OF run_invar [OF iu v] v2(1)] by (simp add: op_addrs_def)
  ultimately show ?thesis by blast
qed

end

lemma remove_exact_accept:
  assumes "iset_ok self" "remove_exact self start len = (True, self')"
  shows "iset_ok self' \<and> iset_addrs self' = iset_addrs self - {start..<start + len}
     \<and> {start..<start + len} \<subseteq> iset_addrs self"
  using assms iset_remove_spec [of self len start] contains_range_iff [OF assms(1), of start len]
  by (auto simp: remove_exact_def split: if_splits)

lemma remove_exact_reject:
  assumes "iset_ok self" "remove_exact self start len = (False, self')"
  shows "self' = self \<and> 0 < len \<and> (2 ^ 64 \<le> start + len \<or> \<not> {start..<start + len} \<subseteq> iset_addrs self)"
  using assms contains_range_iff [OF assms(1), of start len]
  by (auto simp: remove_exact_def split: if_splits)

interpretation iset: range_tracker iset_ok iset_addrs iset_insert remove_exact
  by unfold_locales
    (blast dest: iset_insert_accept iset_insert_reject remove_exact_accept remove_exact_reject)+

section \<open>Properties\<close>

text \<open>C16: insertion is set union with overlap detection. From a well-formed set, \<open>insert\<close> answers true exactly when the range is
  empty, or its end is below \<open>2\<^sup>6\<^sup>4\<close> and it shares no address with the set (a free range whose end reaches \<open>2\<^sup>6\<^sup>4\<close> is refused);
  that is exactly when \<open>overlaps\<close> answers false. Then the new set is well-formed (sorted, disjoint, merged) and covers exactly the
  old addresses and the range; otherwise the set is unchanged.\<close>

theorem iset_insert_refines:
  assumes ok: "iset_ok self"
  shows "case iset_insert self start len of (granted, self') \<Rightarrow>
     (granted \<longleftrightarrow> len = 0 \<or> start + len < 2 ^ 64 \<and> {start..<start + len} \<inter> iset_addrs self = {})
     \<and> (granted \<longleftrightarrow> \<not> overlaps self start len)
     \<and> iset_ok self'
     \<and> iset_addrs self' = (if granted then iset_addrs self \<union> {start..<start + len} else iset_addrs self)
     \<and> (granted \<or> self' = self)"
proof -
  obtain g self' where i: "iset_insert self start len = (g, self')" by (cases "iset_insert self start len") auto
  have o: "overlaps self start len \<longleftrightarrow> 0 < len \<and> (2 ^ 64 \<le> start + len \<or> {start..<start + len} \<inter> iset_addrs self \<noteq> {})"
    using overlaps_iff [OF ok, of len start] by (cases "len = 0") (simp_all add: overlaps_def)
  show ?thesis
  proof (cases g)
    case True
    then show ?thesis using iset_insert_accept [OF ok, of start len self'] i o by auto
  next
    case False
    then show ?thesis using iset_insert_reject [OF ok] i o ok by (auto simp: not_less)
  qed
qed

theorem iset_insert_refines_witness:
  "iset_insert \<lparr>intervals = [(100, 150), (200, 250)]\<rparr> 150 50 = (True, \<lparr>intervals = [(100, 250)]\<rparr>)
   \<and> iset_ok \<lparr>intervals = [(100, 250)]\<rparr> \<and> \<not> overlaps \<lparr>intervals = [(100, 150), (200, 250)]\<rparr> 150 50"
proof -
  let ?s = "\<lparr>intervals = [(100, 150), (200, 250)]\<rparr>"
  have ok: "iset_ok ?s" by (simp add: iset_ok_def)
  have i: "iset_insert ?s 150 50 = (True, \<lparr>intervals = [(100, 250)]\<rparr>)"
    by (simp add: iset_insert_def partition_point_def checked_add64_def)
  show ?thesis using iset_insert_refines [OF ok, where start = 150 and len = 50] unfolding i by simp
qed

text \<open>C17: removal is set difference, and the checked release detects double release. \<open>remove\<close> of any range whose end is below \<open>2\<^sup>6\<^sup>4\<close>
  deletes exactly the addresses of the range from the set, whether the range is tracked whole, in part, across several intervals or not at all; a
  range that reaches \<open>2\<^sup>6\<^sup>4\<close> is ignored. \<open>remove_exact\<close> answers true exactly when \<open>contains_range\<close> does, that is when the range is empty
  or every address of it is tracked, and then does what \<open>remove\<close> does; otherwise nothing changes. The set stays well-formed.\<close>

theorem iset_release_refines:
  assumes ok: "iset_ok self"
  shows "iset_ok (iset_remove self start len)
     \<and> iset_addrs (iset_remove self start len) = (if start + len < 2 ^ 64 then iset_addrs self - {start..<start + len} else iset_addrs self)
     \<and> (contains_range self start len \<longleftrightarrow> len = 0 \<or> start + len < 2 ^ 64 \<and> {start..<start + len} \<subseteq> iset_addrs self)
     \<and> remove_exact self start len = (if contains_range self start len then (True, iset_remove self start len) else (False, self))"
proof -
  have "iset_remove self start len = self" if "2 ^ 64 \<le> start + len" using that by (simp add: iset_remove_def checked_add64_def)
  then have "iset_ok (iset_remove self start len)"
    "iset_addrs (iset_remove self start len) = (if start + len < 2 ^ 64 then iset_addrs self - {start..<start + len} else iset_addrs self)"
    using iset_remove_spec [OF ok, of len start] ok by (cases "start + len < 2 ^ 64"; simp)+
  moreover have "remove_exact self start len = (if contains_range self start len then (True, iset_remove self start len) else (False, self))"
    by (simp add: remove_exact_def contains_range_def iset_remove_def)
  ultimately show ?thesis using contains_range_iff [OF ok, of start len] by blast
qed

text \<open>A range over the end of one interval, the gap and the start of the next.\<close>

theorem iset_release_refines_witness:
  "iset_remove \<lparr>intervals = [(100, 200), (300, 400)]\<rparr> 150 200 = \<lparr>intervals = [(100, 150), (350, 400)]\<rparr>
   \<and> iset_addrs \<lparr>intervals = [(100, 150), (350, 400)]\<rparr> = {100..<200} \<union> {300..<400} - {150..<350}
   \<and> \<not> contains_range \<lparr>intervals = [(100, 200), (300, 400)]\<rparr> 150 200"
proof -
  let ?s = "\<lparr>intervals = [(100, 200), (300, 400)]\<rparr>"
  have ok: "iset_ok ?s" by (simp add: iset_ok_def)
  have i: "iset_remove ?s 150 200 = \<lparr>intervals = [(100, 150), (350, 400)]\<rparr>"
    by (simp add: iset_remove_def checked_add64_def)
  have a: "iset_addrs ?s = {100..<200} \<union> {300..<400}" by (simp add: iset_addrs_def)
  have n: "\<not> {150..<350} \<subseteq> {100..<200} \<union> {300..<400 :: nat}"
  proof
    assume "{150..<350} \<subseteq> {100..<200} \<union> {300..<400 :: nat}"
    then have "(250 :: nat) \<in> {100..<200} \<union> {300..<400}" by (rule subsetD) simp
    then show False by simp
  qed
  show ?thesis using iset_release_refines [OF ok, where start = 150 and len = 200] n unfolding i a by simp
qed

text \<open>C15: no double allocation. In any sequence of allocations and exact releases run on a well-formed
  set, two granted allocations with no granted release in between that touches the first one never
  share an address.\<close>

theorem iset_no_double_allocation:
  assumes "iset_ok t"
    and "iset.run t (Alloc s n # ps @ [Alloc s' n']) = ((Alloc s n, True) # log @ [(Alloc s' n', True)], t')"
    and "length log = length ps"
    and "\<And>a k. (Release a k, True) \<in> set log \<Longrightarrow> {a..<a + k} \<inter> {s..<s + n} = {}"
    and "iset_insert t s n = (True, u)"
  shows "{s..<s + n} \<inter> {s'..<s' + n'} = {} \<and> iset_ok t'"
  using iset.granted_disjoint [OF assms(1-4)] iset.run_invar [OF assms(1,2)] by blast

theorem iset_no_double_allocation_witness:
  "{10..<10 + 5} \<inter> {20..<20 + (5::nat)} = {} \<and> iset_ok \<lparr>intervals = [(10, 15), (20, 25)]\<rparr>"
proof -
  have r: "iset.run iset_new (Alloc 10 5 # [Release 11 7] @ [Alloc 20 5])
      = ((Alloc 10 5, True) # [(Release 11 7, False)] @ [(Alloc 20 5, True)], \<lparr>intervals = [(10, 15), (20, 25)]\<rparr>)"
    by (simp add: iset.apply_op_def iset_insert_def remove_exact_def contains_range_def iset_new_def
        partition_point_def checked_add64_def Let_def)
  have i: "iset_insert iset_new 10 5 = (True, \<lparr>intervals = [(10, 15)]\<rparr>)"
    by (simp add: iset_insert_def iset_new_def partition_point_def checked_add64_def)
  have ok: "iset_ok iset_new" by (simp add: iset_ok_def iset_new_def)
  show ?thesis by (rule iset_no_double_allocation [OF ok r _ _ i]) simp_all
qed

end
