(* ===== verification/Errors.thy ===== *)
theory Errors
  imports Prelude
begin

text \<open>
  The error type of the crate (\<open>core/src/error.rs\<close>): one constructor per variant of \<open>LuksError\<close>, in
  the order of the source, and the two classifications callers branch on. Payloads that are static
  strings or \<open>String\<close>s are \<open>string\<close>; \<open>std::io::Error\<close> is its raw OS error number, if it has one, and a
  kind. \<open>Panic\<close> is the model's own: the value of a computation that panics in the source.
\<close>

record sense =
  sense_key :: nat
  sense_asc :: nat
  sense_ascq :: nat

datatype io_kind = Interrupted | UnexpectedEof | WriteZero | PermissionDenied | OtherIo

record io_error =
  raw_os_error :: "nat option"
  io_error_kind :: io_kind

datatype luks_error =
    BadMagic bytes
  | UnsupportedVersion nat
  | Luks1NotImplemented
  | Truncated nat nat
  | ImplausibleHeaderSize nat
  | ChecksumMismatch
  | UnsupportedChecksumAlg string
  | JsonNotUtf8
  | JsonParse string
  | BadIntegerField string string
  | Missing string
  | KdfFailed string
  | UnsupportedHash string
  | UnsupportedCipher string
  | UnsupportedDigest string
  | BadKeyLength nat
  | WrongPassword
  | BadSectorSize nat
  | OutOfBounds
  | NotExt4 nat
  | NotBtrfs bytes
  | UnknownFs
  | UnsupportedFs string
  | AmbiguousFs
  | FsChecksumMismatch string
  | UnsupportedFsFeature string
  | FsNeedsRecovery
  | BadExtentHeader nat
  | BadExtentTree string
  | BadInode nat
  | NotFound string
  | NotADirectory string
  | IsADirectory string
  | DirectoryNotEmpty string
  | SymlinkLoop string
  | CorruptFs string
  | AlreadyExists string
  | WriterBusy
  | FilesystemFull
  | BtrfsItemTooLarge string nat nat
  | NoFreeInodes
  | WrongWriteTarget string nat string
  | UnverifiableWriteTarget string
  | ScsiProtocol string
  | ScsiCommandFailed nat "sense option"
  | UsbTransfer string
  | NoPartitionTable
  | BadGpt string
  | Io string io_error
  | SessionPoisoned
  | Cancelled
  | WriteSessionFenced string
  | ReadOnlyVolume
  | Panic

type_synonym 'a result = "luks_error + 'a"

definition fences_write_session :: "luks_error \<Rightarrow> bool" where
  "fences_write_session e = (case e of
      ScsiProtocol _ \<Rightarrow> True
    | ScsiCommandFailed _ _ \<Rightarrow> True
    | UsbTransfer _ \<Rightarrow> True
    | Io _ _ \<Rightarrow> True
    | SessionPoisoned \<Rightarrow> True
    | WriteSessionFenced _ \<Rightarrow> True
    | _ \<Rightarrow> False)"

text \<open>\<open>str::contains\<close>.\<close>

fun str_contains :: "string \<Rightarrow> string \<Rightarrow> bool" where
  "str_contains [] pat = (pat = [])"
| "str_contains (c # cs) pat = (take (length pat) (c # cs) = pat \<or> str_contains cs pat)"

definition is_disconnected :: "luks_error \<Rightarrow> bool" where
  "is_disconnected e = (case e of
      UsbTransfer msg \<Rightarrow>
        str_contains msg ''No such device''
        \<or> str_contains msg ''Bad file descriptor''
        \<or> str_contains msg ''endpoint shutdown''
        \<or> str_contains msg ''errno 108''
        \<or> str_contains msg ''ESHUTDOWN''
        \<or> str_contains msg ''dead''
    | Io _ source \<Rightarrow>
        raw_os_error source = Some 19
        \<or> raw_os_error source = Some 9
        \<or> raw_os_error source = Some 108
    | _ \<Rightarrow> False)"

text \<open>Every error that means the device is gone also fences the write session: a lost transport leaves
  the outcome of the last command unknown.\<close>

lemma disconnected_fences: "is_disconnected e \<Longrightarrow> fences_write_session e"
  by (cases e) (simp_all add: is_disconnected_def fences_write_session_def)

section \<open>The result type\<close>

text \<open>\<open>?\<close> on a \<open>Result\<close>, and the classification of results.\<close>

definition rbind :: "'a result \<Rightarrow> ('a \<Rightarrow> 'b result) \<Rightarrow> 'b result" where
  "rbind r f = (case r of Inl e \<Rightarrow> Inl e | Inr x \<Rightarrow> f x)"

definition ok_or :: "'a option \<Rightarrow> luks_error \<Rightarrow> 'a result" where
  "ok_or x e = (case x of None \<Rightarrow> Inl e | Some v \<Rightarrow> Inr v)"

definition is_ok :: "'a result \<Rightarrow> bool" where
  "is_ok r = (case r of Inl _ \<Rightarrow> False | Inr _ \<Rightarrow> True)"

lemma rbind_simps [simp]: "rbind (Inl e) f = Inl e" "rbind (Inr x) f = f x"
  by (simp_all add: rbind_def)

lemma rbind_Inr: "rbind r f = Inr y \<longleftrightarrow> (\<exists>x. r = Inr x \<and> f x = Inr y)"
  by (cases r) simp_all

lemma rbind_Inl: "rbind r f = Inl e \<longleftrightarrow> r = Inl e \<or> (\<exists>x. r = Inr x \<and> f x = Inl e)"
  by (cases r) auto

lemma ok_or_simps [simp]: "ok_or None e = Inl e" "ok_or (Some v) e = Inr v"
  by (simp_all add: ok_or_def)

lemma ok_or_Inr: "ok_or x e = Inr v \<longleftrightarrow> x = Some v"
  by (cases x) simp_all

end
