(* ===== verification/Chunk_Map.thy ===== *)
theory Chunk_Map
  imports Errors
begin

unbundle bit_operations_syntax

text \<open>
  The btrfs chunk layer (\<open>core/src/fs/btrfs/chunk.rs\<close>, keys from \<open>tree.rs\<close>): chunk items and device
  extents with their on-disk codecs, and the \<open>ChunkMap\<close> that translates logical to physical
  addresses. The lemmas: parsing inverts emitting on well-formed values (\<open>codec\<close> is the contract,
  interpreted for both items), the map is a finite map keyed by the logical start and stays
  sorted, translation is linear on the run it reports, and the bootstrap array of the superblock
  decodes to exactly the chunks it was written from.
\<close>

section \<open>Keys and constants\<close>

record key =
  objectid :: nat
  item_type :: nat
  offset :: nat

definition key_new :: "nat \<Rightarrow> nat \<Rightarrow> nat \<Rightarrow> key" where
  "key_new oid ty off = \<lparr>objectid = oid, item_type = ty, offset = off\<rparr>"

definition KEY_SIZE :: nat where "KEY_SIZE = 17"
definition DEV_EXTENT_KEY :: nat where "DEV_EXTENT_KEY = 204"
definition CHUNK_ITEM_KEY :: nat where "CHUNK_ITEM_KEY = 228"
definition EXTENT_TREE_OBJECTID :: nat where "EXTENT_TREE_OBJECTID = 2"
definition CHUNK_TREE_OBJECTID :: nat where "CHUNK_TREE_OBJECTID = 3"
definition FIRST_CHUNK_TREE_OBJECTID :: nat where "FIRST_CHUNK_TREE_OBJECTID = 256"

definition BLOCK_GROUP_DATA :: nat where "BLOCK_GROUP_DATA = 0x1"
definition BLOCK_GROUP_SYSTEM :: nat where "BLOCK_GROUP_SYSTEM = 0x2"
definition BLOCK_GROUP_METADATA :: nat where "BLOCK_GROUP_METADATA = 0x4"
definition BLOCK_GROUP_RAID0 :: nat where "BLOCK_GROUP_RAID0 = 0x8"
definition BLOCK_GROUP_RAID1 :: nat where "BLOCK_GROUP_RAID1 = 0x10"
definition BLOCK_GROUP_DUP :: nat where "BLOCK_GROUP_DUP = 0x20"
definition BLOCK_GROUP_RAID10 :: nat where "BLOCK_GROUP_RAID10 = 0x40"
definition BLOCK_GROUP_RAID5 :: nat where "BLOCK_GROUP_RAID5 = 0x80"
definition BLOCK_GROUP_RAID6 :: nat where "BLOCK_GROUP_RAID6 = 0x100"
definition BLOCK_GROUP_RAID1C3 :: nat where "BLOCK_GROUP_RAID1C3 = 0x200"
definition BLOCK_GROUP_RAID1C4 :: nat where "BLOCK_GROUP_RAID1C4 = 0x400"

definition MIRRORED :: nat where
  "MIRRORED = BLOCK_GROUP_DUP OR BLOCK_GROUP_RAID1 OR BLOCK_GROUP_RAID1C3 OR BLOCK_GROUP_RAID1C4"

definition STRIPED :: nat where
  "STRIPED = BLOCK_GROUP_RAID0 OR BLOCK_GROUP_RAID10 OR BLOCK_GROUP_RAID5 OR BLOCK_GROUP_RAID6"

definition CHUNK_ITEM_HEAD :: nat where "CHUNK_ITEM_HEAD = 48"
definition STRIPE_SIZE :: nat where "STRIPE_SIZE = 32"
definition DEV_EXTENT_SIZE :: nat where "DEV_EXTENT_SIZE = 48"

lemmas chunk_consts = KEY_SIZE_def DEV_EXTENT_KEY_def CHUNK_ITEM_KEY_def EXTENT_TREE_OBJECTID_def
  CHUNK_TREE_OBJECTID_def FIRST_CHUNK_TREE_OBJECTID_def CHUNK_ITEM_HEAD_def STRIPE_SIZE_def
  DEV_EXTENT_SIZE_def

section \<open>Chunk items\<close>

record stripe =
  devid :: nat
  stripe_offset :: nat
  dev_uuid :: bytes

record chunk =
  logical :: nat
  chunk_length :: nat
  owner :: nat
  stripe_len :: nat
  chunk_type :: nat
  io_align :: nat
  io_width :: nat
  sector_size :: nat
  sub_stripes :: nat
  stripes :: "stripe list"

definition parse_stripe :: "bytes \<Rightarrow> nat \<Rightarrow> stripe" where
  "parse_stripe data at =
     \<lparr>devid = u64le data at, stripe_offset = u64le data (at + 8), dev_uuid = slice data (at + 16) 16\<rparr>"

definition chunk_parse :: "nat \<Rightarrow> bytes \<Rightarrow> chunk result" where
  "chunk_parse lg data =
     (if length data < CHUNK_ITEM_HEAD then Inl (CorruptFs ''btrfs chunk item truncated'')
      else
        let len = u64le data 0;
            own = u64le data 8;
            slen = u64le data 16;
            ctype = u64le data 24;
            ioa = u32le data 32;
            iow = u32le data 36;
            ssz = u32le data 40;
            num_stripes = u16le data 44;
            sub = u16le data 46
        in
        if num_stripes = 0 then Inl (CorruptFs ''btrfs chunk has no stripes'')
        else if length data < CHUNK_ITEM_HEAD + num_stripes * STRIPE_SIZE
          then Inl (CorruptFs ''btrfs chunk stripe array truncated'')
        else if len = 0 then Inl (CorruptFs ''btrfs chunk has zero length'')
        else if checked_add64 lg len = None
          then Inl (CorruptFs ''btrfs chunk wraps the address space'')
        else if ctype AND STRIPED \<noteq> 0
          then Inl (UnsupportedFsFeature ''btrfs striped or parity chunk profile (RAID0/5/6/10)'')
        else Inr \<lparr>logical = lg, chunk_length = len, owner = own, stripe_len = slen,
                  chunk_type = ctype, io_align = ioa, io_width = iow, sector_size = ssz,
                  sub_stripes = sub,
                  stripes = map (\<lambda>i. parse_stripe data (CHUNK_ITEM_HEAD + i * STRIPE_SIZE))
                              [0..<num_stripes]\<rparr>)"

definition chunk_new_single :: "nat \<Rightarrow> nat \<Rightarrow> nat \<Rightarrow> nat \<Rightarrow> nat \<Rightarrow> bytes \<Rightarrow> chunk" where
  "chunk_new_single lg len ctype did phys uuid =
     \<lparr>logical = lg, chunk_length = len, owner = EXTENT_TREE_OBJECTID, stripe_len = 65536,
      chunk_type = ctype, io_align = 65536, io_width = 65536, sector_size = 4096, sub_stripes = 1,
      stripes = [\<lparr>devid = did, stripe_offset = phys, dev_uuid = uuid\<rparr>]\<rparr>"

text \<open>The emitters fill a zeroed buffer by \<open>copy_from_slice\<close>; the loop over the stripes runs over
  \<open>enumerate()\<close>.\<close>

fun emit_stripes :: "bytes \<Rightarrow> nat \<Rightarrow> stripe list \<Rightarrow> bytes" where
  "emit_stripes buf i [] = buf"
| "emit_stripes buf i (s # ss) =
     (let at = CHUNK_ITEM_HEAD + i * STRIPE_SIZE;
          buf = put buf at (le_bytes 8 (devid s));
          buf = put buf (at + 8) (le_bytes 8 (stripe_offset s));
          buf = put buf (at + 16) (dev_uuid s)
      in emit_stripes buf (Suc i) ss)"

definition chunk_emit :: "chunk \<Rightarrow> key \<times> bytes" where
  "chunk_emit c =
     (let buf = replicate (CHUNK_ITEM_HEAD + length (stripes c) * STRIPE_SIZE) 0;
          buf = put buf 0 (le_bytes 8 (chunk_length c));
          buf = put buf 8 (le_bytes 8 (owner c));
          buf = put buf 16 (le_bytes 8 (stripe_len c));
          buf = put buf 24 (le_bytes 8 (chunk_type c));
          buf = put buf 32 (le_bytes 4 (io_align c));
          buf = put buf 36 (le_bytes 4 (io_width c));
          buf = put buf 40 (le_bytes 4 (sector_size c));
          buf = put buf 44 (le_bytes 2 (length (stripes c)));
          buf = put buf 46 (le_bytes 2 (sub_stripes c))
      in (key_new FIRST_CHUNK_TREE_OBJECTID CHUNK_ITEM_KEY (logical c),
          emit_stripes buf 0 (stripes c)))"

definition is_mirrored :: "chunk \<Rightarrow> bool" where
  "is_mirrored c \<longleftrightarrow> chunk_type c AND MIRRORED \<noteq> 0"

section \<open>Device extents\<close>

record dev_extent =
  de_devid :: nat
  physical_offset :: nat
  chunk_tree :: nat
  chunk_objectid :: nat
  chunk_offset :: nat
  de_length :: nat
  chunk_tree_uuid :: bytes

definition dev_extent_parse :: "key \<Rightarrow> bytes \<Rightarrow> dev_extent result" where
  "dev_extent_parse k data =
     (if item_type k \<noteq> DEV_EXTENT_KEY then Inl (CorruptFs ''not a btrfs dev extent key'')
      else if length data < DEV_EXTENT_SIZE then Inl (CorruptFs ''btrfs dev extent item truncated'')
      else
        let ct = u64le data 0; co = u64le data 8; cf = u64le data 16; len = u64le data 24;
            uuid = slice data 32 16
        in
        if len = 0 then Inl (CorruptFs ''btrfs dev extent has zero length'')
        else if checked_add64 (offset k) len = None
          then Inl (CorruptFs ''btrfs dev extent wraps physical address space'')
        else Inr \<lparr>de_devid = objectid k, physical_offset = offset k, chunk_tree = ct,
                  chunk_objectid = co, chunk_offset = cf, de_length = len,
                  chunk_tree_uuid = uuid\<rparr>)"

definition dev_extent_new :: "nat \<Rightarrow> nat \<Rightarrow> nat \<Rightarrow> nat \<Rightarrow> bytes \<Rightarrow> dev_extent" where
  "dev_extent_new did phys coff len uuid =
     \<lparr>de_devid = did, physical_offset = phys, chunk_tree = CHUNK_TREE_OBJECTID,
      chunk_objectid = FIRST_CHUNK_TREE_OBJECTID, chunk_offset = coff, de_length = len,
      chunk_tree_uuid = uuid\<rparr>"

definition dev_extent_emit :: "dev_extent \<Rightarrow> key \<times> bytes" where
  "dev_extent_emit d =
     (let buf = replicate DEV_EXTENT_SIZE 0;
          buf = put buf 0 (le_bytes 8 (chunk_tree d));
          buf = put buf 8 (le_bytes 8 (chunk_objectid d));
          buf = put buf 16 (le_bytes 8 (chunk_offset d));
          buf = put buf 24 (le_bytes 8 (de_length d));
          buf = put buf 32 (chunk_tree_uuid d)
      in (key_new (de_devid d) DEV_EXTENT_KEY (physical_offset d), buf))"

section \<open>The chunk map\<close>

record chunk_map =
  chunks :: "chunk list"

definition chunk_map_default :: chunk_map where
  "chunk_map_default = \<lparr>chunks = []\<rparr>"

definition cm_insert :: "chunk_map \<Rightarrow> chunk \<Rightarrow> chunk_map" where
  "cm_insert self c =
     (case binary_search_by_key (logical c) logical (chunks self) of
        Inr i \<Rightarrow> self\<lparr>chunks := (chunks self)[i := c]\<rparr>
      | Inl i \<Rightarrow> self\<lparr>chunks := take i (chunks self) @ [c] @ drop i (chunks self)\<rparr>)"

text \<open>The loop of \<open>bootstrap\<close> over the bytes that are left.\<close>

function bootstrap_loop :: "bytes \<Rightarrow> nat \<Rightarrow> chunk_map \<Rightarrow> chunk_map result" where
  "bootstrap_loop a at m =
     (if at < length a then
        if at + KEY_SIZE > length a then Inl (CorruptFs ''btrfs sys_chunk_array key truncated'')
        else
          let oid = u64le a at; ity = unat (a ! (at + 8)); lg = u64le a (at + 9);
              at' = at + KEY_SIZE
          in
          if ity \<noteq> CHUNK_ITEM_KEY \<or> oid \<noteq> FIRST_CHUNK_TREE_OBJECTID
            then Inl (CorruptFs ''btrfs sys_chunk_array holds something other than chunk items'')
          else case chunk_parse lg (drop at' a) of
              Inl e \<Rightarrow> Inl e
            | Inr c \<Rightarrow> bootstrap_loop a (at' + CHUNK_ITEM_HEAD + length (stripes c) * STRIPE_SIZE)
                        (cm_insert m c)
      else Inr m)"
  by pat_completeness auto
termination
  by (relation "measure (\<lambda>(a, at, m). length a - at)") (auto simp: chunk_consts)

definition bootstrap :: "bytes \<Rightarrow> chunk_map result" where
  "bootstrap a =
     (case bootstrap_loop a 0 chunk_map_default of
        Inl e \<Rightarrow> Inl e
      | Inr m \<Rightarrow> if chunks m = [] then Inl (CorruptFs ''btrfs sys_chunk_array is empty'') else Inr m)"

definition cm_find :: "chunk_map \<Rightarrow> nat \<Rightarrow> chunk result" where
  "cm_find self lg =
     (case binary_search_by_key lg logical (chunks self) of
        Inr i \<Rightarrow> Inr (chunks self ! i)
      | Inl i \<Rightarrow> if i = 0 then Inl (CorruptFs ''btrfs logical address below the first chunk'')
                else Inr (chunks self ! (i - 1)))"

definition cm_map :: "chunk_map \<Rightarrow> nat \<Rightarrow> (nat \<times> nat) result" where
  "cm_map self lg =
     (case cm_find self lg of
        Inl e \<Rightarrow> Inl e
      | Inr c \<Rightarrow>
          let within = lg - logical c in
          if chunk_length c \<le> within
            then Inl (CorruptFs ''btrfs logical address falls in an unmapped gap'')
          else case stripes c of
              [] \<Rightarrow> Inl Panic
            | s # _ \<Rightarrow>
                (case checked_add64 (stripe_offset s) within of
                   None \<Rightarrow> Inl (CorruptFs ''btrfs physical address overflows'')
                 | Some physical \<Rightarrow> Inr (physical, chunk_length c - within)))"

fun add_within :: "stripe list \<Rightarrow> nat \<Rightarrow> nat list result" where
  "add_within [] within = Inr []"
| "add_within (s # ss) within =
     (case checked_add64 (stripe_offset s) within of
        None \<Rightarrow> Inl (CorruptFs ''btrfs physical address overflows'')
      | Some phys \<Rightarrow> (case add_within ss within of Inl e \<Rightarrow> Inl e | Inr ps \<Rightarrow> Inr (phys # ps)))"

definition map_all_stripes :: "chunk_map \<Rightarrow> nat \<Rightarrow> nat list result" where
  "map_all_stripes self lg =
     (case cm_find self lg of
        Inl e \<Rightarrow> Inl e
      | Inr c \<Rightarrow>
          let within = lg - logical c in
          if chunk_length c \<le> within
            then Inl (CorruptFs ''btrfs logical address falls in an unmapped gap'')
          else add_within (stripes c) within)"

definition check_single_device :: "chunk_map \<Rightarrow> nat \<Rightarrow> unit result" where
  "check_single_device self did =
     (if \<exists>c \<in> set (chunks self). \<exists>s \<in> set (stripes c). devid s \<noteq> did
      then Inl (UnsupportedFsFeature ''btrfs chunk refers to a device that is not this one'')
      else Inr ())"

section \<open>Codecs\<close>

text \<open>The contract of an item codec: a well-formed value is recovered from its key and from any
  byte string that starts with its payload. Distinct values then have distinct encodings.\<close>

locale item_codec =
  fixes wf :: "'x \<Rightarrow> bool" and emit :: "'x \<Rightarrow> key \<times> bytes" and parse :: "key \<Rightarrow> bytes \<Rightarrow> 'x result"
  assumes parse_emit: "wf x \<Longrightarrow> parse (fst (emit x)) (snd (emit x) @ rest) = Inr x"
begin

lemma emit_inject: "wf x \<Longrightarrow> wf y \<Longrightarrow> emit x = emit y \<Longrightarrow> x = y"
  using parse_emit [of x "[]"] parse_emit [of y "[]"] by simp

lemma emit_prefix_free:
  assumes "wf x" "wf y" "fst (emit x) = fst (emit y)" "snd (emit x) @ r = snd (emit y) @ r'"
  shows "x = y \<and> r = r'"
proof -
  have "(Inr x :: 'x result) = Inr y"
    using parse_emit [OF assms(1), of r] parse_emit [OF assms(2), of r'] assms(3,4) by argo
  then show ?thesis using assms(4) by simp
qed

end

definition stripe_wf :: "stripe \<Rightarrow> bool" where
  "stripe_wf s \<longleftrightarrow> devid s < 2 ^ 64 \<and> stripe_offset s < 2 ^ 64 \<and> length (dev_uuid s) = 16"

definition chunk_wf :: "chunk \<Rightarrow> bool" where
  "chunk_wf c \<longleftrightarrow> 0 < chunk_length c \<and> logical c + chunk_length c < 2 ^ 64
     \<and> owner c < 2 ^ 64 \<and> stripe_len c < 2 ^ 64 \<and> chunk_type c < 2 ^ 64
     \<and> io_align c < 2 ^ 32 \<and> io_width c < 2 ^ 32 \<and> sector_size c < 2 ^ 32 \<and> sub_stripes c < 2 ^ 16
     \<and> stripes c \<noteq> [] \<and> length (stripes c) < 2 ^ 16 \<and> (\<forall>s \<in> set (stripes c). stripe_wf s)
     \<and> chunk_type c AND STRIPED = 0"

definition dev_extent_wf :: "dev_extent \<Rightarrow> bool" where
  "dev_extent_wf d \<longleftrightarrow> 0 < de_length d \<and> physical_offset d + de_length d < 2 ^ 64
     \<and> chunk_tree d < 2 ^ 64 \<and> chunk_objectid d < 2 ^ 64 \<and> chunk_offset d < 2 ^ 64
     \<and> length (chunk_tree_uuid d) = 16"

definition stripe_bytes :: "stripe \<Rightarrow> bytes" where
  "stripe_bytes s = le_bytes 8 (devid s) @ le_bytes 8 (stripe_offset s) @ dev_uuid s"

definition chunk_head :: "chunk \<Rightarrow> bytes" where
  "chunk_head c = le_bytes 8 (chunk_length c) @ le_bytes 8 (owner c) @ le_bytes 8 (stripe_len c)
     @ le_bytes 8 (chunk_type c) @ le_bytes 4 (io_align c) @ le_bytes 4 (io_width c)
     @ le_bytes 4 (sector_size c) @ le_bytes 2 (length (stripes c)) @ le_bytes 2 (sub_stripes c)"

lemma length_stripe_bytes: "stripe_wf s \<Longrightarrow> length (stripe_bytes s) = 32"
  by (simp add: stripe_bytes_def stripe_wf_def)

lemma length_chunk_head [simp]: "length (chunk_head c) = 48"
  by (simp add: chunk_head_def)

lemma length_stripes_concat:
  "\<forall>s \<in> set ss. stripe_wf s \<Longrightarrow> length (concat (map stripe_bytes ss)) = 32 * length ss"
  by (induction ss) (simp_all add: length_stripe_bytes)

lemma emit_stripes_concat:
  "\<forall>s \<in> set ss. stripe_wf s \<Longrightarrow> length pre = 48 + i * 32 \<Longrightarrow>
   emit_stripes (pre @ replicate (length ss * 32) 0) i ss = pre @ concat (map stripe_bytes ss)"
proof (induction ss arbitrary: pre i)
  case (Cons s ss)
  let ?p = "pre @ stripe_bytes s"
  have "emit_stripes (pre @ replicate (length (s # ss) * 32) 0) i (s # ss)
      = emit_stripes (?p @ replicate (length ss * 32) 0) (Suc i) ss"
    using Cons.prems
    by (simp add: chunk_consts put_zeros stripe_bytes_def stripe_wf_def del: append_assoc)
      (simp add: algebra_simps)
  also have "\<dots> = ?p @ concat (map stripe_bytes ss)"
    using Cons.prems by (intro Cons.IH) (simp_all add: length_stripe_bytes)
  finally show ?case by simp
qed simp

lemma chunk_emit_bytes:
  assumes "chunk_wf c"
  shows "chunk_emit c = (key_new FIRST_CHUNK_TREE_OBJECTID CHUNK_ITEM_KEY (logical c),
           chunk_head c @ concat (map stripe_bytes (stripes c)))"
proof -
  have "chunk_head c @ replicate (length (stripes c) * 32) 0 =
      put (put (put (put (put (put (put (put (put (replicate (48 + length (stripes c) * 32) 0)
        0 (le_bytes 8 (chunk_length c))) 8 (le_bytes 8 (owner c))) 16 (le_bytes 8 (stripe_len c)))
        24 (le_bytes 8 (chunk_type c))) 32 (le_bytes 4 (io_align c))) 36 (le_bytes 4 (io_width c)))
        40 (le_bytes 4 (sector_size c))) 44 (le_bytes 2 (length (stripes c))))
        46 (le_bytes 2 (sub_stripes c))"
    by (simp add: put_zeros_first put_zeros chunk_head_def
        del: append_assoc replicate_Suc add_2_eq_Suc add_2_eq_Suc')
  then show ?thesis
    using emit_stripes_concat [of "stripes c" "chunk_head c" 0] assms
    by (simp add: chunk_emit_def Let_def chunk_consts chunk_wf_def)
qed

lemma slice_concat_stripes:
  "\<forall>s \<in> set ss. stripe_wf s \<Longrightarrow> i < length ss \<Longrightarrow>
   slice (concat (map stripe_bytes ss) @ rest) (i * 32) 32 = stripe_bytes (ss ! i)"
proof (induction ss arbitrary: i)
  case (Cons s ss)
  then show ?case
    by (cases i) (simp_all add: slice_append_head slice_append_right length_stripe_bytes)
qed simp

lemma parse_stripe_bytes:
  assumes wf: "stripe_wf s" and sl: "slice data at 32 = stripe_bytes s"
  shows "parse_stripe data at = s"
proof -
  have "slice data at 8 = slice (stripe_bytes s) 0 8" "slice data (at + 8) 8 = slice (stripe_bytes s) 8 8"
    "slice data (at + 16) 16 = slice (stripe_bytes s) 16 16"
    unfolding sl [symmetric] by (simp_all add: slice_slice)
  then have "slice data at 8 = le_bytes 8 (devid s)" "slice data (at + 8) 8 = le_bytes 8 (stripe_offset s)"
    "slice data (at + 16) 16 = dev_uuid s"
    using wf by (simp_all add: stripe_bytes_def stripe_wf_def bytes_simps)
  then show ?thesis using wf by (simp add: parse_stripe_def u64le_def stripe_wf_def)
qed

lemma chunk_parse_emit:
  assumes wf: "chunk_wf c"
  shows "chunk_parse (logical c) (snd (chunk_emit c) @ rest) = Inr c"
proof -
  let ?S = "concat (map stripe_bytes (stripes c))"
  let ?d = "chunk_head c @ ?S @ rest"
  have ss: "\<forall>s \<in> set (stripes c). stripe_wf s" using wf by (simp add: chunk_wf_def)
  have len: "length ?S = 32 * length (stripes c)" by (rule length_stripes_concat [OF ss])
  have f: "u64le ?d 0 = chunk_length c" "u64le ?d 8 = owner c" "u64le ?d 16 = stripe_len c"
    "u64le ?d 24 = chunk_type c" "u32le ?d 32 = io_align c" "u32le ?d 36 = io_width c"
    "u32le ?d 40 = sector_size c" "u16le ?d 44 = length (stripes c)" "u16le ?d 46 = sub_stripes c"
    using wf by (simp_all add: u64le_def u32le_def u16le_def chunk_head_def bytes_simps chunk_wf_def)
  have "map (\<lambda>i. parse_stripe ?d (48 + i * 32)) [0..<length (stripes c)] = stripes c"
  proof (rule nth_equalityI)
    fix i assume "i < length (map (\<lambda>i. parse_stripe ?d (48 + i * 32)) [0..<length (stripes c)])"
    then have i: "i < length (stripes c)" by simp
    then have "slice ?d (48 + i * 32) 32 = stripe_bytes (stripes c ! i)"
      using slice_concat_stripes [OF ss i] by (simp add: slice_append_right)
    then show "map (\<lambda>i. parse_stripe ?d (48 + i * 32)) [0..<length (stripes c)] ! i = stripes c ! i"
      using parse_stripe_bytes ss i by simp
  qed simp
  then show ?thesis
    using wf f len
    by (simp add: chunk_emit_bytes chunk_parse_def Let_def chunk_consts checked_add64_def chunk_wf_def)
qed

lemma dev_extent_parse_emit:
  assumes "dev_extent_wf d"
  shows "dev_extent_parse (fst (dev_extent_emit d)) (snd (dev_extent_emit d) @ rest) = Inr d"
proof -
  have "snd (dev_extent_emit d) = le_bytes 8 (chunk_tree d) @ le_bytes 8 (chunk_objectid d)
      @ le_bytes 8 (chunk_offset d) @ le_bytes 8 (de_length d) @ chunk_tree_uuid d"
    using assms
    by (simp add: dev_extent_emit_def chunk_consts Let_def put_zeros_first put_zeros dev_extent_wf_def del: append_assoc)
  then show ?thesis
    using assms
    by (simp add: dev_extent_parse_def dev_extent_emit_def Let_def key_new_def chunk_consts
        u64le_def bytes_simps dev_extent_wf_def checked_add64_def)
qed

interpretation chunk_item: item_codec chunk_wf chunk_emit "\<lambda>k. chunk_parse (offset k)"
proof unfold_locales
  fix c rest assume wf: "chunk_wf c"
  then have "offset (fst (chunk_emit c)) = logical c" by (simp add: chunk_emit_bytes key_new_def)
  then show "chunk_parse (offset (fst (chunk_emit c))) (snd (chunk_emit c) @ rest) = Inr c"
    using chunk_parse_emit [OF wf] by simp
qed

interpretation dev_extent_item: item_codec dev_extent_wf dev_extent_emit dev_extent_parse
  by unfold_locales (rule dev_extent_parse_emit)

section \<open>The map as a finite map\<close>

definition cm_ok :: "chunk_map \<Rightarrow> bool" where
  "cm_ok m = sorted_wrt (\<lambda>a b. logical a < logical b) (chunks m)"

definition cm_lookup :: "chunk_map \<Rightarrow> nat \<rightharpoonup> chunk" where
  "cm_lookup m = map_of (map (\<lambda>c. (logical c, c)) (chunks m))"

text \<open>No chunk starts inside another one: the well-formedness of a chunk tree the reader relies on.\<close>

definition cm_disjoint :: "chunk_map \<Rightarrow> bool" where
  "cm_disjoint m = sorted_wrt (\<lambda>a b. logical a + chunk_length a \<le> logical b) (chunks m)"

text \<open>\<open>insert\<close> replaces the chunk with the same start or adds one, keeps the list sorted, and is the
  update of the finite map.\<close>

lemma cm_insert_chunks:
  assumes ok: "cm_ok m"
  obtains A B where "chunks (cm_insert m c) = A @ c # B" "\<forall>d \<in> set A. logical d < logical c"
    "\<forall>d \<in> set B. logical c < logical d"
    "chunks m = A @ B \<or> (\<exists>d. logical d = logical c \<and> chunks m = A @ d # B)"
proof -
  obtain A B where AB: "chunks m = A @ B" "\<forall>d \<in> set A. logical d < logical c" "\<forall>d \<in> set B. logical c \<le> logical d"
    "binary_search_by_key (logical c) logical (chunks m) =
       (if B \<noteq> [] \<and> logical (hd B) = logical c then Inr (length A) else Inl (length A))"
    by (rule binary_search_split [OF ok [unfolded cm_ok_def]])
  show ?thesis
  proof (cases "B \<noteq> [] \<and> logical (hd B) = logical c")
    case True
    then obtain d B' where B: "B = d # B'" "logical d = logical c" by (cases B) auto
    have "\<forall>x \<in> set B'. logical c < logical x" using ok AB(1) B by (auto simp: cm_ok_def sorted_wrt_append)
    moreover have "chunks (cm_insert m c) = A @ c # B'"
      using AB(1) B unfolding cm_insert_def AB(4) by simp
    ultimately show ?thesis using AB B by (intro that [of A B']) auto
  next
    case False
    then have "\<forall>x \<in> set B. logical c < logical x"
      using ok AB(1,3) by (cases B) (auto simp: cm_ok_def sorted_wrt_append order.strict_iff_order)
    moreover have "chunks (cm_insert m c) = A @ c # B"
      using AB(1) False unfolding cm_insert_def AB(4) by (simp only: if_False sum.case chunk_map.simps) simp
    ultimately show ?thesis using AB by (intro that [of A B]) auto
  qed
qed

lemma cm_insert_ok: "cm_ok m \<Longrightarrow> cm_ok (cm_insert m c)"
proof -
  assume ok: "cm_ok m"
  obtain A B where "chunks (cm_insert m c) = A @ c # B" "\<forall>d \<in> set A. logical d < logical c"
    "\<forall>d \<in> set B. logical c < logical d"
    "chunks m = A @ B \<or> (\<exists>d. logical d = logical c \<and> chunks m = A @ d # B)"
    by (rule cm_insert_chunks [OF ok])
  then show ?thesis using ok by (auto simp: cm_ok_def sorted_wrt_append)
qed

lemma cm_insert_lookup:
  assumes ok: "cm_ok m"
  shows "cm_lookup (cm_insert m c) = (cm_lookup m)(logical c \<mapsto> c)"
proof -
  obtain A B where AB: "chunks (cm_insert m c) = A @ c # B" "\<forall>d \<in> set A. logical d < logical c"
    "\<forall>d \<in> set B. logical c < logical d"
    "chunks m = A @ B \<or> (\<exists>d. logical d = logical c \<and> chunks m = A @ d # B)"
    by (rule cm_insert_chunks [OF ok])
  have "map_of (map (\<lambda>c. (logical c, c)) A) (logical c) = None"
    using AB(2) by (auto simp: map_of_eq_None_iff)
  then show ?thesis using AB(1,4) by (auto simp: cm_lookup_def map_add_def fun_eq_iff split: option.splits)
qed

lemma cm_find_iff:
  assumes ok: "cm_ok m"
  shows "cm_find m lg = Inr c \<longleftrightarrow> c \<in> set (chunks m) \<and> logical c \<le> lg
           \<and> (\<forall>d \<in> set (chunks m). logical d \<le> lg \<longrightarrow> logical d \<le> logical c)"
proof -
  obtain A B where AB: "chunks m = A @ B" "\<forall>d \<in> set A. logical d < lg" "\<forall>d \<in> set B. lg \<le> logical d"
    "binary_search_by_key lg logical (chunks m) =
       (if B \<noteq> [] \<and> logical (hd B) = lg then Inr (length A) else Inl (length A))"
    by (rule binary_search_split [OF ok [unfolded cm_ok_def]])
  have inj: "a = b" if "a \<in> set (chunks m)" "b \<in> set (chunks m)" "logical a = logical b" for a b
    using that ok unfolding cm_ok_def
    by (metis in_set_conv_nth linorder_neqE_nat order.irrefl sorted_wrt_nth_less)
  have B: "\<forall>d \<in> set B. lg < logical d" if "\<not> (B \<noteq> [] \<and> logical (hd B) = lg)"
    using that ok AB(1,3) by (cases B) (auto simp: cm_ok_def sorted_wrt_append order.strict_iff_order)
  consider (hit) "B \<noteq> [] \<and> logical (hd B) = lg"
    | (prev) A' a where "A = A' @ [a]" "\<not> (B \<noteq> [] \<and> logical (hd B) = lg)"
    | (none) "A = []" "\<not> (B \<noteq> [] \<and> logical (hd B) = lg)"
    by (cases A rule: rev_cases) blast+
  then show ?thesis
  proof cases
    case hit
    then obtain b where b: "b \<in> set (chunks m)" "logical b = lg" "cm_find m lg = Inr b"
      using AB(1) unfolding cm_find_def AB(4) by (cases B) auto
    then show ?thesis using inj by (metis order.refl sum.inject(2) order.antisym)
  next
    case prev
    have b: "cm_find m lg = Inr a" "a \<in> set (chunks m)" "logical a \<le> lg"
      using AB(1,2) prev unfolding cm_find_def AB(4) by (auto simp: nth_append)
    have "\<forall>d \<in> set (chunks m). logical d \<le> lg \<longrightarrow> logical d \<le> logical a"
      using ok AB(1) prev(1) B [OF prev(2)] by (auto simp: cm_ok_def sorted_wrt_append)
    then show ?thesis using b inj by (metis sum.inject(2) order.antisym)
  next
    case none
    then have "cm_find m lg = Inl (CorruptFs ''btrfs logical address below the first chunk'')"
      unfolding cm_find_def AB(4) by auto
    then show ?thesis using B [OF none(2)] AB(1) none(1) by auto
  qed
qed

text \<open>Translation is linear on the run \<open>map\<close> reports: the \<open>k\<close>-th byte of the run is \<open>k\<close> bytes
  further on the device, and the run that is left there is \<open>k\<close> bytes shorter.\<close>

lemma disjoint_ok:
  assumes "cm_disjoint m" "\<forall>c \<in> set (chunks m). 0 < chunk_length c"
  shows "cm_ok m"
  unfolding cm_ok_def
  by (rule sorted_wrt_mono_rel [OF _ assms(1) [unfolded cm_disjoint_def]]) (use assms(2) in force)

lemma find_in_run:
  assumes dj: "cm_disjoint m" and pos: "\<forall>c \<in> set (chunks m). 0 < chunk_length c"
    and f: "cm_find m lg = Inr c" and k: "lg - logical c + k < chunk_length c"
  shows "cm_find m (lg + k) = Inr c"
proof -
  have ok: "cm_ok m" by (rule disjoint_ok [OF dj pos])
  have c: "c \<in> set (chunks m)" "logical c \<le> lg" using f cm_find_iff [OF ok] by auto
  obtain X Y where XY: "chunks m = X @ c # Y" using c(1) by (meson split_list)
  have "logical d \<le> logical c" if "d \<in> set (chunks m)" "logical d \<le> lg + k" for d
  proof (cases "d \<in> set Y")
    case True
    then have "logical c + chunk_length c \<le> logical d" using dj XY by (auto simp: cm_disjoint_def sorted_wrt_append)
    then show ?thesis using that k c by linarith
  next
    case False
    then have "d = c \<or> logical d + chunk_length d \<le> logical c"
      using that(1) dj XY by (auto simp: cm_disjoint_def sorted_wrt_append)
    then show ?thesis by auto
  qed
  then show ?thesis using cm_find_iff [OF ok] c by auto
qed

lemma cm_map_run:
  assumes dj: "cm_disjoint m" and pos: "\<forall>c \<in> set (chunks m). 0 < chunk_length c"
    and f: "cm_map m lg = Inr (p, run)" and k: "k < run" "p + k < 2 ^ 64"
  shows "cm_map m (lg + k) = Inr (p + k, run - k)"
proof -
  obtain c s ss where c: "cm_find m lg = Inr c" "stripes c = s # ss"
    "p = stripe_offset s + (lg - logical c)" "lg - logical c < chunk_length c" "run = chunk_length c - (lg - logical c)"
    using f by (auto simp: cm_map_def Let_def checked_add64_Some split: sum.splits if_splits list.splits option.splits)
  have "logical c \<le> lg" using c(1) cm_find_iff [OF disjoint_ok [OF dj pos]] by blast
  then have "lg + k - logical c = lg - logical c + k" by simp
  moreover have "cm_find m (lg + k) = Inr c" using find_in_run [OF dj pos c(1)] k c(4,5) by simp
  moreover have "\<not> chunk_length c \<le> lg - logical c + k" using k c(5) by simp
  ultimately show ?thesis using c k by (simp add: cm_map_def Let_def checked_add64_def)
qed

text \<open>\<open>map\<close> answers with the first of the copies \<open>map_all_stripes\<close> lists.\<close>

lemma add_within_map:
  "add_within ss w = Inr ps \<Longrightarrow>
   ps = map (\<lambda>s. stripe_offset s + w) ss \<and> (\<forall>s \<in> set ss. stripe_offset s + w < 2 ^ 64)"
  by (induction ss arbitrary: ps) (auto simp: checked_add64_Some split: option.splits sum.splits)

lemma map_first_stripe:
  assumes "map_all_stripes m lg = Inr ps" "ps \<noteq> []"
  shows "\<exists>run. cm_map m lg = Inr (hd ps, run)"
  using assms
  by (auto simp: map_all_stripes_def cm_map_def Let_def checked_add64_Some checked_add64_None
      split: sum.splits if_splits list.splits option.splits dest!: add_within_map)

section \<open>The bootstrap array\<close>

definition key_bytes :: "key \<Rightarrow> bytes" where
  "key_bytes k = le_bytes 8 (objectid k) @ [word_of_nat (item_type k)] @ le_bytes 8 (offset k)"

definition sys_entry :: "chunk \<Rightarrow> bytes" where
  "sys_entry c = key_bytes (fst (chunk_emit c)) @ snd (chunk_emit c)"

lemma bootstrap_entry:
  assumes wf: "chunk_wf c" and at: "length pre = at"
  shows "bootstrap_loop (pre @ sys_entry c @ rest) at m
       = bootstrap_loop (pre @ sys_entry c @ rest) (at + length (sys_entry c)) (cm_insert m c)"
proof -
  let ?a = "pre @ sys_entry c @ rest"
  have e: "sys_entry c = (le_bytes 8 256 @ [228] @ le_bytes 8 (logical c)) @ snd (chunk_emit c)"
    using wf by (simp add: sys_entry_def key_bytes_def chunk_emit_bytes key_new_def chunk_consts)
  have ss: "\<forall>s \<in> set (stripes c). stripe_wf s" using wf by (simp add: chunk_wf_def)
  have len: "length (snd (chunk_emit c)) = 48 + length (stripes c) * 32"
    using wf length_stripes_concat [OF ss] by (simp add: chunk_emit_bytes)
  have "drop (at + 17) ?a = snd (chunk_emit c) @ rest" using at by (simp add: e)
  then have p: "chunk_parse (logical c) (drop (at + 17) ?a) = Inr c" using chunk_parse_emit [OF wf] by simp
  have r: "u64le ?a at = 256" "?a ! (at + 8) = 228" "u64le ?a (at + 9) = logical c"
    using at wf by (simp_all add: e u64le_def bytes_simps nth_append chunk_wf_def)
  have l: "at + 17 \<le> length ?a" "at < length ?a" "length (sys_entry c) = 17 + 48 + length (stripes c) * 32"
    using at by (simp_all add: e len)
  show ?thesis
    using r p l by (subst bootstrap_loop.simps) (simp add: chunk_consts Let_def add.assoc)
qed

lemma bootstrap_loop_entries:
  "\<forall>c \<in> set cs. chunk_wf c \<Longrightarrow> length pre = at \<Longrightarrow>
   bootstrap_loop (pre @ concat (map sys_entry cs)) at m = Inr (foldl cm_insert m cs)"
proof (induction cs arbitrary: pre at m)
  case Nil
  then show ?case by (subst bootstrap_loop.simps) simp
next
  case (Cons c cs)
  have "bootstrap_loop (pre @ concat (map sys_entry (c # cs))) at m
      = bootstrap_loop ((pre @ sys_entry c) @ concat (map sys_entry cs)) (at + length (sys_entry c)) (cm_insert m c)"
    using bootstrap_entry [of c pre at "concat (map sys_entry cs)" m] Cons.prems by simp
  also have "\<dots> = Inr (foldl cm_insert (cm_insert m c) cs)"
    using Cons.prems by (intro Cons.IH) simp_all
  finally show ?case by simp
qed

lemma cm_insert_nonempty: "chunks (cm_insert m c) \<noteq> []"
  by (auto simp: cm_insert_def binary_search_by_key_def Let_def split: if_splits)

lemma foldl_insert_nonempty: "cs \<noteq> [] \<Longrightarrow> chunks (foldl cm_insert m cs) \<noteq> []"
  by (cases cs rule: rev_cases) (simp_all add: cm_insert_nonempty)

lemma foldl_insert_lookup:
  "cm_ok m \<Longrightarrow> cm_ok (foldl cm_insert m cs) \<and>
   cm_lookup (foldl cm_insert m cs) = cm_lookup m ++ map_of (rev (map (\<lambda>c. (logical c, c)) cs))"
proof (induction cs arbitrary: m)
  case (Cons c cs)
  then show ?case by (simp add: cm_insert_ok cm_insert_lookup) (simp add: map_add_def fun_eq_iff split: option.split)
qed simp

section \<open>Properties\<close>

text \<open>Chunk items round trip. \<open>Chunk::parse\<close> applied to the key and the payload \<open>Chunk::emit\<close>
  produced for a well-formed chunk gives the chunk back, whatever bytes follow the payload; the
  encoding is injective.\<close>

theorem chunk_roundtrip:
  assumes "chunk_wf c" "chunk_wf d"
  shows "chunk_parse (offset (fst (chunk_emit c))) (snd (chunk_emit c) @ rest) = Inr c
     \<and> length (snd (chunk_emit c)) = CHUNK_ITEM_HEAD + length (stripes c) * STRIPE_SIZE
     \<and> (chunk_emit c = chunk_emit d \<longrightarrow> c = d)"
proof -
  have "length (snd (chunk_emit c)) = 48 + length (stripes c) * 32"
    using assms(1) length_stripes_concat [of "stripes c"] by (simp add: chunk_emit_bytes chunk_wf_def)
  then show ?thesis
    using chunk_item.parse_emit [OF assms(1)] chunk_item.emit_inject [OF assms] by (simp add: chunk_consts)
qed

definition dup_chunk :: chunk where
  "dup_chunk = \<lparr>logical = 30408704, chunk_length = 53673984, owner = 2, stripe_len = 65536,
     chunk_type = 0x24, io_align = 65536, io_width = 65536, sector_size = 4096, sub_stripes = 1,
     stripes = [\<lparr>devid = 1, stripe_offset = 38797312, dev_uuid = replicate 16 1\<rparr>,
                \<lparr>devid = 1, stripe_offset = 92471296, dev_uuid = replicate 16 2\<rparr>]\<rparr>"

definition data_chunk :: chunk where
  "data_chunk = chunk_new_single 13631488 8388608 BLOCK_GROUP_DATA 1 13631488 (replicate 16 7)"

lemmas chunk_eval = chunk_wf_def stripe_wf_def chunk_consts BLOCK_GROUP_DATA_def STRIPED_def
  BLOCK_GROUP_RAID0_def BLOCK_GROUP_RAID5_def BLOCK_GROUP_RAID6_def BLOCK_GROUP_RAID10_def

lemma example_chunks_wf: "chunk_wf dup_chunk" "chunk_wf data_chunk"
  by (simp_all add: chunk_eval dup_chunk_def data_chunk_def chunk_new_single_def)

theorem chunk_roundtrip_witness:
  "chunk_parse 30408704 (snd (chunk_emit dup_chunk)) = Inr dup_chunk
   \<and> length (snd (chunk_emit dup_chunk)) = 112"
proof -
  have "offset (fst (chunk_emit dup_chunk)) = 30408704"
    unfolding chunk_emit_bytes [OF example_chunks_wf(1)] by (simp add: key_new_def dup_chunk_def)
  moreover have "length (stripes dup_chunk) = 2" by (simp add: dup_chunk_def)
  ultimately show ?thesis
    using chunk_roundtrip [OF example_chunks_wf, of "[]"] by (simp add: chunk_consts)
qed

text \<open>Device extents round trip, on the key and the 48 byte payload.\<close>

theorem dev_extent_roundtrip:
  assumes "dev_extent_wf d" "dev_extent_wf e"
  shows "dev_extent_parse (fst (dev_extent_emit d)) (snd (dev_extent_emit d) @ rest) = Inr d
     \<and> (dev_extent_emit d = dev_extent_emit e \<longrightarrow> d = e)"
  using dev_extent_item.parse_emit [OF assms(1)] dev_extent_item.emit_inject [OF assms] by blast

theorem dev_extent_roundtrip_witness:
  "dev_extent_parse (key_new 1 204 13631488) (snd (dev_extent_emit (dev_extent_new 1 13631488 13631488 8388608 (replicate 16 3))))
   = Inr (dev_extent_new 1 13631488 13631488 8388608 (replicate 16 3))"
proof -
  let ?d = "dev_extent_new 1 13631488 13631488 8388608 (replicate 16 3)"
  have "dev_extent_wf ?d" by (simp add: dev_extent_wf_def dev_extent_new_def chunk_consts)
  moreover have "fst (dev_extent_emit ?d) = key_new 1 204 13631488"
    by (simp add: dev_extent_emit_def Let_def dev_extent_new_def chunk_consts)
  ultimately show ?thesis using dev_extent_roundtrip [of ?d ?d "[]"] by simp
qed

text \<open>C28: the chunk map is a finite map keyed by the logical start. \<open>insert\<close> keeps the list strictly
  sorted and is the map update, so a chunk already known from the superblock is replaced and no other
  chunk is lost.\<close>

theorem chunk_map_insert_refines:
  assumes "cm_ok m"
  shows "cm_ok (cm_insert m c) \<and> cm_lookup (cm_insert m c) = (cm_lookup m)(logical c \<mapsto> c)"
  using assms by (simp add: cm_insert_ok cm_insert_lookup)

theorem chunk_map_insert_refines_witness:
  "cm_lookup (cm_insert (cm_insert chunk_map_default dup_chunk) data_chunk) 30408704 = Some dup_chunk"
proof -
  have "cm_ok chunk_map_default" by (simp add: cm_ok_def chunk_map_default_def)
  then have "cm_ok (cm_insert chunk_map_default dup_chunk)"
    "cm_lookup (cm_insert chunk_map_default dup_chunk) = (cm_lookup chunk_map_default)(logical dup_chunk \<mapsto> dup_chunk)"
    using chunk_map_insert_refines by blast+
  then show ?thesis
    using chunk_map_insert_refines [of "cm_insert chunk_map_default dup_chunk" data_chunk]
    by (simp add: dup_chunk_def data_chunk_def chunk_new_single_def)
qed

text \<open>C29: translation is linear and consistent. On a map of disjoint non-empty chunks, if \<open>map\<close> sends
  \<open>lg\<close> to \<open>p\<close> with a run of \<open>run\<close> bytes, then every address of the run goes to the matching device
  byte, with the rest of the run, and the first copy \<open>map_all_stripes\<close> lists there is the same byte:
  one device read of the whole run reads what address-by-address translation would.\<close>

theorem chunk_map_run_linear:
  assumes "cm_disjoint m" "\<forall>c \<in> set (chunks m). 0 < chunk_length c"
    and "cm_map m lg = Inr (p, run)" "k < run" "p + k < 2 ^ 64"
  shows "cm_map m (lg + k) = Inr (p + k, run - k)
     \<and> (\<forall>ps. map_all_stripes m (lg + k) = Inr ps \<longrightarrow> ps \<noteq> [] \<longrightarrow> hd ps = p + k)"
  using cm_map_run [OF assms] map_first_stripe [of m "lg + k"] by fastforce

theorem chunk_map_run_linear_witness:
  "cm_map \<lparr>chunks = [data_chunk, dup_chunk]\<rparr> (30408704 + 4096) = Inr (38797312 + 4096, 53673984 - 4096)"
proof -
  let ?m = "\<lparr>chunks = [data_chunk, dup_chunk]\<rparr>"
  have d: "cm_disjoint ?m" and p: "\<forall>c \<in> set (chunks ?m). 0 < chunk_length c"
    by (simp_all add: cm_disjoint_def data_chunk_def dup_chunk_def chunk_new_single_def)
  have m: "cm_map ?m 30408704 = Inr (38797312, 53673984)"
    by (simp add: cm_map_def cm_find_def binary_search_by_key_def partition_point_def Let_def
        data_chunk_def dup_chunk_def chunk_new_single_def checked_add64_def)
  show ?thesis using chunk_map_run_linear [OF d p m, of 4096] by simp
qed

text \<open>C30: the bootstrap array round trips. \<open>ChunkMap::bootstrap\<close> on the concatenation of the
  17 byte key and the payload of any non-empty list of well-formed chunks succeeds, gives a sorted
  map, and the map holds exactly those chunks, the last one winning among equal starts.\<close>

theorem bootstrap_roundtrip:
  assumes "\<forall>c \<in> set cs. chunk_wf c" "cs \<noteq> []"
  shows "\<exists>m. bootstrap (concat (map sys_entry cs)) = Inr m \<and> cm_ok m
     \<and> cm_lookup m = map_of (rev (map (\<lambda>c. (logical c, c)) cs))"
proof -
  have "bootstrap_loop (concat (map sys_entry cs)) 0 chunk_map_default = Inr (foldl cm_insert chunk_map_default cs)"
    using bootstrap_loop_entries [OF assms(1), of "[]" 0] by simp
  moreover have "cm_ok chunk_map_default" "cm_lookup chunk_map_default = Map.empty"
    by (simp_all add: cm_ok_def chunk_map_default_def cm_lookup_def)
  ultimately show ?thesis
    using foldl_insert_lookup [of chunk_map_default cs] foldl_insert_nonempty [OF assms(2)]
    by (simp add: bootstrap_def)
qed

theorem bootstrap_roundtrip_witness:
  "\<exists>m. bootstrap (concat (map sys_entry [dup_chunk, data_chunk])) = Inr m \<and> cm_lookup m 13631488 = Some data_chunk"
proof -
  have "\<forall>c \<in> set [dup_chunk, data_chunk]. chunk_wf c" using example_chunks_wf by simp
  from bootstrap_roundtrip [OF this] obtain m where
    "bootstrap (concat (map sys_entry [dup_chunk, data_chunk])) = Inr m"
    "cm_lookup m = map_of (rev (map (\<lambda>c. (logical c, c)) [dup_chunk, data_chunk]))" by auto
  then show ?thesis by (intro exI [of _ m]) (simp add: data_chunk_def dup_chunk_def chunk_new_single_def)
qed

end
