(* ===== verification/Sb_Exclude.thy ===== *)
theory Sb_Exclude
  imports Chunk_Map Interval_Set
begin

text \<open>
  Superblock mirror exclusion (\<open>core/src/fs/btrfs/write/exclude.rs\<close>): the logical ranges the
  allocator must never hand out because they lie on a superblock copy or in the first 64 KiB.
  \<open>merge_ranges\<close> is shown to produce the normal form of \<open>Interval_Set\<close> without changing the
  covered addresses; \<open>compute_sb_exclusions\<close> covers the protected bytes of every mirror that starts inside a
  stripe, as long as no address wraps, and nothing outside the chunks.
\<close>

definition SB_MIRROR_0 :: nat where "SB_MIRROR_0 = 65536"
definition SB_MIRROR_1 :: nat where "SB_MIRROR_1 = 67108864"
definition SB_MIRROR_2 :: nat where "SB_MIRROR_2 = 274877906944"
definition SB_OFFSETS :: "nat list" where "SB_OFFSETS = [SB_MIRROR_0, SB_MIRROR_1, SB_MIRROR_2]"
definition SB_PROTECT_LEN :: nat where "SB_PROTECT_LEN = 65536"

text \<open>The body of the loop over mirrors and stripes for one chunk. The additions
  \<open>chunk_start + offset_in_stripe\<close> and \<open>logical_start + SB_PROTECT_LEN\<close> are unchecked in the source
  and wrap in a release build.\<close>

definition mirror_exclusion :: "chunk \<Rightarrow> nat \<Rightarrow> nat \<Rightarrow> stripe \<Rightarrow> range list" where
  "mirror_exclusion c chunk_end sb_offset s =
     (case checked_add64 (stripe_offset s) (chunk_length c) of
        None \<Rightarrow> []
      | Some stripe_end \<Rightarrow>
          if stripe_offset s \<le> sb_offset \<and> sb_offset < stripe_end then
            let offset_in_stripe = sb_offset - stripe_offset s;
                logical_start = add64 (logical c) offset_in_stripe;
                logical_end = min (add64 logical_start SB_PROTECT_LEN) chunk_end
            in if logical_start < logical_end then [(logical_start, logical_end)] else []
          else [])"

definition leading_exclusion :: "chunk \<Rightarrow> nat \<Rightarrow> range list" where
  "leading_exclusion c chunk_end =
     (if logical c < SB_MIRROR_0 then
        let excl_end = min SB_MIRROR_0 chunk_end in
        if logical c < excl_end then [(logical c, excl_end)] else []
      else [])"

definition chunk_exclusions :: "chunk \<Rightarrow> range list" where
  "chunk_exclusions c =
     (case checked_add64 (logical c) (chunk_length c) of
        None \<Rightarrow> []
      | Some chunk_end \<Rightarrow>
          leading_exclusion c chunk_end
          @ concat (map (\<lambda>sb. concat (map (mirror_exclusion c chunk_end sb) (stripes c))) SB_OFFSETS))"

text \<open>The loop of \<open>merge_ranges\<close>: \<open>last_mut\<close> is the last merged range.\<close>

fun merge_loop :: "range list \<Rightarrow> range list \<Rightarrow> range list" where
  "merge_loop merged [] = merged"
| "merge_loop merged (r # rs) =
     (if snd r \<le> fst r then merge_loop merged rs
      else if merged \<noteq> [] \<and> fst r \<le> snd (last merged)
        then merge_loop (butlast merged @ [(fst (last merged), max (snd (last merged)) (snd r))]) rs
      else merge_loop (merged @ [r]) rs)"

definition merge_ranges :: "range list \<Rightarrow> range list" where
  "merge_ranges rs = (if rs = [] then rs else merge_loop [] (sort_key fst rs))"

definition compute_sb_exclusions :: "chunk_map \<Rightarrow> range list" where
  "compute_sb_exclusions m = merge_ranges (concat (map chunk_exclusions (chunks m)))"

section \<open>Merging\<close>

definition separated :: "range list \<Rightarrow> bool" where
  "separated rs \<longleftrightarrow> sorted_wrt (\<lambda>a b. snd a < fst b) rs \<and> (\<forall>r \<in> set rs. fst r < snd r)"

lemma merge_loop_spec:
  assumes "sorted_wrt (\<lambda>a b. fst a \<le> fst b) rs" "separated merged"
    and "merged \<noteq> [] \<Longrightarrow> \<forall>r \<in> set rs. fst (last merged) \<le> fst r"
  shows "separated (merge_loop merged rs) \<and> ranges (merge_loop merged rs) = ranges merged \<union> ranges rs"
  using assms
proof (induction merged rs rule: merge_loop.induct)
  case (2 merged r rs)
  have le: "merged \<noteq> [] \<Longrightarrow> fst (last merged) \<le> fst r" using "2.prems"(3) by simp
  consider (empty) "snd r \<le> fst r"
    | (join) "fst r < snd r" "merged \<noteq> []" "fst r \<le> snd (last merged)"
    | (new) "fst r < snd r" "merged = [] \<or> snd (last merged) < fst r" by fastforce
  then show ?case
  proof cases
    case empty
    then show ?thesis using 2 by simp
  next
    case join
    obtain m l where ml: "merged = m @ [l]" using join(2) by (cases merged rule: rev_cases) auto
    let ?new = "m @ [(fst l, max (snd l) (snd r))]"
    have "separated ?new" using "2.prems"(2) ml by (auto simp: separated_def sorted_wrt_append max_def)
    moreover have "ranges ?new = ranges merged \<union> {fst r..<snd r}"
      using ml join le by (auto simp: max_def)
    moreover have "\<forall>q \<in> set rs. fst l \<le> fst q" using "2.prems"(3) ml by simp
    ultimately show ?thesis using "2.IH"(2) join ml "2.prems"(1) by (auto simp: Un_assoc)
  next
    case new
    have "separated (merged @ [r])"
      using new "2.prems"(2) by (cases merged rule: rev_cases) (auto simp: separated_def sorted_wrt_append)
    moreover have "merge_loop merged (r # rs) = merge_loop (merged @ [r]) rs" using new by auto
    ultimately show ?thesis using "2.IH"(3) new "2.prems"(1) by (auto simp: Un_assoc)
  qed
qed simp

lemma merge_ranges_spec:
  "separated (merge_ranges rs) \<and> ranges (merge_ranges rs) = ranges rs"
proof -
  have "ranges (sort_key fst rs) = ranges rs" by (simp add: ranges_def)
  moreover have "sorted_wrt (\<lambda>a b. fst a \<le> fst b) (sort_key fst rs)"
    by (metis (no_types) sorted_map sorted_sort_key)
  ultimately show ?thesis
    using merge_loop_spec [of "sort_key fst rs" "[]"] by (auto simp: merge_ranges_def separated_def)
qed

section \<open>What is excluded\<close>

lemma in_ranges_concat: "x \<in> ranges (concat rss) \<longleftrightarrow> (\<exists>rs \<in> set rss. x \<in> ranges rs)"
  by (induction rss) auto

lemma exclusions_mem:
  "x \<in> ranges (compute_sb_exclusions m) \<longleftrightarrow> (\<exists>c \<in> set (chunks m). x \<in> ranges (chunk_exclusions c))"
  by (simp add: compute_sb_exclusions_def merge_ranges_spec in_ranges_concat)

lemma chunk_exclusions_mem:
  assumes "logical c + chunk_length c < 2 ^ 64"
  shows "x \<in> ranges (chunk_exclusions c) \<longleftrightarrow>
     x \<in> ranges (leading_exclusion c (logical c + chunk_length c)) \<or>
     (\<exists>sb \<in> set SB_OFFSETS. \<exists>st \<in> set (stripes c).
        x \<in> ranges (mirror_exclusion c (logical c + chunk_length c) sb st))"
  using assms by (auto simp: chunk_exclusions_def checked_add64_def in_ranges_concat)

lemma mirror_exclusion_sound:
  assumes "x \<in> ranges (mirror_exclusion c (logical c + chunk_length c) sb st)"
    and "logical c + chunk_length c < 2 ^ 64"
  shows "logical c \<le> x \<and> x < logical c + chunk_length c
     \<and> sb \<le> stripe_offset st + (x - logical c) \<and> stripe_offset st + (x - logical c) < sb + SB_PROTECT_LEN"
proof -
  have g: "stripe_offset st \<le> sb" "sb < stripe_offset st + chunk_length c"
    using assms(1) by (auto simp: mirror_exclusion_def Let_def checked_add64_def split: if_splits)
  let ?ls = "logical c + (sb - stripe_offset st)"
  have ls: "add64 (logical c) (sb - stripe_offset st) = ?ls"
    using g assms(2) by (intro add64_small) linarith
  have "?ls \<le> x" "x < add64 ?ls SB_PROTECT_LEN" "x < logical c + chunk_length c"
    using assms(1) g ls by (auto simp: mirror_exclusion_def Let_def checked_add64_def split: if_splits)
  moreover have "add64 ?ls SB_PROTECT_LEN \<le> ?ls + SB_PROTECT_LEN" by (simp add: add64_def)
  ultimately show ?thesis using g by linarith
qed

lemma mirror_exclusion_complete:
  assumes "stripe_offset st \<le> sb" "k < chunk_length c"
    and "sb \<le> stripe_offset st + k" "stripe_offset st + k < sb + SB_PROTECT_LEN"
    and "stripe_offset st + chunk_length c < 2 ^ 64"
    and "logical c + chunk_length c + SB_PROTECT_LEN \<le> 2 ^ 64"
  shows "logical c + k \<in> ranges (mirror_exclusion c (logical c + chunk_length c) sb st)"
proof -
  let ?ls = "logical c + (sb - stripe_offset st)"
  have ls: "add64 (logical c) (sb - stripe_offset st) = ?ls"
    using assms by (intro add64_small) (simp add: SB_PROTECT_LEN_def)
  have le: "add64 ?ls SB_PROTECT_LEN = ?ls + SB_PROTECT_LEN"
    using assms by (intro add64_small) linarith
  have "?ls \<le> logical c + k" "logical c + k < min (?ls + SB_PROTECT_LEN) (logical c + chunk_length c)"
    using assms by linarith+
  then show ?thesis
    using assms ls le by (simp add: mirror_exclusion_def Let_def checked_add64_def)
qed

lemma leading_exclusion_mem:
  "x \<in> ranges (leading_exclusion c e) \<longleftrightarrow> logical c \<le> x \<and> x < 65536 \<and> x < e"
  by (auto simp: leading_exclusion_def Let_def SB_MIRROR_0_def)

section \<open>Properties\<close>

text \<open>C31: the exclusion list covers the superblock mirrors. Take a chunk of the map and a stripe of it such that neither the stripe nor the
  range protected behind the chunk wraps the 64 bit address space. A logical address of the chunk that translates to one of the
  64 KiB protected from a mirror is in the exclusion list, provided the mirror starts at or after the start of the stripe; and so is
  every address of the chunk below 64 KiB. Without the hypothesis on the width this fails: see
  the last property of this theory.\<close>

theorem sb_mirrors_excluded:
  assumes c: "c \<in> set (chunks m)" and st: "st \<in> set (stripes c)" and sb: "sb \<in> set SB_OFFSETS"
    and k: "k < chunk_length c"
    and w: "stripe_offset st + chunk_length c < 2 ^ 64" "logical c + chunk_length c + SB_PROTECT_LEN \<le> 2 ^ 64"
  shows "(stripe_offset st \<le> sb \<and> sb \<le> stripe_offset st + k \<and> stripe_offset st + k < sb + SB_PROTECT_LEN
            \<longrightarrow> logical c + k \<in> ranges (compute_sb_exclusions m))
       \<and> (logical c + k < 65536 \<longrightarrow> logical c + k \<in> ranges (compute_sb_exclusions m))"
proof -
  have w': "logical c + chunk_length c < 2 ^ 64" using w by (simp add: SB_PROTECT_LEN_def)
  show ?thesis
    using c st sb k mirror_exclusion_complete [OF _ k _ _ w] leading_exclusion_mem
    unfolding exclusions_mem chunk_exclusions_mem [OF w'] by (metis add_less_cancel_left chunk_exclusions_mem [OF w'] le_add1)
qed

text \<open>C32: nothing else is excluded, and the list is in normal form. Every excluded address lies in a
  chunk, and is below 64 KiB or translates to a protected byte of a mirror; the ranges are non-empty,
  sorted and separated by at least one address.\<close>

theorem sb_exclusions_sound:
  assumes wf: "\<forall>c \<in> set (chunks m). logical c + chunk_length c < 2 ^ 64"
  shows "separated (compute_sb_exclusions m)
     \<and> (\<forall>x \<in> ranges (compute_sb_exclusions m). \<exists>c \<in> set (chunks m).
          logical c \<le> x \<and> x < logical c + chunk_length c
          \<and> (x < 65536 \<or> (\<exists>sb \<in> set SB_OFFSETS. \<exists>st \<in> set (stripes c).
               sb \<le> stripe_offset st + (x - logical c)
               \<and> stripe_offset st + (x - logical c) < sb + SB_PROTECT_LEN)))"
proof (intro conjI ballI)
  show "separated (compute_sb_exclusions m)" by (simp add: compute_sb_exclusions_def merge_ranges_spec)
  fix x assume "x \<in> ranges (compute_sb_exclusions m)"
  then obtain c where c: "c \<in> set (chunks m)" "x \<in> ranges (chunk_exclusions c)" by (auto simp: exclusions_mem)
  have w: "logical c + chunk_length c < 2 ^ 64" using wf c by blast
  show "\<exists>c \<in> set (chunks m). logical c \<le> x \<and> x < logical c + chunk_length c
          \<and> (x < 65536 \<or> (\<exists>sb \<in> set SB_OFFSETS. \<exists>st \<in> set (stripes c).
               sb \<le> stripe_offset st + (x - logical c)
               \<and> stripe_offset st + (x - logical c) < sb + SB_PROTECT_LEN))"
    using c(2) mirror_exclusion_sound [OF _ w] leading_exclusion_mem
    unfolding chunk_exclusions_mem [OF w] by (intro bexI [OF _ c(1)]) blast
qed

text \<open>The metadata chunk of a fresh 4 GiB filesystem, with two copies; mirror 1 lies in the first.\<close>

definition meta_chunk :: chunk where
  "meta_chunk = \<lparr>logical = 30408704, chunk_length = 268435456, owner = 2, stripe_len = 65536,
     chunk_type = 0x24, io_align = 65536, io_width = 65536, sector_size = 4096, sub_stripes = 1,
     stripes = [\<lparr>devid = 1, stripe_offset = 38797312, dev_uuid = replicate 16 0\<rparr>,
                \<lparr>devid = 1, stripe_offset = 307232768, dev_uuid = replicate 16 0\<rparr>]\<rparr>"

definition meta_map :: chunk_map where
  "meta_map = cm_insert chunk_map_default meta_chunk"

lemma meta_map_chunks: "chunks meta_map = [meta_chunk]"
  by (simp add: meta_map_def cm_insert_def chunk_map_default_def binary_search_by_key_def partition_point_def)

theorem sb_mirrors_excluded_witness:
  "30408704 + 28311552 \<in> ranges (compute_sb_exclusions meta_map)
   \<and> 30408704 + 28377087 \<in> ranges (compute_sb_exclusions meta_map)"
  using sb_mirrors_excluded [of meta_chunk meta_map "stripes meta_chunk ! 0" 67108864 28311552]
    sb_mirrors_excluded [of meta_chunk meta_map "stripes meta_chunk ! 0" 67108864 28377087]
  unfolding meta_map_chunks by (simp add: meta_chunk_def SB_OFFSETS_def SB_MIRROR_1_def SB_PROTECT_LEN_def)

theorem sb_exclusions_sound_witness:
  "separated (compute_sb_exclusions meta_map) \<and> compute_sb_exclusions meta_map = [(58720256, 58785792)]"
proof -
  have "\<forall>c \<in> set (chunks meta_map). logical c + chunk_length c < 2 ^ 64"
    unfolding meta_map_chunks by (simp add: meta_chunk_def)
  from sb_exclusions_sound [OF this] show ?thesis
    by (simp add: compute_sb_exclusions_def meta_map_chunks chunk_exclusions_def meta_chunk_def
        leading_exclusion_def mirror_exclusion_def Let_def checked_add64_def add64_def merge_ranges_def
        SB_OFFSETS_def SB_MIRROR_0_def SB_MIRROR_1_def SB_MIRROR_2_def SB_PROTECT_LEN_def)
qed

text \<open>C33: the unchecked addition can lose an exclusion. A chunk accepted by \<open>Chunk::parse\<close> (it does not
  wrap the address space) whose mirror copy starts less than 64 KiB below \<open>2^64\<close> gets no exclusion at all
  in a release build, although its logical address \<open>2^64 - 37232\<close> translates to mirror 1.\<close>

theorem sb_exclusion_lost_on_wrap:
  "\<exists>c m. chunk_wf c \<and> chunks m = [c] \<and> cm_map m (2 ^ 64 - 37232) = Inr (SB_MIRROR_1, 32768)
     \<and> compute_sb_exclusions m = []"
proof -
  let ?c = "chunk_new_single (2 ^ 64 - 70000) 65536 BLOCK_GROUP_DATA 1 67076096 (replicate 16 0)"
  let ?m = "\<lparr>chunks = [?c]\<rparr>"
  have "chunk_wf ?c"
    by (simp add: chunk_wf_def chunk_new_single_def stripe_wf_def chunk_consts BLOCK_GROUP_DATA_def
        STRIPED_def BLOCK_GROUP_RAID0_def BLOCK_GROUP_RAID5_def BLOCK_GROUP_RAID6_def BLOCK_GROUP_RAID10_def)
  moreover have "cm_map ?m (2 ^ 64 - 37232) = Inr (SB_MIRROR_1, 32768)"
    by (simp add: cm_map_def cm_find_def binary_search_by_key_def partition_point_def Let_def
        chunk_new_single_def checked_add64_def SB_MIRROR_1_def)
  moreover have "compute_sb_exclusions ?m = []"
    by (simp add: compute_sb_exclusions_def chunk_exclusions_def chunk_new_single_def
        leading_exclusion_def mirror_exclusion_def Let_def checked_add64_def add64_def merge_ranges_def
        SB_OFFSETS_def SB_MIRROR_0_def SB_MIRROR_1_def SB_MIRROR_2_def SB_PROTECT_LEN_def)
  ultimately show ?thesis by (intro exI [of _ ?c] exI [of _ ?m]) simp
qed

end
