(* ===== verification/Bot.thy ===== *)
theory Bot
  imports Errors
begin

unbundle bit_operations_syntax

text \<open>
  USB Bulk-Only Transport (\<open>core/src/usb/bot.rs\<close>, the trait \<open>BulkTransport\<close> of \<open>core/src/usb/mod.rs\<close>):
  the 31 byte command wrapper, the 13 byte status wrapper and the transport interface. A transport
  is a record of its operations over a state \<open>'t\<close> of its own, so that an arbitrary device, also a
  misbehaving one, can stand behind it.
\<close>

section \<open>Command and status wrappers\<close>

definition CBW_SIGNATURE :: nat where "CBW_SIGNATURE = 0x43425355"
definition CSW_SIGNATURE :: nat where "CSW_SIGNATURE = 0x53425355"
definition CBW_LEN :: nat where "CBW_LEN = 31"
definition CSW_LEN :: nat where "CSW_LEN = 13"
definition MAX_CDB_LEN :: nat where "MAX_CDB_LEN = 16"

datatype direction = DirIn | DirOut | DirNone

definition dir_flags :: "direction \<Rightarrow> byte" where
  "dir_flags d = (case d of DirIn \<Rightarrow> 0x80 | DirOut \<Rightarrow> 0 | DirNone \<Rightarrow> 0)"

record cbw =
  cbw_tag :: nat
  data_transfer_length :: nat
  cbw_direction :: direction
  lun :: byte
  cbw_cdb :: bytes

definition cbw_new :: "nat \<Rightarrow> nat \<Rightarrow> direction \<Rightarrow> bytes \<Rightarrow> cbw" where
  "cbw_new tg len d c =
     \<lparr>cbw_tag = tg, data_transfer_length = len, cbw_direction = d, lun = 0, cbw_cdb = c\<rparr>"

definition cbw_encode :: "cbw \<Rightarrow> bytes result" where
  "cbw_encode self =
     (if cbw_cdb self = [] \<or> length (cbw_cdb self) > MAX_CDB_LEN
      then Inl (ScsiProtocol ''CDB length out of range'')
      else
        let b = replicate CBW_LEN 0;
            b = put b 0 (le_bytes 4 CBW_SIGNATURE);
            b = put b 4 (le_bytes 4 (cbw_tag self));
            b = put b 8 (le_bytes 4 (data_transfer_length self));
            b = b[12 := dir_flags (cbw_direction self)];
            b = b[13 := lun self AND 0x0F];
            b = b[14 := word_of_nat (length (cbw_cdb self))];
            b = put b 15 (cbw_cdb self)
        in Inr b)"

datatype csw_status = Passed | Failed | PhaseError

record csw =
  csw_tag :: nat
  data_residue :: nat
  status :: csw_status

definition csw_decode :: "bytes \<Rightarrow> csw result" where
  "csw_decode b =
     (if length b < CSW_LEN then Inl (ScsiProtocol ''CSW too short'')
      else if le_val (slice b 0 4) \<noteq> CSW_SIGNATURE then Inl (ScsiProtocol ''bad CSW signature'')
      else
        let st = unat (b ! 12) in
        if st = 0 then Inr \<lparr>csw_tag = le_val (slice b 4 4), data_residue = le_val (slice b 8 4), status = Passed\<rparr>
        else if st = 1 then Inr \<lparr>csw_tag = le_val (slice b 4 4), data_residue = le_val (slice b 8 4), status = Failed\<rparr>
        else if st = 2 then Inr \<lparr>csw_tag = le_val (slice b 4 4), data_residue = le_val (slice b 8 4), status = PhaseError\<rparr>
        else Inl (ScsiProtocol ''reserved CSW status''))"

lemmas bot_consts = CBW_SIGNATURE_def CSW_SIGNATURE_def CBW_LEN_def CSW_LEN_def MAX_CDB_LEN_def

section \<open>The transport interface\<close>

text \<open>\<open>read\<close> receives into a buffer of the given length; what it returns is the received bytes, of
  which a caller keeps at most the length of its buffer.\<close>

record 't bulk_transport =
  bt_write :: "bytes \<Rightarrow> 't \<Rightarrow> nat result \<times> 't"
  bt_read :: "nat \<Rightarrow> 't \<Rightarrow> bytes result \<times> 't"
  bt_max_transfer :: "'t \<Rightarrow> nat"
  bt_clear_halt :: "bool \<Rightarrow> 't \<Rightarrow> unit result \<times> 't"
  bt_reset :: "'t \<Rightarrow> unit result \<times> 't"

section \<open>The encoded wrapper, field by field\<close>

definition cbw_bytes :: "nat \<Rightarrow> nat \<Rightarrow> direction \<Rightarrow> bytes \<Rightarrow> bytes" where
  "cbw_bytes tg len d c = le_bytes 4 CBW_SIGNATURE @ le_bytes 4 tg @ le_bytes 4 len
     @ [dir_flags d, 0, word_of_nat (length c)] @ c @ replicate (16 - length c) 0"

lemma length_cbw_bytes: "length c \<le> 16 \<Longrightarrow> length (cbw_bytes tg len d c) = 31"
  by (simp add: cbw_bytes_def)

lemma list_update_zeros:
  "length xs = i \<Longrightarrow> (xs @ replicate (Suc n) z)[i := v] = (xs @ [v]) @ replicate n z"
  by (simp add: list_update_append)

lemma cbw_encode_eq:
  assumes "0 < length c" "length c \<le> 16"
  shows "cbw_encode (cbw_new tg len d c) = Inr (cbw_bytes tg len d c)"
proof -
  let ?h = "le_bytes 4 CBW_SIGNATURE @ le_bytes 4 tg @ le_bytes 4 len"
  have z: "replicate 19 (0::byte) = 0 # 0 # 0 # replicate 16 0"
    by (rule nth_equalityI) (auto simp: nth_Cons split: nat.split)
  have "put (put (put (replicate 31 0) 0 (le_bytes 4 CBW_SIGNATURE)) 4 (le_bytes 4 tg)) 8 (le_bytes 4 len)
      = ?h @ replicate 19 0"
    by (simp add: put_zeros_first put_zeros del: append_assoc)
  then have 1: "(put (put (put (replicate 31 0) 0 (le_bytes 4 CBW_SIGNATURE)) 4 (le_bytes 4 tg)) 8 (le_bytes 4 len))
        [12 := dir_flags d, 13 := 0, 14 := word_of_nat (length c)]
      = (?h @ [dir_flags d, 0, word_of_nat (length c)]) @ replicate 16 0"
    unfolding z by (simp add: list_update_append numeral_2_eq_2)
  have "put ((?h @ [dir_flags d, 0, word_of_nat (length c)]) @ replicate 16 0) 15 c
      = ((?h @ [dir_flags d, 0, word_of_nat (length c)]) @ c) @ replicate (16 - length c) 0"
    using assms by (intro put_zeros) simp_all
  then show ?thesis
    using assms 1 by (auto simp: cbw_encode_def cbw_new_def bot_consts Let_def cbw_bytes_def)
qed

definition csw_bytes :: "nat \<Rightarrow> nat \<Rightarrow> byte \<Rightarrow> bytes" where
  "csw_bytes tg residue st = le_bytes 4 CSW_SIGNATURE @ le_bytes 4 tg @ le_bytes 4 residue @ [st]"

lemma length_csw_bytes [simp]: "length (csw_bytes tg residue st) = 13"
  by (simp add: csw_bytes_def)

lemma csw_decode_passed:
  "tg < 2 ^ 32 \<Longrightarrow> residue < 2 ^ 32 \<Longrightarrow>
   csw_decode (csw_bytes tg residue 0) = Inr \<lparr>csw_tag = tg, data_residue = residue, status = Passed\<rparr>"
  by (simp add: csw_decode_def csw_bytes_def bot_consts bytes_simps nth_append Let_def)

section \<open>Properties\<close>

text \<open>The command wrapper has the layout the protocol requires. A command block of 1 to 16 bytes
  encodes to exactly 31 bytes, with signature, tag and transfer length little endian, the direction
  bit set only for an IN transfer, the length of the block and the block itself zero padded; any other
  block is refused.\<close>

theorem cbw_encode_layout:
  "(cbw_encode (cbw_new tg len d c) = Inl (ScsiProtocol ''CDB length out of range'')
      \<and> (c = [] \<or> 16 < length c)) \<or>
   (\<exists>b. cbw_encode (cbw_new tg len d c) = Inr b \<and> 0 < length c \<and> length c \<le> 16 \<and> length b = 31
      \<and> le_val (slice b 0 4) = CBW_SIGNATURE \<and> le_val (slice b 4 4) = tg mod 2 ^ 32
      \<and> le_val (slice b 8 4) = len mod 2 ^ 32 \<and> (bit (b ! 12) 7 = (d = DirIn)) \<and> unat (b ! 14) = length c
      \<and> slice b 15 (length c) = c \<and> drop (15 + length c) b = replicate (16 - length c) 0)"
proof (cases "c = [] \<or> 16 < length c")
  case True
  then show ?thesis by (simp add: cbw_encode_def cbw_new_def bot_consts)
next
  case False
  then have c: "0 < length c" "length c \<le> 16" by simp_all
  let ?b = "cbw_bytes tg len d c"
  have "le_val (slice ?b 0 4) = CBW_SIGNATURE" "le_val (slice ?b 4 4) = tg mod 2 ^ 32"
    "le_val (slice ?b 8 4) = len mod 2 ^ 32" "slice ?b 15 (length c) = c"
    "drop (15 + length c) ?b = replicate (16 - length c) 0"
    by (simp_all add: cbw_bytes_def bytes_simps bot_consts numeral_3_eq_3)
  moreover have "?b ! 12 = dir_flags d" "?b ! 14 = word_of_nat (length c)"
    by (simp_all add: cbw_bytes_def nth_append)
  moreover have "bit (dir_flags d) 7 = (d = DirIn)" by (cases d) (simp_all add: dir_flags_def)
  moreover have "unat (word_of_nat (length c) :: byte) = length c" using c by (simp add: unat_of_nat)
  ultimately show ?thesis using c cbw_encode_eq [OF c] length_cbw_bytes [OF c(2)] by auto
qed

text \<open>The status wrapper is accepted only when it is one: \<open>decode\<close> succeeds exactly on at least
  13 bytes that start with the signature and carry one of the three defined status values, and then
  returns the tag and the residue the bytes hold.\<close>

theorem csw_decode_exact:
  "case csw_decode b of
     Inl _ \<Rightarrow> \<not> (13 \<le> length b \<and> le_val (slice b 0 4) = CSW_SIGNATURE \<and> unat (b ! 12) \<le> 2)
   | Inr c \<Rightarrow> 13 \<le> length b \<and> le_val (slice b 0 4) = CSW_SIGNATURE
       \<and> unat (b ! 12) = (case status c of Passed \<Rightarrow> 0 | Failed \<Rightarrow> 1 | PhaseError \<Rightarrow> 2)
       \<and> csw_tag c = le_val (slice b 4 4) \<and> data_residue c = le_val (slice b 8 4)
       \<and> csw_tag c < 2 ^ 32 \<and> data_residue c < 2 ^ 32"
  using le_val_slice_bound [of b 4 4] le_val_slice_bound [of b 8 4]
  by (auto simp: csw_decode_def bot_consts Let_def)

end
