(* ===== verification/Scsi.thy ===== *)
theory Scsi
  imports Bot
begin

unbundle bit_operations_syntax

text \<open>
  SCSI block commands over Bulk-Only Transport (\<open>core/src/usb/scsi.rs\<close>). The state of a
  \<open>ScsiBlockDevice\<close> is a record with the transport's state, the probed capacity, the next tag, the
  "no flush command" flag and the SCSI events recorded for the forensic log (newest last; the ring
  they go to is \<open>Forensic\<close>). Every operation takes the transport's operations \<open>T\<close> and the state and
  returns a result and the new state, so each transfer, reset and recorded event is visible.
  The three loops of a command (data in, data out, status) are total: their measures are the bytes
  still missing, and for the status loop the one permitted retry.
\<close>

section \<open>Constants, sense data, capacity\<close>

definition OP_TEST_UNIT_READY :: byte where "OP_TEST_UNIT_READY = 0x00"
definition OP_REQUEST_SENSE :: byte where "OP_REQUEST_SENSE = 0x03"
definition OP_INQUIRY :: byte where "OP_INQUIRY = 0x12"
definition OP_READ_CAPACITY_10 :: byte where "OP_READ_CAPACITY_10 = 0x25"
definition OP_READ_10 :: byte where "OP_READ_10 = 0x28"
definition OP_READ_16 :: byte where "OP_READ_16 = 0x88"
definition OP_READ_CAPACITY_16 :: byte where "OP_READ_CAPACITY_16 = 0x9E"
definition OP_MODE_SENSE_6 :: byte where "OP_MODE_SENSE_6 = 0x1A"
definition OP_MODE_SENSE_10 :: byte where "OP_MODE_SENSE_10 = 0x5A"
definition MODE_PAGE_CACHING :: byte where "MODE_PAGE_CACHING = 0x08"
definition OP_WRITE_10 :: byte where "OP_WRITE_10 = 0x2A"
definition OP_WRITE_16 :: byte where "OP_WRITE_16 = 0x8A"
definition OP_WRITE_12 :: byte where "OP_WRITE_12 = 0xAA"
definition OP_SYNCHRONIZE_CACHE_10 :: byte where "OP_SYNCHRONIZE_CACHE_10 = 0x35"
definition OP_SYNCHRONIZE_CACHE_16 :: byte where "OP_SYNCHRONIZE_CACHE_16 = 0x91"
definition SA_READ_CAPACITY_16 :: byte where "SA_READ_CAPACITY_16 = 0x10"
definition READ10_MAX_BLOCKS :: nat where "READ10_MAX_BLOCKS = 0xFFFF"
definition READ10_MAX_LBA :: nat where "READ10_MAX_LBA = 0xFFFFFFFF"
definition MAX_SCSI_TRANSFER :: nat where "MAX_SCSI_TRANSFER = 128 * 1024"

lemmas scsi_ops = OP_TEST_UNIT_READY_def OP_REQUEST_SENSE_def OP_INQUIRY_def OP_READ_CAPACITY_10_def
  OP_READ_10_def OP_READ_16_def OP_READ_CAPACITY_16_def OP_MODE_SENSE_6_def OP_MODE_SENSE_10_def
  MODE_PAGE_CACHING_def OP_WRITE_10_def OP_WRITE_16_def OP_WRITE_12_def
  OP_SYNCHRONIZE_CACHE_10_def OP_SYNCHRONIZE_CACHE_16_def SA_READ_CAPACITY_16_def
lemmas scsi_limits = READ10_MAX_BLOCKS_def READ10_MAX_LBA_def MAX_SCSI_TRANSFER_def

text \<open>The identification strings are kept as the bytes the drive sent; turning them into text for
  display is not part of the model.\<close>

record inquiry_data =
  vendor :: bytes
  product :: bytes
  revision :: bytes
  peripheral_device_type :: nat
  removable :: bool

definition inquiry_parse :: "bytes \<Rightarrow> inquiry_data result" where
  "inquiry_parse b =
     (if length b < 36 then Inl (ScsiProtocol ''INQUIRY response too short'')
      else Inr \<lparr>vendor = slice b 8 8, product = slice b 16 16, revision = slice b 32 4,
                peripheral_device_type = unat (b ! 0 AND 0x1F), removable = (b ! 1 AND 0x80 \<noteq> 0)\<rparr>)"

definition is_block_device :: "inquiry_data \<Rightarrow> bool" where
  "is_block_device i = (peripheral_device_type i = 0)"

record capacity =
  blocks :: nat
  block_size :: nat

definition capacity_bytes :: "capacity \<Rightarrow> nat" where
  "capacity_bytes c = mul64 (blocks c) (block_size c)"

definition sense_parse :: "bytes \<Rightarrow> sense" where
  "sense_parse b = \<lparr>sense_key = unat (b ! 2 AND 0x0F), sense_asc = unat (b ! 12), sense_ascq = unat (b ! 13)\<rparr>"

datatype write_cache_state = CacheEnabled | CacheDisabled | CacheUnknown

definition parse_caching_page_wce :: "bool \<Rightarrow> bytes \<Rightarrow> bool option" where
  "parse_caching_page_wce mode_sense_6 data =
     (let header_len = (if mode_sense_6 then 4 else 8) in
      if length data < header_len then None
      else
        let block_descriptor_len = (if mode_sense_6 then unat (data ! 3) else be_val (slice data 6 2)) in
        case checked_add64 header_len block_descriptor_len of
          None \<Rightarrow> None
        | Some page_start \<Rightarrow>
            (case checked_add64 page_start 3 of
               None \<Rightarrow> None
             | Some page_end \<Rightarrow>
                 if length data < page_end then None
                 else if data ! page_start AND 0x3F \<noteq> MODE_PAGE_CACHING then None
                 else Some (data ! (page_start + 2) AND 0x04 \<noteq> 0)))"

section \<open>The device state\<close>

datatype scsi_event =
    ScsiCommand byte nat nat direction
  | ScsiResult byte string nat "nat option"
  | ScsiReset

record 't scsi_dev =
  transport :: 't
  dev_capacity :: capacity
  next_tag :: nat
  no_flush_command :: bool
  scsi_log :: "scsi_event list"

definition record_ev :: "scsi_event \<Rightarrow> 't scsi_dev \<Rightarrow> 't scsi_dev" where
  "record_ev e s = s\<lparr>scsi_log := scsi_log s @ [e]\<rparr>"

text \<open>Calling an operation of the transport: the result is returned, the transport's state updated.\<close>

definition lift_t :: "('t \<Rightarrow> 'a result \<times> 't) \<Rightarrow> 't scsi_dev \<Rightarrow> 'a result \<times> 't scsi_dev" where
  "lift_t f s = (let (r, t') = f (transport s) in (r, s\<lparr>transport := t'\<rparr>))"

definition do_reset :: "'t bulk_transport \<Rightarrow> 't scsi_dev \<Rightarrow> 't scsi_dev" where
  "do_reset T s = snd (lift_t (bt_reset T) s)"

definition recover :: "'t bulk_transport \<Rightarrow> 'a result \<times> 't scsi_dev \<Rightarrow> 'a result \<times> 't scsi_dev" where
  "recover T rs = (case rs of
      (Inl e, s) \<Rightarrow> (Inl e, do_reset T (record_ev ScsiReset s))
    | (Inr x, s) \<Rightarrow> (Inr x, s))"

section \<open>The phases of a command\<close>

text \<open>The data phase towards the host: \<open>acc\<close> is what arrived so far.\<close>

function data_in :: "'t bulk_transport \<Rightarrow> nat \<Rightarrow> bytes \<Rightarrow> 't scsi_dev \<Rightarrow> bytes result \<times> 't scsi_dev" where
  "data_in T want acc s =
     (if length acc < want then
        case recover T (lift_t (bt_read T (want - length acc)) s) of
          (Inl e, s') \<Rightarrow> (Inl e, s')
        | (Inr chunk, s') \<Rightarrow>
            (let got = take (want - length acc) chunk in
             if got = [] then (Inr acc, s') else data_in T want (acc @ got) s')
      else (Inr acc, s))"
  by pat_completeness auto
termination
  by (relation "measure (\<lambda>(T, want, acc, s). want - length acc)") (auto simp: min_def neq_Nil_conv)

text \<open>The data phase towards the drive: \<open>transferred\<close> counts the bytes the transport accepted.\<close>

function data_out :: "'t bulk_transport \<Rightarrow> bytes \<Rightarrow> nat \<Rightarrow> 't scsi_dev \<Rightarrow> nat result \<times> 't scsi_dev" where
  "data_out T data transferred s =
     (if transferred < length data then
        case recover T (lift_t (bt_write T (drop transferred data)) s) of
          (Inl e, s') \<Rightarrow> (Inl e, s')
        | (Inr n, s') \<Rightarrow>
            if n = 0 then (Inr transferred, s') else data_out T data (transferred + n) s'
      else (Inr transferred, s))"
  by pat_completeness auto
termination
  by (relation "measure (\<lambda>(T, data, transferred, s). length data - transferred)") auto

text \<open>The status phase. A stall or an empty read is answered once with \<open>clear_halt\<close>; a second one,
  like any other failure that is not a disconnect, resets the transport and fails the command.\<close>

function read_csw :: "'t bulk_transport \<Rightarrow> bytes \<Rightarrow> bool \<Rightarrow> 't scsi_dev \<Rightarrow> bytes result \<times> 't scsi_dev" where
  "read_csw T buf cleared_halt s =
     (if length buf < CSW_LEN then
        case lift_t (bt_read T (CSW_LEN - length buf)) s of
          (Inl e, s') \<Rightarrow>
            if is_disconnected e then (Inl e, s')
            else if \<not> cleared_halt then
              (case lift_t (bt_clear_halt T True) s' of
                 (Inl e', s'') \<Rightarrow> (Inl e', if is_disconnected e' then s'' else do_reset T s'')
               | (Inr _, s'') \<Rightarrow> read_csw T buf True s'')
            else (Inl e, do_reset T s')
        | (Inr chunk, s') \<Rightarrow>
            (let got = take (CSW_LEN - length buf) chunk in
             if got = [] then
               if \<not> cleared_halt then
                 (case lift_t (bt_clear_halt T True) s' of
                    (Inl e', s'') \<Rightarrow> (Inl e', if is_disconnected e' then s'' else do_reset T s'')
                  | (Inr _, s'') \<Rightarrow> read_csw T buf True s'')
               else (Inl (ScsiProtocol ''no CSW''), do_reset T s')
             else read_csw T (buf @ got) cleared_halt s')
      else (Inr buf, s))"
  by pat_completeness auto
termination
  by (relation "measure (\<lambda>(T, buf, cleared, s). 2 * (CSW_LEN - length buf) + (if cleared then 0 else 1))")
    (auto simp: min_def neq_Nil_conv)

declare data_in.simps [simp del] data_out.simps [simp del] read_csw.simps [simp del]

text \<open>What every command does after the data phase: read and check the status wrapper.\<close>

definition status_phase :: "'t bulk_transport \<Rightarrow> nat \<Rightarrow> 't scsi_dev \<Rightarrow> csw result \<times> 't scsi_dev" where
  "status_phase T tag s =
     (case read_csw T [] False s of
        (Inl e, s') \<Rightarrow> (Inl e, s')
      | (Inr csw_buf, s') \<Rightarrow>
          (case csw_decode csw_buf of
             Inl e \<Rightarrow> (Inl e, s')
           | Inr c \<Rightarrow> if csw_tag c \<noteq> tag then (Inl (ScsiProtocol ''CSW tag mismatch''), s') else (Inr c, s')))"

text \<open>What every command does before it: take a tag, record the command, send the wrapper.\<close>

definition command_phase :: "'t bulk_transport \<Rightarrow> bytes \<Rightarrow> direction \<Rightarrow> nat \<Rightarrow> 't scsi_dev
    \<Rightarrow> (byte \<times> nat) result \<times> 't scsi_dev" where
  "command_phase T cdb dir len s =
     (case cdb of
        [] \<Rightarrow> (Inl Panic, s)
      | opcode # _ \<Rightarrow>
          let tag = next_tag s;
              s = s\<lparr>next_tag := (next_tag s + 1) mod 2 ^ 32\<rparr>;
              s = record_ev (ScsiCommand opcode tag (len mod 2 ^ 32) dir) s
          in case cbw_encode (cbw_new tag (len mod 2 ^ 32) dir cdb) of
              Inl e \<Rightarrow> (Inl e, s)
            | Inr encoded \<Rightarrow>
                (case recover T (lift_t (bt_write T encoded) s) of
                   (Inl e, s') \<Rightarrow> (Inl e, s')
                 | (Inr sent, s') \<Rightarrow>
                     if sent \<noteq> length encoded then (Inl (ScsiProtocol ''short CBW write''), s')
                     else (Inr (opcode, tag), s')))"

text \<open>The verdict. \<open>why\<close> asks the drive for sense data after a failure.\<close>

definition conclude :: "'t bulk_transport \<Rightarrow> byte \<Rightarrow> nat \<Rightarrow> bool \<Rightarrow> string \<Rightarrow> csw
    \<Rightarrow> ('t scsi_dev \<Rightarrow> sense option \<times> 't scsi_dev) \<Rightarrow> 't scsi_dev \<Rightarrow> nat result \<times> 't scsi_dev" where
  "conclude T opcode transferred is_out phase_text c why s =
     (case status c of
        Passed \<Rightarrow>
          if is_out \<and> data_residue c \<noteq> 0 then
            (Inl (ScsiProtocol ''drive committed less than the full data phase''),
             record_ev (ScsiResult opcode ''RESIDUE_ERROR'' transferred None) s)
          else (Inr transferred, record_ev (ScsiResult opcode ''PASSED'' transferred None) s)
      | Failed \<Rightarrow>
          (let (sense, s') = why s in
           (Inl (ScsiCommandFailed (unat opcode) sense),
            record_ev (ScsiResult opcode ''FAILED'' transferred (map_option sense_key sense)) s'))
      | PhaseError \<Rightarrow>
          (Inl (ScsiProtocol phase_text),
           do_reset T (record_ev (ScsiResult opcode ''PHASE_ERROR'' transferred None) s)))"

section \<open>Commands\<close>

text \<open>\<open>command_inner\<close> with the sense query as an argument: the source recurses through
  \<open>request_sense\<close> with \<open>ask_why = false\<close>, at most once. The buffer is returned as the command left it.\<close>

definition command_with :: "'t bulk_transport \<Rightarrow> bytes \<Rightarrow> direction \<Rightarrow> bytes
    \<Rightarrow> ('t scsi_dev \<Rightarrow> sense option \<times> 't scsi_dev) \<Rightarrow> 't scsi_dev
    \<Rightarrow> (nat \<times> bytes) result \<times> 't scsi_dev" where
  "command_with T cdb dir data why s =
     (case command_phase T cdb dir (length data) s of
        (Inl e, s) \<Rightarrow> (Inl e, s)
      | (Inr (opcode, tag), s) \<Rightarrow>
          (case (if data = [] then (Inr (0, data), s)
                 else case dir of
                   DirIn \<Rightarrow> (case data_in T (length data) [] s of
                              (Inl e, s) \<Rightarrow> (Inl e, s)
                            | (Inr got, s) \<Rightarrow> (Inr (length got, put data 0 got), s))
                 | DirOut \<Rightarrow> (case data_out T data 0 s of
                              (Inl e, s) \<Rightarrow> (Inl e, s)
                            | (Inr n, s) \<Rightarrow> (Inr (n, data), s))
                 | DirNone \<Rightarrow> (Inr (0, data), s)) of
             (Inl e, s) \<Rightarrow> (Inl e, s)
           | (Inr (transferred, buf), s) \<Rightarrow>
               (case status_phase T tag s of
                  (Inl e, s) \<Rightarrow> (Inl e, s)
                | (Inr c, s) \<Rightarrow>
                    (case conclude T opcode transferred (dir = DirOut) ''phase error'' c why s of
                       (Inl e, s) \<Rightarrow> (Inl e, s)
                     | (Inr n, s) \<Rightarrow> (Inr (n, buf), s)))))"

definition no_sense :: "'t scsi_dev \<Rightarrow> sense option \<times> 't scsi_dev" where
  "no_sense s = (None, s)"

definition request_sense :: "'t bulk_transport \<Rightarrow> 't scsi_dev \<Rightarrow> bytes result \<times> 't scsi_dev" where
  "request_sense T s =
     (case command_with T ((replicate 6 0)[0 := OP_REQUEST_SENSE, 4 := 18]) DirIn (replicate 18 0) no_sense s of
        (Inl e, s') \<Rightarrow> (Inl e, s')
      | (Inr (_, buf), s') \<Rightarrow> (Inr buf, s'))"

definition ask_sense :: "'t bulk_transport \<Rightarrow> 't scsi_dev \<Rightarrow> sense option \<times> 't scsi_dev" where
  "ask_sense T s =
     (case request_sense T s of
        (Inl _, s') \<Rightarrow> (None, s')
      | (Inr b, s') \<Rightarrow> (Some (sense_parse b), s'))"

definition command_inner :: "'t bulk_transport \<Rightarrow> bytes \<Rightarrow> direction \<Rightarrow> bytes \<Rightarrow> bool \<Rightarrow> 't scsi_dev
    \<Rightarrow> (nat \<times> bytes) result \<times> 't scsi_dev" where
  "command_inner T cdb dir data ask_why s =
     command_with T cdb dir data (if ask_why then ask_sense T else no_sense) s"

definition command :: "'t bulk_transport \<Rightarrow> bytes \<Rightarrow> direction \<Rightarrow> bytes \<Rightarrow> 't scsi_dev
    \<Rightarrow> (nat \<times> bytes) result \<times> 't scsi_dev" where
  "command T cdb dir data s = command_inner T cdb dir data True s"

text \<open>\<open>command_out_inner\<close> has its own copy of the phases in the source; it differs in checking the
  residue always and in the text of a phase error.\<close>

definition command_out_inner :: "'t bulk_transport \<Rightarrow> bytes \<Rightarrow> bytes \<Rightarrow> bool \<Rightarrow> 't scsi_dev
    \<Rightarrow> nat result \<times> 't scsi_dev" where
  "command_out_inner T cdb data ask_why s =
     (case command_phase T cdb DirOut (length data) s of
        (Inl e, s) \<Rightarrow> (Inl e, s)
      | (Inr (opcode, tag), s) \<Rightarrow>
          (case (if data = [] then (Inr 0, s) else data_out T data 0 s) of
             (Inl e, s) \<Rightarrow> (Inl e, s)
           | (Inr transferred, s) \<Rightarrow>
               (case status_phase T tag s of
                  (Inl e, s) \<Rightarrow> (Inl e, s)
                | (Inr c, s) \<Rightarrow>
                    conclude T opcode transferred True ''CSW phase error'' c
                      (if ask_why then ask_sense T else no_sense) s)))"

definition command_out :: "'t bulk_transport \<Rightarrow> bytes \<Rightarrow> bytes \<Rightarrow> 't scsi_dev \<Rightarrow> nat result \<times> 't scsi_dev" where
  "command_out T cdb data s = command_out_inner T cdb data True s"

end
