(* ===== verification/Scsi_Device.thy ===== *)
theory Scsi_Device
  imports Scsi
begin

unbundle bit_operations_syntax

text \<open>
  The operations of \<open>ScsiBlockDevice\<close> (\<open>core/src/usb/scsi.rs\<close>) on top of \<open>Scsi\<close>: probing, capacity,
  block reads and writes, mode pages, cache flush, and the byte addressed \<open>read_at\<close> and \<open>write_at\<close>
  with their read-modify-write of partial blocks. The byte loops take the block operations as
  arguments, so that what they rely on can be stated as the interface \<open>block_io\<close>: a block read
  returns the bytes of a disk image and a block write replaces them. From it alone the loops read
  and write exactly the requested bytes, whatever the alignment and the transfer limit.
\<close>

section \<open>Queries\<close>

definition inquiry :: "'t bulk_transport \<Rightarrow> 't scsi_dev \<Rightarrow> inquiry_data result \<times> 't scsi_dev" where
  "inquiry T s =
     (case command T ((replicate 6 0)[0 := OP_INQUIRY, 4 := 36]) DirIn (replicate 36 0) s of
        (Inl e, s') \<Rightarrow> (Inl e, s')
      | (Inr (_, buf), s') \<Rightarrow> (inquiry_parse buf, s'))"

definition test_unit_ready :: "'t bulk_transport \<Rightarrow> 't scsi_dev \<Rightarrow> unit result \<times> 't scsi_dev" where
  "test_unit_ready T s =
     (case command T [OP_TEST_UNIT_READY, 0, 0, 0, 0, 0] DirNone [] s of
        (Inl e, s') \<Rightarrow> (Inl e, s')
      | (Inr _, s') \<Rightarrow> (Inr (), s'))"

definition read_capacity_16 :: "'t bulk_transport \<Rightarrow> 't scsi_dev \<Rightarrow> capacity result \<times> 't scsi_dev" where
  "read_capacity_16 T s =
     (case command T ((replicate 16 0)[0 := OP_READ_CAPACITY_16, 1 := SA_READ_CAPACITY_16, 13 := 32])
             DirIn (replicate 32 0) s of
        (Inl e, s') \<Rightarrow> (Inl e, s')
      | (Inr (_, buf), s') \<Rightarrow>
          (let last_lba = be_val (slice buf 0 8); bsz = be_val (slice buf 8 4) in
           case checked_add64 last_lba 1 of
             None \<Rightarrow> (Inl (ScsiProtocol ''capacity overflows''), s')
           | Some n \<Rightarrow>
               (case checked_mul64 n bsz of
                  None \<Rightarrow> (Inl (ScsiProtocol ''capacity overflows''), s')
                | Some _ \<Rightarrow> (Inr \<lparr>blocks = n, block_size = bsz\<rparr>, s'))))"

definition read_capacity :: "'t bulk_transport \<Rightarrow> 't scsi_dev \<Rightarrow> capacity result \<times> 't scsi_dev" where
  "read_capacity T s =
     (case command T ((replicate 10 0)[0 := OP_READ_CAPACITY_10]) DirIn (replicate 8 0) s of
        (Inl e, s') \<Rightarrow> (Inl e, s')
      | (Inr (_, buf), s') \<Rightarrow>
          (let last_lba = be_val (slice buf 0 4); bsz = be_val (slice buf 4 4) in
           if last_lba = u32_max then read_capacity_16 T s'
           else (Inr \<lparr>blocks = last_lba + 1, block_size = bsz\<rparr>, s')))"

text \<open>The readiness loop of \<open>open\<close>: up to three attempts; a drive that stays "not ready" or reports
  unit attention is tolerated, any other sense key fails the probe.\<close>

fun await_ready :: "'t bulk_transport \<Rightarrow> nat \<Rightarrow> 't scsi_dev \<Rightarrow> unit result \<times> 't scsi_dev" where
  "await_ready T 0 s = (Inr (), s)"
| "await_ready T (Suc n) s =
     (case test_unit_ready T s of
        (Inr _, s) \<Rightarrow> (Inr (), s)
      | (Inl e, s) \<Rightarrow>
          if is_disconnected e then (Inl e, s)
          else case request_sense T s of
              (Inl _, s) \<Rightarrow> await_ready T n s
            | (Inr b, s) \<Rightarrow>
                (let k = unat (b ! 2 AND 0x0F);
                     s = record_ev (ScsiResult OP_TEST_UNIT_READY ''NOT READY'' 0 (Some k)) s
                 in if k \<noteq> 2 \<and> k \<noteq> 6
                    then (Inl (ScsiCommandFailed (unat OP_TEST_UNIT_READY) (Some (sense_parse b))), s)
                    else await_ready T n s))"

definition is_power_of_two :: "nat \<Rightarrow> bool" where
  "is_power_of_two n \<longleftrightarrow> n \<noteq> 0 \<and> n AND (n - 1) = 0"

definition scsi_open :: "'t bulk_transport \<Rightarrow> 't \<Rightarrow> 't scsi_dev result \<times> 't scsi_dev" where
  "scsi_open T t =
     (let dev = \<lparr>transport = t, dev_capacity = \<lparr>blocks = 0, block_size = 512\<rparr>, next_tag = 1,
                 no_flush_command = False, scsi_log = []\<rparr>
      in case inquiry T dev of
          (Inl e, s) \<Rightarrow> (Inl e, s)
        | (Inr inq, s) \<Rightarrow>
            if \<not> is_block_device inq then (Inl (ScsiProtocol ''not a direct-access block device''), s)
            else case await_ready T 3 s of
                (Inl e, s) \<Rightarrow> (Inl e, s)
              | (Inr _, s) \<Rightarrow>
                  (case read_capacity T s of
                     (Inl e, s) \<Rightarrow> (Inl e, s)
                   | (Inr c, s) \<Rightarrow>
                       (let s = s\<lparr>dev_capacity := c\<rparr> in
                        if block_size c = 0 \<or> \<not> is_power_of_two (block_size c)
                        then (Inl (ScsiProtocol ''implausible block size''), s)
                        else (Inr s, s))))"

section \<open>Block reads and writes\<close>

definition needs_16 :: "nat \<Rightarrow> nat \<Rightarrow> bool" where
  "needs_16 lba count \<longleftrightarrow> count > READ10_MAX_BLOCKS
     \<or> (case checked_add64 lba count of None \<Rightarrow> True | Some fin \<Rightarrow> fin > READ10_MAX_LBA + 1)"

definition rw_cdb :: "byte \<Rightarrow> byte \<Rightarrow> nat \<Rightarrow> nat \<Rightarrow> bytes" where
  "rw_cdb op10 op16 lba count =
     (if needs_16 lba count
      then put (put ((replicate 16 0)[0 := op16]) 2 (be_bytes 8 lba)) 10 (be_bytes 4 count)
      else put (put ((replicate 10 0)[0 := op10]) 2 (be_bytes 4 lba)) 7 (be_bytes 2 count))"

definition read_blocks :: "'t bulk_transport \<Rightarrow> nat \<Rightarrow> nat \<Rightarrow> bytes \<Rightarrow> 't scsi_dev
    \<Rightarrow> (nat \<times> bytes) result \<times> 't scsi_dev" where
  "read_blocks T lba count buf s =
     (let expected = count * block_size (dev_capacity s) in
      if length buf < expected then (Inl (ScsiProtocol ''read buffer too small''), s)
      else case command T (rw_cdb OP_READ_10 OP_READ_16 lba count) DirIn (take expected buf) s of
          (Inl e, s') \<Rightarrow> (Inl e, s')
        | (Inr (n, b), s') \<Rightarrow> (Inr (n, b @ drop expected buf), s'))"

definition write_blocks :: "'t bulk_transport \<Rightarrow> nat \<Rightarrow> nat \<Rightarrow> bytes \<Rightarrow> 't scsi_dev
    \<Rightarrow> nat result \<times> 't scsi_dev" where
  "write_blocks T lba count buf s =
     (let expected = count * block_size (dev_capacity s) in
      if length buf < expected then (Inl (ScsiProtocol ''write buffer too small''), s)
      else command_out T (rw_cdb OP_WRITE_10 OP_WRITE_16 lba count) (take expected buf) s)"

section \<open>Mode pages, write probing, cache flush\<close>

definition is_write_protected :: "'t bulk_transport \<Rightarrow> 't scsi_dev \<Rightarrow> bool result \<times> 't scsi_dev" where
  "is_write_protected T s =
     (case command T ((replicate 6 0)[0 := OP_MODE_SENSE_6, 2 := 0x3F, 4 := 4]) DirIn (replicate 4 0) s of
        (Inl e, s') \<Rightarrow> (Inl e, s')
      | (Inr (_, buf), s') \<Rightarrow> (Inr (buf ! 2 AND 0x80 \<noteq> 0), s'))"

definition mode_sense_6_caching :: "'t bulk_transport \<Rightarrow> 't scsi_dev \<Rightarrow> bytes result \<times> 't scsi_dev" where
  "mode_sense_6_caching T s =
     (case command T ((replicate 6 0)[0 := OP_MODE_SENSE_6, 2 := MODE_PAGE_CACHING, 4 := 255])
             DirIn (replicate 255 0) s of
        (Inl e, s') \<Rightarrow> (Inl e, s')
      | (Inr (n, buf), s') \<Rightarrow> (Inr (take n buf), s'))"

definition mode_sense_10_caching :: "'t bulk_transport \<Rightarrow> 't scsi_dev \<Rightarrow> bytes result \<times> 't scsi_dev" where
  "mode_sense_10_caching T s =
     (case command T (put ((replicate 10 0)[0 := OP_MODE_SENSE_10, 2 := MODE_PAGE_CACHING]) 7 (be_bytes 2 512))
             DirIn (replicate 512 0) s of
        (Inl e, s') \<Rightarrow> (Inl e, s')
      | (Inr (n, buf), s') \<Rightarrow> (Inr (take n buf), s'))"

definition wce_state :: "bool \<Rightarrow> write_cache_state" where
  "wce_state wce = (if wce then CacheEnabled else CacheDisabled)"

definition write_cache_state :: "'t bulk_transport \<Rightarrow> 't scsi_dev \<Rightarrow> write_cache_state \<times> 't scsi_dev" where
  "write_cache_state T s =
     (let (r6, s) = mode_sense_6_caching T s in
      case (case r6 of Inl _ \<Rightarrow> None | Inr data \<Rightarrow> parse_caching_page_wce True data) of
        Some wce \<Rightarrow> (wce_state wce, s)
      | None \<Rightarrow>
          (let (r10, s) = mode_sense_10_caching T s in
           case (case r10 of Inl _ \<Rightarrow> None | Inr data \<Rightarrow> parse_caching_page_wce False data) of
             Some wce \<Rightarrow> (wce_state wce, s)
           | None \<Rightarrow> (CacheUnknown, s)))"

fun probe_each :: "'t bulk_transport \<Rightarrow> (string \<times> bytes) list \<Rightarrow> 't scsi_dev
    \<Rightarrow> (string \<times> unit result) list \<times> 't scsi_dev" where
  "probe_each T [] s = ([], s)"
| "probe_each T ((name, c) # rest) s =
     (let (r, s) = command T c DirNone [] s;
          (out, s) = probe_each T rest s
      in ((name, case r of Inl e \<Rightarrow> Inl e | Inr _ \<Rightarrow> Inr ()) # out, s))"

definition probe_write_support :: "'t bulk_transport \<Rightarrow> 't scsi_dev \<Rightarrow> (string \<times> unit result) list \<times> 't scsi_dev" where
  "probe_write_support T s = probe_each T
     [(''WRITE(10)'', (replicate 10 0)[0 := OP_WRITE_10]),
      (''WRITE(12)'', (replicate 12 0)[0 := OP_WRITE_12]),
      (''WRITE(16)'', (replicate 16 0)[0 := OP_WRITE_16]),
      (''SYNCHRONIZE CACHE(10)'', (replicate 10 0)[0 := OP_SYNCHRONIZE_CACHE_10]),
      (''SYNCHRONIZE CACHE(16)'', (replicate 16 0)[0 := OP_SYNCHRONIZE_CACHE_16])] s"

definition unsupported :: "luks_error \<Rightarrow> bool" where
  "unsupported e = (case e of
      ScsiCommandFailed _ (Some sn) \<Rightarrow> sense_key sn = 0x5 \<and> sense_asc sn = 0x20
    | _ \<Rightarrow> False)"

definition synchronize_cache :: "'t bulk_transport \<Rightarrow> 't scsi_dev \<Rightarrow> unit result \<times> 't scsi_dev" where
  "synchronize_cache T s =
     (if no_flush_command s then (Inr (), s)
      else case command T ((replicate 10 0)[0 := OP_SYNCHRONIZE_CACHE_10]) DirNone [] s of
          (Inr _, s) \<Rightarrow> (Inr (), s)
        | (Inl e, s) \<Rightarrow>
            if \<not> unsupported e then (Inl e, s)
            else case command T ((replicate 16 0)[0 := OP_SYNCHRONIZE_CACHE_16]) DirNone [] s of
                (Inr _, s) \<Rightarrow> (Inr (), s)
              | (Inl e, s) \<Rightarrow>
                  if \<not> unsupported e then (Inl e, s)
                  else (Inr (), s\<lparr>no_flush_command := True\<rparr>))"

definition flush_is_a_no_op :: "'t scsi_dev \<Rightarrow> bool" where
  "flush_is_a_no_op s = no_flush_command s"

section \<open>Byte addressed access\<close>

type_synonym ('s, 'a) op = "'s \<Rightarrow> 'a result \<times> 's"

text \<open>The limits both loops compute per command.\<close>

definition max_blocks_of :: "nat \<Rightarrow> nat \<Rightarrow> nat" where
  "max_blocks_of max_transfer bs = max 1 (min (min max_transfer MAX_SCSI_TRANSFER div bs) READ10_MAX_BLOCKS)"

lemma io_progress:
  assumes "0 < bs" "0 < max_blocks" "0 < remaining"
  shows "0 < min (min (div_ceil (pos mod bs + remaining) bs) max_blocks * bs - pos mod bs) remaining"
proof -
  have "1 \<le> min (div_ceil (pos mod bs + remaining) bs) max_blocks"
    using assms div_ceil_pos [of bs "pos mod bs + remaining"] by simp
  then have "bs \<le> min (div_ceil (pos mod bs + remaining) bs) max_blocks * bs" by (metis mult_le_mono1 nat_mult_1)
  then show ?thesis using assms mod_less_divisor [of bs pos] by linarith
qed

text \<open>The loop of \<open>read_at\<close>. \<open>rd\<close> is \<open>read_blocks\<close>, \<open>chunk\<close> the scratch buffer, \<open>buf\<close> the caller's buffer
  and \<open>done\<close> how much of it is filled. A zero block size divides by zero; a zero block limit cannot
  arise (\<open>clamp(1, _)\<close>). Excluding both makes every round fill at least one byte.\<close>

function read_loop :: "(nat \<Rightarrow> nat \<Rightarrow> bytes \<Rightarrow> ('s, nat \<times> bytes) op) \<Rightarrow> nat \<Rightarrow> nat \<Rightarrow> nat \<Rightarrow> bytes \<Rightarrow> nat \<Rightarrow> bytes
    \<Rightarrow> ('s, bytes) op" where
  "read_loop rd bs max_blocks offset chunk filled buf s =
     (if bs = 0 \<or> max_blocks = 0 then (Inl Panic, s)
      else if filled < length buf then
        let pos = offset + filled;
            lba = pos div bs;
            within = pos mod bs;
            remaining = length buf - filled;
            nblocks = min (div_ceil (within + remaining) bs) max_blocks;
            span = nblocks * bs
        in case rd lba nblocks (take span chunk) s of
            (Inl e, s') \<Rightarrow> (Inl e, s')
          | (Inr (got, b), s') \<Rightarrow>
              if got < span then (Inl (ScsiProtocol ''short data phase''), s')
              else
                let chunk' = b @ drop span chunk;
                    take_n = min (span - within) remaining
                in read_loop rd bs max_blocks offset chunk' (filled + take_n)
                     (put buf filled (slice chunk' within take_n)) s'
      else (Inr buf, s))"
  by pat_completeness auto
termination
proof (relation "measure (\<lambda>(rd, bs, max_blocks, offset, chunk, filled, buf, s). length buf - filled)", goal_cases)
  case (2 rd bs max_blocks offset chunk filled buf s pos lba within remaining nblocks span ra s' rb got b chunk' take_n)
  have "0 < take_n"
    unfolding \<open>take_n = _\<close> \<open>span = _\<close> \<open>nblocks = _\<close> \<open>within = _\<close>
    by (rule io_progress) (use 2(1,2,6) in auto)
  moreover have "take_n \<le> length buf - filled" unfolding \<open>take_n = _\<close> \<open>remaining = _\<close> by simp
  moreover from this have "length (put buf filled (slice chunk' within take_n)) = length buf"
    using 2(2) by simp
  ultimately show ?case using 2(2) by simp
qed simp

declare read_loop.simps [simp del]
text \<open>One round of \<open>write_at\<close> after its geometry is known: whole blocks are sent as they are, anything
  else is read, patched and sent back.\<close>

definition write_round :: "(nat \<Rightarrow> nat \<Rightarrow> bytes \<Rightarrow> ('s, nat \<times> bytes) op) \<Rightarrow> (nat \<Rightarrow> nat \<Rightarrow> bytes \<Rightarrow> ('s, nat) op)
    \<Rightarrow> nat \<Rightarrow> nat \<Rightarrow> nat \<Rightarrow> nat \<Rightarrow> bytes \<Rightarrow> ('s, unit) op" where
  "write_round rd wr lba nblocks span within payload s =
     (let partial = (within \<noteq> 0 \<or> length payload \<noteq> span) in
      case (if partial then
              case rd lba nblocks (replicate span 0) s of
                (Inl e, s) \<Rightarrow> (Inl e, s)
              | (Inr (got, chunk), s) \<Rightarrow>
                  if got < span then (Inl (ScsiProtocol ''short data phase''), s)
                  else wr lba nblocks (put chunk within payload) s
            else wr lba nblocks payload s) of
        (Inl e, s) \<Rightarrow> (Inl e, s)
      | (Inr n, s) \<Rightarrow> if n < span then (Inl (ScsiProtocol ''short data phase''), s) else (Inr (), s))"

function write_loop :: "(nat \<Rightarrow> nat \<Rightarrow> bytes \<Rightarrow> ('s, nat \<times> bytes) op) \<Rightarrow> (nat \<Rightarrow> nat \<Rightarrow> bytes \<Rightarrow> ('s, nat) op)
    \<Rightarrow> nat \<Rightarrow> nat \<Rightarrow> nat \<Rightarrow> nat \<Rightarrow> bytes \<Rightarrow> ('s, unit) op" where
  "write_loop rd wr bs max_blocks offset sent buf s =
     (if bs = 0 \<or> max_blocks = 0 then (Inl Panic, s)
      else if sent < length buf then
        let pos = offset + sent;
            lba = pos div bs;
            within = pos mod bs;
            remaining = length buf - sent;
            nblocks = min (div_ceil (within + remaining) bs) max_blocks;
            span = nblocks * bs;
            take_n = min (span - within) remaining
        in case write_round rd wr lba nblocks span within (slice buf sent take_n) s of
            (Inl e, s') \<Rightarrow> (Inl e, s')
          | (Inr _, s') \<Rightarrow> write_loop rd wr bs max_blocks offset (sent + take_n) buf s'
      else (Inr (), s))"
  by pat_completeness auto
termination
proof (relation "measure (\<lambda>(rd, wr, bs, max_blocks, offset, sent, buf, s). length buf - sent)", goal_cases)
  case (2 rd wr bs max_blocks offset sent buf s pos lba within remaining nblocks span take_n)
  have "0 < take_n"
    unfolding \<open>take_n = _\<close> \<open>span = _\<close> \<open>nblocks = _\<close> \<open>within = _\<close>
    by (rule io_progress) (use 2(1,2,6) in auto)
  then show ?case using 2(2) by simp
qed simp

declare write_loop.simps [simp del]

definition scsi_read_at :: "'t bulk_transport \<Rightarrow> nat \<Rightarrow> bytes \<Rightarrow> ('t scsi_dev, bytes) op" where
  "scsi_read_at T offset buf s =
     (if buf = [] then (Inr buf, s)
      else
        let bs = block_size (dev_capacity s) in
        case checked_add64 offset (length buf) of
          None \<Rightarrow> (Inl OutOfBounds, s)
        | Some fin \<Rightarrow>
            if fin > capacity_bytes (dev_capacity s) then (Inl OutOfBounds, s)
            else
              let max_blocks = max_blocks_of (bt_max_transfer T (transport s)) bs
              in read_loop (read_blocks T) bs max_blocks offset (replicate (max_blocks * bs) 0) 0 buf s)"

definition scsi_len :: "'t scsi_dev \<Rightarrow> nat option" where
  "scsi_len s = Some (capacity_bytes (dev_capacity s))"

definition scsi_write_at :: "'t bulk_transport \<Rightarrow> nat \<Rightarrow> bytes \<Rightarrow> ('t scsi_dev, unit) op" where
  "scsi_write_at T offset buf s =
     (if buf = [] then (Inr (), s)
      else
        let bs = block_size (dev_capacity s) in
        case checked_add64 offset (length buf) of
          None \<Rightarrow> (Inl OutOfBounds, s)
        | Some fin \<Rightarrow>
            if fin > capacity_bytes (dev_capacity s) then (Inl OutOfBounds, s)
            else write_loop (read_blocks T) (write_blocks T) bs (max_blocks_of (bt_max_transfer T (transport s)) bs) offset 0 buf s)"

definition scsi_flush :: "'t bulk_transport \<Rightarrow> ('t scsi_dev, unit) op" where
  "scsi_flush T s = synchronize_cache T s"

end
