(* ===== verification/Block_Io.thy ===== *)
theory Block_Io
  imports Scsi_Device
begin

text \<open>
  What the byte loops of \<open>Scsi_Device\<close> rely on, as the interface \<open>block_io\<close>, and what they promise in
  return: from block operations that read and replace whole blocks of a disk image, \<open>read_loop\<close>
  fetches exactly the requested bytes and \<open>write_loop\<close> replaces exactly the given ones, whatever the
  alignment of the request and the number of blocks a command may carry. Both also only ever ask
  for blocks that exist (\<open>read_loop_in_range\<close>, \<open>write_loop_in_range\<close>), with no assumption on the device.
\<close>

section \<open>The geometry of one round\<close>

text \<open>The blocks a round transfers and the bytes of the request it serves, as both loops compute them.\<close>

definition round_blocks :: "nat \<Rightarrow> nat \<Rightarrow> nat \<Rightarrow> nat \<Rightarrow> nat" where
  "round_blocks bs maxb pos remaining = min (div_ceil (pos mod bs + remaining) bs) maxb"

definition round_take :: "nat \<Rightarrow> nat \<Rightarrow> nat \<Rightarrow> nat \<Rightarrow> nat" where
  "round_take bs maxb pos remaining = min (round_blocks bs maxb pos remaining * bs - pos mod bs) remaining"

lemma round_geometry:
  assumes bs: "0 < bs" and maxb: "0 < maxb" and rem: "0 < remaining"
  shows "0 < round_blocks bs maxb pos remaining" "round_blocks bs maxb pos remaining \<le> maxb"
    "pos mod bs + round_take bs maxb pos remaining \<le> round_blocks bs maxb pos remaining * bs"
    "0 < round_take bs maxb pos remaining" "round_take bs maxb pos remaining \<le> remaining"
proof -
  let ?n = "round_blocks bs maxb pos remaining"
  show n: "0 < ?n" using div_ceil_pos [of bs "pos mod bs + remaining"] bs maxb rem by (simp add: round_blocks_def)
  show "?n \<le> maxb" by (simp add: round_blocks_def)
  have "bs \<le> ?n * bs" using n by simp
  then have "pos mod bs < ?n * bs" using bs mod_less_divisor [of bs pos] by linarith
  then show "pos mod bs + round_take bs maxb pos remaining \<le> ?n * bs" "0 < round_take bs maxb pos remaining"
    using rem by (auto simp: round_take_def)
  show "round_take bs maxb pos remaining \<le> remaining" by (simp add: round_take_def)
qed

lemma round_in_range:
  assumes bs: "0 < bs" and L: "pos + remaining \<le> nb * bs" and rem: "0 < remaining"
  shows "pos div bs + round_blocks bs maxb pos remaining \<le> nb"
    "pos div bs * bs + round_blocks bs maxb pos remaining * bs \<le> nb * bs"
proof -
  have p: "pos div bs * bs + pos mod bs = pos" by simp
  have "div_ceil (pos mod bs + remaining) bs \<le> nb - pos div bs"
  proof (rule div_ceil_le [OF bs])
    have "pos div bs * bs + (pos mod bs + remaining) \<le> nb * bs" using L p by linarith
    then show "pos mod bs + remaining \<le> (nb - pos div bs) * bs" unfolding diff_mult_distrib by linarith
  qed
  moreover have "pos div bs < nb" using L rem bs by (simp add: div_less_iff_less_mult)
  ultimately show "pos div bs + round_blocks bs maxb pos remaining \<le> nb" by (simp add: round_blocks_def)
  then have "(pos div bs + round_blocks bs maxb pos remaining) * bs \<le> nb * bs" by (rule mult_le_mono1)
  then show "pos div bs * bs + round_blocks bs maxb pos remaining * bs \<le> nb * bs" by (simp add: add_mult_distrib)
qed

lemma read_loop_done: "0 < bs \<Longrightarrow> 0 < maxb \<Longrightarrow> length buf \<le> filled \<Longrightarrow>
    read_loop rd bs maxb offset chunk filled buf s = (Inr buf, s)"
  by (subst read_loop.simps) simp

lemma read_loop_step:
  fixes offset filled :: nat and buf :: bytes
  assumes "0 < bs" "0 < maxb" "filled < length buf"
  defines "pos \<equiv> offset + filled" and "remaining \<equiv> length buf - filled"
  shows "read_loop rd bs maxb offset chunk filled buf s =
    (let n = round_blocks bs maxb pos remaining; t = round_take bs maxb pos remaining in
     case rd (pos div bs) n (take (n * bs) chunk) s of
       (Inl e, s') \<Rightarrow> (Inl e, s')
     | (Inr (got, b), s') \<Rightarrow>
         if got < n * bs then (Inl (ScsiProtocol ''short data phase''), s')
         else let c = b @ drop (n * bs) chunk in
           read_loop rd bs maxb offset c (filled + t) (put buf filled (slice c (pos mod bs) t)) s')"
  using assms(1-3) unfolding pos_def remaining_def
  by (subst read_loop.simps, unfold Let_def round_take_def round_blocks_def) simp

lemma write_loop_done: "0 < bs \<Longrightarrow> 0 < maxb \<Longrightarrow> length buf \<le> sent \<Longrightarrow>
    write_loop rd wr bs maxb offset sent buf s = (Inr (), s)"
  by (subst write_loop.simps) simp

lemma write_loop_step:
  fixes offset sent :: nat and buf :: bytes
  assumes "0 < bs" "0 < maxb" "sent < length buf"
  defines "pos \<equiv> offset + sent" and "remaining \<equiv> length buf - sent"
  shows "write_loop rd wr bs maxb offset sent buf s =
    (let n = round_blocks bs maxb pos remaining; t = round_take bs maxb pos remaining in
     case write_round rd wr (pos div bs) n (n * bs) (pos mod bs) (slice buf sent t) s of
       (Inl e, s') \<Rightarrow> (Inl e, s')
     | (Inr _, s') \<Rightarrow> write_loop rd wr bs maxb offset (sent + t) buf s')"
  using assms(1-3) unfolding pos_def remaining_def
  by (subst write_loop.simps, unfold Let_def round_take_def round_blocks_def) simp

section \<open>Requests stay inside the drive\<close>

text \<open>Two devices that agree on every request for existing blocks, of a permitted size, are
  indistinguishable to the loops.\<close>

lemma read_loop_cong:
  assumes rd: "\<And>lba n b s. 0 < n \<Longrightarrow> n \<le> maxb \<Longrightarrow> lba + n \<le> nb \<Longrightarrow> rd lba n b s = rd' lba n b s"
    and "offset + length buf \<le> nb * bs" "0 < bs" "0 < maxb"
  shows "read_loop rd bs maxb offset chunk filled buf s = read_loop rd' bs maxb offset chunk filled buf s"
  using assms(2)
proof (induction "length buf - filled" arbitrary: chunk filled buf s rule: less_induct)
  case less
  show ?case
  proof (cases "filled < length buf")
    case True
    define r where "r = length buf - filled"
    define n where "n = round_blocks bs maxb (offset + filled) r"
    define t where "t = round_take bs maxb (offset + filled) r"
    have r: "0 < r" "offset + filled + r \<le> nb * bs" using True less.prems by (simp_all add: r_def)
    have t: "0 < t" "t \<le> r" "0 < n" "n \<le> maxb" using round_geometry [OF assms(3,4) r(1)] by (simp_all add: t_def n_def)
    have "rd ((offset + filled) div bs) n b s = rd' ((offset + filled) div bs) n b s" for b s
      using t round_in_range(1) [OF assms(3) r(2,1)] by (intro rd) (simp_all add: n_def)
    moreover have "read_loop rd bs maxb offset c (filled + t) (put buf filled (slice c w t)) s2
        = read_loop rd' bs maxb offset c (filled + t) (put buf filled (slice c w t)) s2" for c w s2
    proof -
      have "length (put buf filled (slice c w t)) = length buf" using t(2) True by (simp add: r_def)
      then show ?thesis using t less.prems by (intro less.hyps) (simp_all add: r_def)
    qed
    ultimately show ?thesis
      unfolding read_loop_step [OF assms(3,4) True] r_def [symmetric] n_def [symmetric] t_def [symmetric] Let_def
      by (simp split: prod.split sum.split)
  qed (simp add: read_loop_done assms)
qed

lemma write_round_cong:
  assumes "\<And>b s. rd lba n b s = rd' lba n b s" "\<And>b s. wr lba n b s = wr' lba n b s"
  shows "write_round rd wr lba n span w p s = write_round rd' wr' lba n span w p s"
  unfolding write_round_def assms ..

lemma write_loop_cong:
  assumes rd: "\<And>lba n b s. 0 < n \<Longrightarrow> n \<le> maxb \<Longrightarrow> lba + n \<le> nb \<Longrightarrow> rd lba n b s = rd' lba n b s"
    and wr: "\<And>lba n b s. 0 < n \<Longrightarrow> n \<le> maxb \<Longrightarrow> lba + n \<le> nb \<Longrightarrow> wr lba n b s = wr' lba n b s"
    and L: "offset + length buf \<le> nb * bs" and "0 < bs" "0 < maxb"
  shows "write_loop rd wr bs maxb offset sent buf s = write_loop rd' wr' bs maxb offset sent buf s"
proof (induction "length buf - sent" arbitrary: sent s rule: less_induct)
  case less
  show ?case
  proof (cases "sent < length buf")
    case True
    define r where "r = length buf - sent"
    define n where "n = round_blocks bs maxb (offset + sent) r"
    define t where "t = round_take bs maxb (offset + sent) r"
    have r: "0 < r" "offset + sent + r \<le> nb * bs" using True L by (simp_all add: r_def)
    have t: "0 < t" "0 < n" "n \<le> maxb" using round_geometry [OF assms(4,5) r(1)] by (simp_all add: t_def n_def)
    have "write_round rd wr ((offset + sent) div bs) n sp w p s
        = write_round rd' wr' ((offset + sent) div bs) n sp w p s" for sp w p s
      using t round_in_range(1) [OF assms(4) r(2,1)]
      by (intro write_round_cong rd wr) (simp_all add: n_def)
    moreover have "write_loop rd wr bs maxb offset (sent + t) buf s2 = write_loop rd' wr' bs maxb offset (sent + t) buf s2" for s2
      using t(1) True by (intro less.hyps) simp
    ultimately show ?thesis
      unfolding write_loop_step [OF assms(4,5) True] r_def [symmetric] n_def [symmetric] t_def [symmetric] Let_def
      by (simp split: prod.split sum.split)
  qed (simp add: write_loop_done assms)
qed
section \<open>The interface\<close>

text \<open>A device that is ready serves every request for existing whole blocks, keeps its other blocks,
  and is ready again.\<close>

locale block_io =
  fixes rd :: "nat \<Rightarrow> nat \<Rightarrow> bytes \<Rightarrow> ('s, nat \<times> bytes) op"
    and wr :: "nat \<Rightarrow> nat \<Rightarrow> bytes \<Rightarrow> ('s, nat) op"
    and disk :: "'s \<Rightarrow> bytes"
    and ready :: "'s \<Rightarrow> bool"
    and bs :: nat and maxb :: nat
  assumes geometry: "ready s \<Longrightarrow> 0 < bs \<and> 0 < maxb \<and> bs dvd length (disk s)"
    and rd_ok: "ready s \<Longrightarrow> 0 < n \<Longrightarrow> n \<le> maxb \<Longrightarrow> lba * bs + n * bs \<le> length (disk s) \<Longrightarrow> length b = n * bs \<Longrightarrow>
      \<exists>s'. rd lba n b s = (Inr (n * bs, slice (disk s) (lba * bs) (n * bs)), s') \<and> ready s' \<and> disk s' = disk s"
    and wr_ok: "ready s \<Longrightarrow> 0 < n \<Longrightarrow> n \<le> maxb \<Longrightarrow> lba * bs + n * bs \<le> length (disk s) \<Longrightarrow> length b = n * bs \<Longrightarrow>
      \<exists>s'. wr lba n b s = (Inr (n * bs), s') \<and> ready s' \<and> disk s' = put (disk s) (lba * bs) b"
begin

lemma read_loop_correct:
  assumes "ready s" "offset + length buf \<le> length (disk s)" "filled \<le> length buf" "length chunk = maxb * bs"
  shows "\<exists>s'. read_loop rd bs maxb offset chunk filled buf s
      = (Inr (put buf filled (slice (disk s) (offset + filled) (length buf - filled))), s')
    \<and> ready s' \<and> disk s' = disk s"
  using assms
proof (induction "length buf - filled" arbitrary: chunk filled buf s rule: less_induct)
  case less
  from geometry [OF less.prems(1)] have g: "0 < bs" "0 < maxb" "bs dvd length (disk s)" by simp_all
  show ?case
  proof (cases "filled < length buf")
    case False
    then show ?thesis using g less.prems by (simp add: read_loop_done put_def slice_def)
  next
    case True
    define r where "r = length buf - filled"
    define pos where "pos = offset + filled"
    define n where "n = round_blocks bs maxb pos r"
    define t where "t = round_take bs maxb pos r"
    define w where "w = pos mod bs"
    define D where "D = disk s"
    obtain nb where nb: "length D = nb * bs" using g(3) by (auto simp: dvd_def mult.commute D_def)
    have r: "0 < r" "pos + r \<le> nb * bs" using True less.prems nb by (simp_all add: r_def pos_def D_def)
    have t: "0 < n" "n \<le> maxb" "w + t \<le> n * bs" "0 < t" "t \<le> r"
      using round_geometry [OF g(1,2) r(1)] by (simp_all add: t_def n_def w_def)
    have in_range: "pos div bs * bs + n * bs \<le> length D"
      using round_in_range(2) [OF g(1) r(2,1)] nb by (simp add: n_def)
    have chunk: "n * bs \<le> length chunk" using t(2) less.prems(4) by simp
    obtain s1 where s1: "rd (pos div bs) n (take (n * bs) chunk) s = (Inr (n * bs, slice D (pos div bs * bs) (n * bs)), s1)"
      "ready s1" "disk s1 = D"
      using rd_ok [OF less.prems(1) t(1,2)] in_range chunk unfolding D_def by (metis length_take min_absorb2)
    define c where "c = slice D (pos div bs * bs) (n * bs) @ drop (n * bs) chunk"
    have lc: "length c = maxb * bs" using in_range chunk less.prems(4) by (simp add: c_def)
    have "slice c w t = slice (slice D (pos div bs * bs) (n * bs)) w t"
      using t(3) in_range by (simp add: c_def slice_append_left)
    also have "\<dots> = slice D pos t" using t(3) by (simp add: slice_slice w_def)
    finally have cw: "slice c w t = slice D pos t" .
    have lt: "length (slice D pos t) = t" using t(5) r(2) nb by simp
    let ?buf = "put buf filled (slice D pos t)"
    have lb: "length ?buf = length buf" using lt t(5) True by (simp add: r_def)
    have "\<exists>s'. read_loop rd bs maxb offset c (filled + t) ?buf s1
        = (Inr (put ?buf (filled + t) (slice (disk s1) (offset + (filled + t)) (length ?buf - (filled + t)))), s')
        \<and> ready s' \<and> disk s' = disk s1"
      by (rule less.hyps) (use s1 lb lc t(4,5) True less.prems(2) in \<open>simp_all add: r_def D_def\<close>)
    moreover have "put ?buf (filled + t) (slice D (offset + (filled + t)) (length ?buf - (filled + t)))
        = put buf filled (slice D pos r)"
    proof -
      have "slice D pos t @ slice D (pos + t) (r - t) = slice D pos r" using t(5) by (simp add: slice_append)
      then show ?thesis
        using put_put_adjacent [where xs = buf and i = filled and ys = "slice D pos t" and zs = "slice D (pos + t) (r - t)"]
          lt lb t(5) r(2) nb True by (simp add: r_def pos_def add.assoc)
    qed
    ultimately show ?thesis
      unfolding read_loop_step [OF g(1,2) True] pos_def [symmetric] r_def [symmetric] n_def [symmetric]
        t_def [symmetric] w_def [symmetric] D_def [symmetric] Let_def s1(1)
      using s1(3) by (simp add: c_def [symmetric] cw)
  qed
qed

lemma write_round_correct:
  assumes "ready s" "0 < n" "n \<le> maxb" "lba * bs + n * bs \<le> length (disk s)" "w + length p \<le> n * bs"
  shows "\<exists>s'. write_round rd wr lba n (n * bs) w p s = (Inr (), s') \<and> ready s' \<and> disk s' = put (disk s) (lba * bs + w) p"
proof (cases "w \<noteq> 0 \<or> length p \<noteq> n * bs")
  case True
  define c where "c = slice (disk s) (lba * bs) (n * bs)"
  obtain s1 where s1: "rd lba n (replicate (n * bs) 0) s = (Inr (n * bs, c), s1)" "ready s1" "disk s1 = disk s"
    using rd_ok [OF assms(1-4)] unfolding c_def by (metis length_replicate)
  have lp: "length (put c w p) = n * bs" using assms(4,5) by (simp add: c_def)
  then obtain s2 where s2: "wr lba n (put c w p) s1 = (Inr (n * bs), s2)" "ready s2"
    "disk s2 = put (disk s1) (lba * bs) (put c w p)"
    using wr_ok [OF s1(2) assms(2,3)] assms(4) s1(3) by metis
  have "put (disk s) (lba * bs) (put c w p) = put (disk s) (lba * bs + w) p"
    unfolding c_def using assms(4,5) by (rule put_patched_slice)
  then show ?thesis using True s1 s2 by (simp add: write_round_def)
next
  case False
  then obtain s2 where "wr lba n p s = (Inr (n * bs), s2)" "ready s2" "disk s2 = put (disk s) (lba * bs) p"
    using wr_ok [OF assms(1-4)] by blast
  then show ?thesis using False by (simp add: write_round_def)
qed

lemma write_loop_correct:
  assumes "ready s" "offset + length buf \<le> length (disk s)" "sent \<le> length buf"
  shows "\<exists>s'. write_loop rd wr bs maxb offset sent buf s = (Inr (), s')
    \<and> ready s' \<and> disk s' = put (disk s) (offset + sent) (drop sent buf)"
  using assms
proof (induction "length buf - sent" arbitrary: sent s rule: less_induct)
  case less
  from geometry [OF less.prems(1)] have g: "0 < bs" "0 < maxb" "bs dvd length (disk s)" by simp_all
  show ?case
  proof (cases "sent < length buf")
    case False
    then show ?thesis using g less.prems by (simp add: write_loop_done put_def)
  next
    case True
    define r where "r = length buf - sent"
    define pos where "pos = offset + sent"
    define n where "n = round_blocks bs maxb pos r"
    define t where "t = round_take bs maxb pos r"
    define p where "p = slice buf sent t"
    obtain nb where nb: "length (disk s) = nb * bs" using g(3) by (auto simp: dvd_def mult.commute)
    have r: "0 < r" "pos + r \<le> nb * bs" using True less.prems nb by (simp_all add: r_def pos_def)
    have t: "0 < n" "n \<le> maxb" "pos mod bs + t \<le> n * bs" "0 < t" "t \<le> r"
      using round_geometry [OF g(1,2) r(1)] by (simp_all add: t_def n_def)
    have lp: "length p = t" using t(5) by (simp add: p_def r_def)
    obtain s1 where s1: "write_round rd wr (pos div bs) n (n * bs) (pos mod bs) p s = (Inr (), s1)"
      "ready s1" "disk s1 = put (disk s) pos p"
      using write_round_correct [OF less.prems(1) t(1,2), of "pos div bs" "pos mod bs" p]
        round_in_range(2) [OF g(1) r(2,1)] nb lp t(3) by (auto simp: n_def)
    have ld: "length (disk s1) = length (disk s)" using s1(3) lp t(5) r(2) nb by simp
    have "\<exists>s'. write_loop rd wr bs maxb offset (sent + t) buf s1 = (Inr (), s') \<and> ready s'
        \<and> disk s' = put (disk s1) (offset + (sent + t)) (drop (sent + t) buf)"
      by (rule less.hyps) (use s1 ld t(4,5) True less.prems in \<open>simp_all add: r_def\<close>)
    moreover have "put (put (disk s) pos p) (pos + t) (drop (sent + t) buf) = put (disk s) pos (drop sent buf)"
    proof -
      have "p @ drop (sent + t) buf = drop sent buf"
        by (simp add: p_def slice_def) (metis add.commute append_take_drop_id drop_drop)
      then show ?thesis
        using put_put_adjacent [where xs = "disk s" and i = pos and ys = p and zs = "drop (sent + t) buf"]
          lp t(5) less.prems(2) True by (simp add: pos_def r_def)
    qed
    ultimately show ?thesis
      unfolding write_loop_step [OF g(1,2) True] pos_def [symmetric] r_def [symmetric] n_def [symmetric]
        t_def [symmetric] p_def [symmetric] Let_def s1(1)
      using s1(3) by (simp add: pos_def add.assoc)
  qed
qed

end

end
