(* ===== verification/Bot_Target.thy ===== *)
theory Bot_Target
  imports Block_Io
begin

text \<open>
  What the SCSI layer relies on from the transport and the drive behind it, as the interface
  \<open>bot_target\<close>: an idle drive accepts the wrapper of a READ or WRITE command for existing blocks, moves
  the data in pieces of any size from one byte up, and then sends a status wrapper for the command's
  tag. From these laws the block operations of \<open>Scsi_Device\<close> satisfy \<open>block_io\<close> (the \<open>sublocale\<close> below),
  so the byte loops are correct on every such drive.
\<close>

section \<open>The interface\<close>

text \<open>\<open>sending t d c\<close>: the drive owes the host the data \<open>d\<close> and then the status bytes \<open>c\<close>.
  \<open>receiving t at want got c\<close>: it has received \<open>got\<close> of \<open>want\<close> bytes that go to offset \<open>at\<close> of its image.\<close>

locale bot_target =
  fixes T :: "'t bulk_transport"
    and image :: "'t \<Rightarrow> bytes"
    and idle :: "'t \<Rightarrow> bool"
    and sending :: "'t \<Rightarrow> bytes \<Rightarrow> bytes \<Rightarrow> bool"
    and receiving :: "'t \<Rightarrow> nat \<Rightarrow> nat \<Rightarrow> bytes \<Rightarrow> bytes \<Rightarrow> bool"
    and bs :: nat and maxb :: nat
  assumes target_geometry: "idle t \<Longrightarrow> 0 < bs \<and> 0 < maxb \<and> maxb * bs < 2 ^ 32 \<and> bs dvd length (image t)
      \<and> length (image t) < 2 ^ 64 \<and> maxb = max_blocks_of (bt_max_transfer T t) bs"
    and read_command: "idle t \<Longrightarrow> 0 < n \<Longrightarrow> n \<le> maxb \<Longrightarrow> lba * bs + n * bs \<le> length (image t) \<Longrightarrow> tg < 2 ^ 32 \<Longrightarrow>
      \<exists>t'. bt_write T (cbw_bytes tg (n * bs) DirIn (rw_cdb OP_READ_10 OP_READ_16 lba n)) t = (Inr CBW_LEN, t')
        \<and> image t' = image t \<and> sending t' (slice (image t) (lba * bs) (n * bs)) (csw_bytes tg 0 0)"
    and write_command: "idle t \<Longrightarrow> 0 < n \<Longrightarrow> n \<le> maxb \<Longrightarrow> lba * bs + n * bs \<le> length (image t) \<Longrightarrow> tg < 2 ^ 32 \<Longrightarrow>
      \<exists>t'. bt_write T (cbw_bytes tg (n * bs) DirOut (rw_cdb OP_WRITE_10 OP_WRITE_16 lba n)) t = (Inr CBW_LEN, t')
        \<and> image t' = image t \<and> receiving t' (lba * bs) (n * bs) [] (csw_bytes tg 0 0)"
    and send_data: "sending t d c \<Longrightarrow> d \<noteq> [] \<Longrightarrow> 0 < k \<Longrightarrow>
      \<exists>m t'. 0 < m \<and> m \<le> k \<and> m \<le> length d \<and> bt_read T k t = (Inr (take m d), t')
        \<and> image t' = image t \<and> sending t' (drop m d) c"
    and send_status: "sending t [] c \<Longrightarrow> c \<noteq> [] \<Longrightarrow> 0 < k \<Longrightarrow>
      \<exists>m t'. 0 < m \<and> m \<le> k \<and> m \<le> length c \<and> bt_read T k t = (Inr (take m c), t') \<and> image t' = image t
        \<and> (if m = length c then idle t' else sending t' [] (drop m c))"
    and receive_data: "receiving t at want got c \<Longrightarrow> length got < want \<Longrightarrow> d \<noteq> [] \<Longrightarrow> length d \<le> want - length got \<Longrightarrow>
      \<exists>m t'. 0 < m \<and> m \<le> length d \<and> bt_write T d t = (Inr m, t')
        \<and> (if length got + m = want then image t' = put (image t) at (got @ take m d) \<and> sending t' [] c
           else image t' = image t \<and> receiving t' at want (got @ take m d) c)"
begin

lemma data_in_all:
  assumes "sending (transport s) d c" "length acc + length d = want"
  shows "\<exists>t'. data_in T want acc s = (Inr (acc @ d), s\<lparr>transport := t'\<rparr>) \<and> image t' = image (transport s) \<and> sending t' [] c"
  using assms
proof (induction "length d" arbitrary: d acc s rule: less_induct)
  case less
  show ?case
  proof (cases "d = []")
    case True
    then show ?thesis using less.prems by (subst data_in.simps) (auto intro!: exI [of _ "transport s"])
  next
    case False
    then have "0 < want - length acc" using less.prems(2) by (cases d) auto
    then obtain m t1 where m: "0 < m" "m \<le> want - length acc" "m \<le> length d"
      and t1: "bt_read T (want - length acc) (transport s) = (Inr (take m d), t1)" "image t1 = image (transport s)"
        "sending t1 (drop m d) c"
      using send_data [OF less.prems(1) False] by blast
    let ?s1 = "s\<lparr>transport := t1\<rparr>"
    have "\<exists>t'. data_in T want (acc @ take m d) ?s1 = (Inr ((acc @ take m d) @ drop m d), ?s1\<lparr>transport := t'\<rparr>)
        \<and> image t' = image (transport ?s1) \<and> sending t' [] c"
      by (rule less.hyps) (use m t1 less.prems in simp_all)
    moreover have "length acc < want" using \<open>0 < want - length acc\<close> by simp
    moreover have "take m d \<noteq> []" using m(1) False by simp
    ultimately show ?thesis
      using t1 m by (subst data_in.simps) (simp add: lift_t_def recover_def min_def)
  qed
qed

lemma read_csw_all:
  assumes "sending (transport s) [] c" "c \<noteq> []" "length buf + length c = CSW_LEN"
  shows "\<exists>t'. read_csw T buf cl s = (Inr (buf @ c), s\<lparr>transport := t'\<rparr>) \<and> image t' = image (transport s) \<and> idle t'"
  using assms
proof (induction "length c" arbitrary: c buf s rule: less_induct)
  case less
  have lt: "length buf < CSW_LEN" using less.prems(2,3) by (cases c) auto
  then obtain m t1 where m: "0 < m" "m \<le> CSW_LEN - length buf" "m \<le> length c"
    and t1: "bt_read T (CSW_LEN - length buf) (transport s) = (Inr (take m c), t1)" "image t1 = image (transport s)"
      "if m = length c then idle t1 else sending t1 [] (drop m c)"
    using send_status [OF less.prems(1,2), of "CSW_LEN - length buf"] by auto
  let ?s1 = "s\<lparr>transport := t1\<rparr>"
  have ne: "take m c \<noteq> []" using m(1) less.prems(2) by simp
  have step: "read_csw T buf cl s = read_csw T (buf @ take m c) cl ?s1"
    using t1(1) m lt ne by (subst read_csw.simps) (simp add: lift_t_def min_def)
  show ?case
  proof (cases "m = length c")
    case True
    then show ?thesis using step t1 less.prems(3) by (subst (asm) (2) read_csw.simps) auto
  next
    case False
    have "\<exists>t'. read_csw T (buf @ take m c) cl ?s1 = (Inr ((buf @ take m c) @ drop m c), ?s1\<lparr>transport := t'\<rparr>)
        \<and> image t' = image (transport ?s1) \<and> idle t'"
      by (rule less.hyps) (use m t1 False less.prems in simp_all)
    then show ?thesis using step t1(2) by simp
  qed
qed

lemma data_out_all:
  assumes "receiving (transport s) at want got c" "want = length data" "got = take n data" "n < length data"
  shows "\<exists>t'. data_out T data n s = (Inr (length data), s\<lparr>transport := t'\<rparr>)
    \<and> image t' = put (image (transport s)) at data \<and> sending t' [] c"
  using assms(1,3,4)
proof (induction "length data - n" arbitrary: n got s rule: less_induct)
  case less
  let ?d = "drop n data"
  have d: "?d \<noteq> []" "length got < want" "length ?d \<le> want - length got" using less.prems assms(2) by auto
  obtain m t1 where m: "0 < m" "m \<le> length ?d" and t1: "bt_write T ?d (transport s) = (Inr m, t1)"
    "if length got + m = want then image t1 = put (image (transport s)) at (got @ take m ?d) \<and> sending t1 [] c
     else image t1 = image (transport s) \<and> receiving t1 at want (got @ take m ?d) c"
    using receive_data [OF less.prems(1) d(2,1,3)] by auto
  let ?s1 = "s\<lparr>transport := t1\<rparr>"
  have step: "data_out T data n s = data_out T data (n + m) ?s1"
    using less.prems(3) m t1(1) by (subst data_out.simps) (simp add: lift_t_def recover_def)
  have got: "got @ take m ?d = take (n + m) data" using less.prems(2) by (simp add: take_add)
  show ?case
  proof (cases "n + m = length data")
    case True
    then have "image t1 = put (image (transport s)) at data" "sending t1 [] c"
      using t1(2) less.prems(2,3) assms(2) got by (simp_all add: min_def)
    then show ?thesis using True step by (subst (asm) (2) data_out.simps) auto
  next
    case False
    have r: "image t1 = image (transport s)" "receiving t1 at want (take (n + m) data) c"
      using t1(2) False less.prems(2,3) assms(2) got by (simp_all add: min_def split: if_splits)
    have "\<exists>t'. data_out T data (n + m) ?s1 = (Inr (length data), ?s1\<lparr>transport := t'\<rparr>)
        \<and> image t' = put (image (transport ?s1)) at data \<and> sending t' [] c"
      by (rule less.hyps [where got = "take (n + m) data"]) (use r m less.prems(3) False in auto)
    then show ?thesis using step r(1) by simp
  qed
qed

lemma status_phase_ok:
  assumes "sending (transport s) [] (csw_bytes tg 0 0)" "tg < 2 ^ 32"
  shows "\<exists>t'. status_phase T tg s = (Inr \<lparr>csw_tag = tg, data_residue = 0, status = Passed\<rparr>, s\<lparr>transport := t'\<rparr>)
    \<and> image t' = image (transport s) \<and> idle t'"
proof -
  have "csw_bytes tg 0 0 \<noteq> []" "length ([] :: bytes) + length (csw_bytes tg 0 0) = CSW_LEN"
    by (auto simp: csw_bytes_def CSW_LEN_def)
  from read_csw_all [OF assms(1) this, of False] obtain t' where
    "read_csw T [] False s = (Inr (csw_bytes tg 0 0), s\<lparr>transport := t'\<rparr>)" "image t' = image (transport s)" "idle t'"
    by auto
  then show ?thesis using assms(2) by (auto simp: status_phase_def csw_decode_passed)
qed

end

text \<open>The state in which a command has been announced and its wrapper sent.\<close>

definition announced :: "byte \<Rightarrow> nat \<Rightarrow> direction \<Rightarrow> 't \<Rightarrow> 't scsi_dev \<Rightarrow> 't scsi_dev" where
  "announced opcode len dir t' s =
     (record_ev (ScsiCommand opcode (next_tag s) (len mod 2 ^ 32) dir)
        (s\<lparr>next_tag := (next_tag s + 1) mod 2 ^ 32\<rparr>))\<lparr>transport := t'\<rparr>"

lemma transport_announced [simp]: "transport (announced op len dir t' s) = t'"
  by (simp add: announced_def)

lemma command_phase_sent:
  assumes "0 < length cdb" "length cdb \<le> 16" "len < 2 ^ 32"
    and "bt_write T (cbw_bytes (next_tag s) len dir cdb) (transport s) = (Inr CBW_LEN, t')"
  shows "command_phase T cdb dir len s = (Inr (hd cdb, next_tag s), announced (hd cdb) len dir t' s)"
  using assms length_cbw_bytes [OF assms(2)]
  by (cases cdb) (auto simp: command_phase_def Let_def cbw_encode_eq record_ev_def announced_def recover_def lift_t_def CBW_LEN_def)

lemma length_rw_cdb: "0 < length (rw_cdb a b lba n)" "length (rw_cdb a b lba n) \<le> 16"
  by (simp_all add: rw_cdb_def put_def)

text \<open>A command whose three phases succeed succeeds.\<close>

lemma command_in_passed:
  assumes "command_phase T cdb DirIn (length b) s = (Inr (op, tg), s1)" "b \<noteq> []"
    "data_in T (length b) [] s1 = (Inr d, s2)"
    "status_phase T tg s2 = (Inr \<lparr>csw_tag = tg, data_residue = 0, status = Passed\<rparr>, s3)"
  shows "command T cdb DirIn b s = (Inr (length d, put b 0 d), record_ev (ScsiResult op ''PASSED'' (length d) None) s3)"
  using assms by (simp add: command_def command_inner_def command_with_def conclude_def)

lemma command_out_passed:
  assumes "command_phase T cdb DirOut (length b) s = (Inr (op, tg), s1)" "b \<noteq> []"
    "data_out T b 0 s1 = (Inr n, s2)"
    "status_phase T tg s2 = (Inr \<lparr>csw_tag = tg, data_residue = 0, status = Passed\<rparr>, s3)"
  shows "command_out T cdb b s = (Inr n, record_ev (ScsiResult op ''PASSED'' n None) s3)"
  using assms by (simp add: command_out_def command_out_inner_def conclude_def)

context bot_target
begin

text \<open>A device is ready between commands: the transport idle, the probed capacity \<open>cap\<close> in blocks of the target's size.\<close>

definition dev_ready :: "capacity \<Rightarrow> 't scsi_dev \<Rightarrow> bool" where
  "dev_ready cap s \<longleftrightarrow> idle (transport s) \<and> dev_capacity s = cap \<and> block_size cap = bs \<and> next_tag s < 2 ^ 32"

lemma small_transfer: "idle t \<Longrightarrow> n \<le> maxb \<Longrightarrow> n * bs < 2 ^ 32"
  using target_geometry [of t] mult_le_mono1 [of n maxb bs] by linarith

text \<open>A command without payload, and one that reads, from the moment the drive has its wrapper.\<close>

lemma command_none_ok:
  assumes "next_tag s < 2 ^ 32" "0 < length cdb" "length cdb \<le> 16"
    and t1: "bt_write T (cbw_bytes (next_tag s) 0 DirNone cdb) (transport s) = (Inr CBW_LEN, t1)"
      "sending t1 [] (csw_bytes (next_tag s) 0 0)"
  shows "\<exists>s'. command T cdb DirNone [] s = (Inr (0, []), s') \<and> idle (transport s') \<and> image (transport s') = image t1
    \<and> dev_capacity s' = dev_capacity s \<and> next_tag s' < 2 ^ 32 \<and> no_flush_command s' = no_flush_command s"
proof -
  let ?s1 = "announced (hd cdb) 0 DirNone t1 s"
  obtain t3 where t3: "status_phase T (next_tag s) ?s1
      = (Inr \<lparr>csw_tag = next_tag s, data_residue = 0, status = Passed\<rparr>, ?s1\<lparr>transport := t3\<rparr>)"
    "image t3 = image t1" "idle t3"
    using status_phase_ok [of ?s1 "next_tag s"] t1(2) assms(1) by auto
  show ?thesis
    using t3 command_phase_sent [OF assms(2,3) _ t1(1)]
    by (simp add: command_def command_inner_def command_with_def conclude_def record_ev_def announced_def)
qed

lemma command_in_ok:
  assumes "next_tag s < 2 ^ 32" "0 < length cdb" "length cdb \<le> 16" "length b < 2 ^ 32" "b \<noteq> []" "length d = length b"
    and t1: "bt_write T (cbw_bytes (next_tag s) (length b) DirIn cdb) (transport s) = (Inr CBW_LEN, t1)"
      "sending t1 d (csw_bytes (next_tag s) 0 0)"
  shows "\<exists>s'. command T cdb DirIn b s = (Inr (length b, d), s') \<and> idle (transport s') \<and> image (transport s') = image t1
    \<and> dev_capacity s' = dev_capacity s \<and> next_tag s' < 2 ^ 32 \<and> no_flush_command s' = no_flush_command s"
proof -
  let ?s1 = "announced (hd cdb) (length b) DirIn t1 s"
  obtain t2 where t2: "data_in T (length b) [] ?s1 = (Inr d, ?s1\<lparr>transport := t2\<rparr>)" "image t2 = image t1"
    "sending t2 [] (csw_bytes (next_tag s) 0 0)"
    using data_in_all [of ?s1 d _ "[]" "length b"] t1(2) assms(6) by auto
  obtain t3 where t3: "status_phase T (next_tag s) (?s1\<lparr>transport := t2\<rparr>)
      = (Inr \<lparr>csw_tag = next_tag s, data_residue = 0, status = Passed\<rparr>, ?s1\<lparr>transport := t3\<rparr>)"
    "image t3 = image t2" "idle t3"
    using status_phase_ok [of "?s1\<lparr>transport := t2\<rparr>"] t2(3) assms(1) by auto
  have "put b 0 d = d" using assms(6) by (simp add: put_def)
  then have "command T cdb DirIn b s
      = (Inr (length b, d), record_ev (ScsiResult (hd cdb) ''PASSED'' (length b) None) (?s1\<lparr>transport := t3\<rparr>))"
    using command_in_passed [OF command_phase_sent [OF assms(2,3,4) t1(1)] assms(5) t2(1) t3(1)] assms(6) by simp
  then show ?thesis using t2(2) t3(2,3) by (simp add: record_ev_def announced_def)
qed

lemma read_blocks_ok:
  assumes "dev_ready cap s" "0 < n" "n \<le> maxb" "lba * bs + n * bs \<le> length (image (transport s))" "length b = n * bs"
  shows "\<exists>s'. read_blocks T lba n b s = (Inr (n * bs, slice (image (transport s)) (lba * bs) (n * bs)), s')
    \<and> dev_ready cap s' \<and> image (transport s') = image (transport s)"
proof -
  let ?cdb = "rw_cdb OP_READ_10 OP_READ_16 lba n" and ?d = "slice (image (transport s)) (lba * bs) (n * bs)"
  have r: "idle (transport s)" "dev_capacity s = cap" "block_size cap = bs" "next_tag s < 2 ^ 32"
    using assms(1) by (simp_all add: dev_ready_def)
  obtain t1 where t1: "bt_write T (cbw_bytes (next_tag s) (n * bs) DirIn ?cdb) (transport s) = (Inr CBW_LEN, t1)"
    "image t1 = image (transport s)" "sending t1 ?d (csw_bytes (next_tag s) 0 0)"
    using read_command [OF r(1) assms(2-4) r(4)] by blast
  have d: "length ?d = length b" "b \<noteq> []" using assms target_geometry [OF r(1)] by auto
  have "\<exists>s'. command T ?cdb DirIn b s = (Inr (length b, ?d), s') \<and> idle (transport s') \<and> image (transport s') = image t1
      \<and> dev_capacity s' = dev_capacity s \<and> next_tag s' < 2 ^ 32 \<and> no_flush_command s' = no_flush_command s"
    by (rule command_in_ok [OF r(4) length_rw_cdb _ d(2,1) _ t1(3)])
      (use t1(1) small_transfer [OF r(1) assms(3)] assms(5) in simp_all)
  then show ?thesis
    using r t1(2) assms(5) by (auto simp: read_blocks_def Let_def dev_ready_def)
qed

lemma write_blocks_ok:
  assumes "dev_ready cap s" "0 < n" "n \<le> maxb" "lba * bs + n * bs \<le> length (image (transport s))" "length b = n * bs"
  shows "\<exists>s'. write_blocks T lba n b s = (Inr (n * bs), s')
    \<and> dev_ready cap s' \<and> image (transport s') = put (image (transport s)) (lba * bs) b"
proof -
  let ?cdb = "rw_cdb OP_WRITE_10 OP_WRITE_16 lba n"
  have r: "idle (transport s)" "dev_capacity s = cap" "block_size cap = bs" "next_tag s < 2 ^ 32"
    using assms(1) by (simp_all add: dev_ready_def)
  obtain t1 where t1: "bt_write T (cbw_bytes (next_tag s) (n * bs) DirOut ?cdb) (transport s) = (Inr CBW_LEN, t1)"
    "image t1 = image (transport s)" "receiving t1 (lba * bs) (n * bs) [] (csw_bytes (next_tag s) 0 0)"
    using write_command [OF r(1) assms(2-4) r(4)] by blast
  let ?s1 = "announced (hd ?cdb) (n * bs) DirOut t1 s"
  have d: "b \<noteq> []" "0 < length b" using assms target_geometry [OF r(1)] by auto
  have "\<exists>t'. data_out T b 0 ?s1 = (Inr (length b), ?s1\<lparr>transport := t'\<rparr>)
      \<and> image t' = put (image (transport ?s1)) (lba * bs) b \<and> sending t' [] (csw_bytes (next_tag s) 0 0)"
    by (rule data_out_all [where want = "n * bs" and got = "[]"]) (use t1(3) d(2) assms(5) in simp_all)
  then obtain t2 where t2: "data_out T b 0 ?s1 = (Inr (n * bs), ?s1\<lparr>transport := t2\<rparr>)"
    "image t2 = put (image t1) (lba * bs) b" "sending t2 [] (csw_bytes (next_tag s) 0 0)"
    unfolding assms(5) transport_announced by blast
  obtain t3 where t3: "status_phase T (next_tag s) (?s1\<lparr>transport := t2\<rparr>)
      = (Inr \<lparr>csw_tag = next_tag s, data_residue = 0, status = Passed\<rparr>, ?s1\<lparr>transport := t3\<rparr>)"
    "image t3 = image t2" "idle t3"
    using status_phase_ok [of "?s1\<lparr>transport := t2\<rparr>"] t2(3) r(4) by auto
  have "command_phase T ?cdb DirOut (length b) s = (Inr (hd ?cdb, next_tag s), ?s1)"
    using command_phase_sent [OF length_rw_cdb small_transfer [OF r(1) assms(3)] t1(1)] assms(5) by simp
  from command_out_passed [OF this d(1) t2(1) t3(1)] show ?thesis
    using r t1(2) t2(2) t3(2,3) assms(5)
    by (simp add: write_blocks_def Let_def dev_ready_def record_ev_def announced_def)
qed

end

sublocale bot_target \<subseteq> dev: block_io "read_blocks T" "write_blocks T" "\<lambda>s. image (transport s)" "dev_ready cap" bs maxb for cap
proof (unfold_locales, goal_cases)
  case (1 s)
  then show ?case using target_geometry [of "transport s"] by (simp add: dev_ready_def)
next
  case 2
  then show ?case by (rule read_blocks_ok)
next
  case 3
  then show ?case by (rule write_blocks_ok)
qed

section \<open>Byte addressed access to a target\<close>

lemma max_blocks_of_pos: "0 < max_blocks_of mt bs"
  by (simp add: max_blocks_of_def)

context bot_target
begin

text \<open>A device whose probed capacity is the size of the target's image.\<close>

definition mounted :: "'t scsi_dev \<Rightarrow> bool" where
  "mounted s \<longleftrightarrow> dev_ready (dev_capacity s) s \<and> capacity_bytes (dev_capacity s) = length (image (transport s))"

lemma mounted_facts:
  assumes "mounted s"
  shows "dev_ready (dev_capacity s) s" "capacity_bytes (dev_capacity s) = length (image (transport s))"
    "block_size (dev_capacity s) = bs" "length (image (transport s)) < 2 ^ 64"
    "maxb = max_blocks_of (bt_max_transfer T (transport s)) bs"
  using assms target_geometry [of "transport s"] by (auto simp: mounted_def dev_ready_def)

lemma mountedI: "dev_ready cap s \<Longrightarrow> capacity_bytes cap = length (image (transport s)) \<Longrightarrow> mounted s"
  by (auto simp: mounted_def dev_ready_def)

lemma scsi_read_at_exact:
  assumes "mounted s" "offset + length buf \<le> length (image (transport s))"
  shows "\<exists>s'. scsi_read_at T offset buf s = (Inr (slice (image (transport s)) offset (length buf)), s')
    \<and> mounted s' \<and> image (transport s') = image (transport s)"
proof (cases "buf = []")
  case True
  then show ?thesis using assms(1) by (simp add: scsi_read_at_def slice_def)
next
  case False
  note m = mounted_facts [OF assms(1)]
  have "\<exists>s'. read_loop (read_blocks T) bs maxb offset (replicate (maxb * bs) 0) 0 buf s
      = (Inr (put buf 0 (slice (image (transport s)) (offset + 0) (length buf - 0))), s')
      \<and> dev_ready (dev_capacity s) s' \<and> image (transport s') = image (transport s)"
    by (rule dev.read_loop_correct) (use m assms(2) in auto)
  then obtain s' where "read_loop (read_blocks T) bs maxb offset (replicate (maxb * bs) 0) 0 buf s
      = (Inr (put buf 0 (slice (image (transport s)) offset (length buf))), s')"
    "dev_ready (dev_capacity s) s'" "image (transport s') = image (transport s)"
    by auto
  moreover have "put buf 0 (slice (image (transport s)) offset (length buf)) = slice (image (transport s)) offset (length buf)"
    using assms(2) by (simp add: put_def)
  moreover have "checked_add64 offset (length buf) = Some (offset + length buf)"
    using m(4) assms(2) by (simp add: checked_add64_def)
  ultimately show ?thesis
    using False m(2,3,5) assms(2) mountedI [of "dev_capacity s" s'] by (simp add: scsi_read_at_def Let_def)
qed

lemma scsi_write_at_exact:
  assumes "mounted s" "offset + length buf \<le> length (image (transport s))"
  shows "\<exists>s'. scsi_write_at T offset buf s = (Inr (), s') \<and> mounted s'
    \<and> image (transport s') = put (image (transport s)) offset buf"
proof (cases "buf = []")
  case True
  then show ?thesis using assms by (simp add: scsi_write_at_def put_def)
next
  case False
  note m = mounted_facts [OF assms(1)]
  have "\<exists>s'. write_loop (read_blocks T) (write_blocks T) bs maxb offset 0 buf s = (Inr (), s')
      \<and> dev_ready (dev_capacity s) s' \<and> image (transport s') = put (image (transport s)) (offset + 0) (drop 0 buf)"
    by (rule dev.write_loop_correct) (use m assms(2) in auto)
  then obtain s' where "write_loop (read_blocks T) (write_blocks T) bs maxb offset 0 buf s = (Inr (), s')"
    "dev_ready (dev_capacity s) s'" "image (transport s') = put (image (transport s)) offset buf"
    by auto
  moreover have "checked_add64 offset (length buf) = Some (offset + length buf)"
    using m(4) assms(2) by (simp add: checked_add64_def)
  ultimately show ?thesis
    using False m(2,3,5) assms(2) mountedI [of "dev_capacity s" s'] by (simp add: scsi_write_at_def Let_def)
qed

end

end
