(* ===== verification/Mock_Drive.thy ===== *)
theory Mock_Drive
  imports Bot_Target
begin

unbundle bit_operations_syntax

text \<open>
  The repository's own model of a USB mass storage drive, \<open>MockUsbDrive\<close> of \<open>core/tests/common/mod.rs\<close>:
  a phase machine that speaks Bulk-Only Transport over a disk image, hands data over in pieces of at
  most \<open>max_transfer\<close> bytes and phase-errors when a command contradicts itself. It is the drive the SCSI
  layer is tested against, and here the drive on which the interfaces of the stack are interpreted.
\<close>

record mock_stats =
  commands :: nat
  read_commands :: nat
  bytes_read :: nat
  largest_read_blocks :: nat
  write_commands :: nat
  bytes_written :: nat
  largest_write_blocks :: nat
  sync_commands :: nat

datatype mock_phase =
    MIdle
  | MDataIn bytes nat
  | MDataOut nat nat bytes nat
  | MCsw nat

record mock_drive =
  image :: bytes
  mock_block_size :: nat
  mock_max_transfer :: nat
  phase :: mock_phase
  csw_out :: bytes
  stats :: mock_stats
  force_rc16 :: bool
  fail_opcodes :: "byte list"
  mock_sense :: "byte \<times> byte \<times> byte"
  pending_fail :: bool

definition mock_new :: "bytes \<Rightarrow> mock_drive" where
  "mock_new img =
     \<lparr>image = img, mock_block_size = 512, mock_max_transfer = 128 * 1024, phase = MIdle,
      csw_out = replicate CSW_LEN 0,
      stats = \<lparr>commands = 0, read_commands = 0, bytes_read = 0, largest_read_blocks = 0, write_commands = 0,
               bytes_written = 0, largest_write_blocks = 0, sync_commands = 0\<rparr>,
      force_rc16 = False, fail_opcodes = [], mock_sense = (0, 0, 0), pending_fail = False\<rparr>"

definition mock_failing :: "byte \<Rightarrow> byte \<times> byte \<times> byte \<Rightarrow> mock_drive \<Rightarrow> mock_drive" where
  "mock_failing opcode sns m = m\<lparr>fail_opcodes := fail_opcodes m @ [opcode], mock_sense := sns\<rparr>"

definition with_block_size :: "nat \<Rightarrow> mock_drive \<Rightarrow> mock_drive" where
  "with_block_size n m = m\<lparr>mock_block_size := n\<rparr>"

definition with_max_transfer :: "nat \<Rightarrow> mock_drive \<Rightarrow> mock_drive" where
  "with_max_transfer n m = m\<lparr>mock_max_transfer := n\<rparr>"

definition mock_blocks :: "mock_drive \<Rightarrow> nat" where
  "mock_blocks m = length (image m) div mock_block_size m"

definition set_csw :: "nat \<Rightarrow> nat \<Rightarrow> byte \<Rightarrow> mock_drive \<Rightarrow> mock_drive" where
  "set_csw tag residue st m =
     m\<lparr>csw_out := (put (put (put (replicate CSW_LEN 0) 0 (le_bytes 4 CSW_SIGNATURE)) 4 (le_bytes 4 tag)) 8
                    (le_bytes 4 residue))[12 := st]\<rparr>"

definition to_csw :: "nat \<Rightarrow> nat \<Rightarrow> byte \<Rightarrow> mock_drive \<Rightarrow> unit result \<times> mock_drive" where
  "to_csw tag residue st m = (Inr (), (set_csw tag residue st m)\<lparr>phase := MCsw 0\<rparr>)"

text \<open>The end of \<open>execute\<close>: the answer's data phase, if any, then status 0 with the residue.\<close>

definition answer :: "nat \<Rightarrow> nat \<Rightarrow> bytes \<Rightarrow> mock_drive \<Rightarrow> unit result \<times> mock_drive" where
  "answer tag expected_len data m =
     (Inr (), (set_csw tag (expected_len - length data) 0 m)
        \<lparr>phase := (if data = [] then MCsw 0 else MDataIn data 0)\<rparr>)"

text \<open>The range of a READ or WRITE command block, in the 10 or the 16 byte form; indexing a command
  block that is too short panics.\<close>

definition cdb_range :: "byte \<Rightarrow> bytes \<Rightarrow> (nat \<times> nat) option" where
  "cdb_range op10 cdb =
     (if cdb ! 0 = op10
      then if length cdb < 9 then None else Some (be_val (slice cdb 2 4), be_val (slice cdb 7 2))
      else if length cdb < 14 then None else Some (be_val (slice cdb 2 8), be_val (slice cdb 10 4)))"

definition mock_inquiry_data :: bytes where
  "mock_inquiry_data = [0, 0x80, 0, 2, 31, 0, 0, 0]
     @ [0x4D, 0x4F, 0x43, 0x4B, 0x56, 0x45, 0x4E, 0x44]
     @ [0x4D, 0x4F, 0x43, 0x4B, 0x20, 0x55, 0x53, 0x42, 0x20, 0x44, 0x49, 0x53, 0x4B, 0x20, 0x20, 0x20]
     @ [0x31, 0x2E, 0x30, 0x30]"

definition mock_read :: "bytes \<Rightarrow> nat \<Rightarrow> nat \<Rightarrow> mock_drive \<Rightarrow> unit result \<times> mock_drive" where
  "mock_read cdb tag expected_len m =
     (case cdb_range 0x28 cdb of
        None \<Rightarrow> (Inl Panic, m)
      | Some (lba, count) \<Rightarrow>
          let start = mul64 lba (mock_block_size m);
              len = mul64 count (mock_block_size m)
          in if add64 start len > length (image m) then to_csw tag expected_len 1 m
             else answer tag expected_len (slice (image m) start len)
                (m\<lparr>stats := (stats m)\<lparr>read_commands := read_commands (stats m) + 1,
                    bytes_read := bytes_read (stats m) + len,
                    largest_read_blocks := max (largest_read_blocks (stats m)) count\<rparr>\<rparr>))"

definition mock_write :: "bytes \<Rightarrow> nat \<Rightarrow> nat \<Rightarrow> mock_drive \<Rightarrow> unit result \<times> mock_drive" where
  "mock_write cdb tag expected_len m =
     (case cdb_range 0x2A cdb of
        None \<Rightarrow> (Inl Panic, m)
      | Some (lba, count) \<Rightarrow>
          let start = mul64 lba (mock_block_size m);
              len = mul64 count (mock_block_size m)
          in if add64 start len > length (image m) then to_csw tag expected_len 1 m
             else if expected_len \<noteq> len then to_csw tag expected_len 2 m
             else (Inr (), set_csw tag 0 0 (m\<lparr>phase := MDataOut start len [] count\<rparr>)))"

definition execute :: "bytes \<Rightarrow> nat \<Rightarrow> nat \<Rightarrow> byte \<Rightarrow> mock_drive \<Rightarrow> unit result \<times> mock_drive" where
  "execute cdb tag expected_len flags m =
     (let m = m\<lparr>stats := (stats m)\<lparr>commands := commands (stats m) + 1\<rparr>\<rparr> in
      if cdb = [] then (Inl Panic, m)
      else
        let op = cdb ! 0;
            host_expects_in = (flags AND 0x80 \<noteq> 0);
            wants_in = (op \<in> {0x12, 0x03, 0x25, 0x9E, 0x28, 0x88});
            wants_out = (op \<in> {0x2A, 0x8A})
        in if expected_len > 0 \<and> wants_in \<and> \<not> host_expects_in then to_csw tag expected_len 2 m
           else if wants_out \<and> host_expects_in then to_csw tag expected_len 2 m
           else if op \<in> set (fail_opcodes m) then
             (let m = set_csw tag expected_len 1 m in
              if expected_len > 0 \<and> wants_out
              then (Inr (), m\<lparr>pending_fail := True, phase := MDataOut 0 expected_len [] 0\<rparr>)
              else if expected_len > 0 \<and> wants_in
              then (Inr (), m\<lparr>phase := MDataIn (replicate expected_len 0) 0\<rparr>)
              else (Inr (), m\<lparr>phase := MCsw 0\<rparr>))
           else if op = 0x12 then answer tag expected_len mock_inquiry_data m
           else if op = 0x00 then answer tag expected_len [] m
           else if op = 0x03 then
             (let (k, a, q) = mock_sense m in
              answer tag expected_len ((replicate 18 0)[0 := 0x70, 2 := k, 7 := 10, 12 := a, 13 := q]) m)
           else if op = 0x25 then
             (if mock_block_size m = 0 then (Inl Panic, m)
              else
                let last = sub64 (mock_blocks m) 1;
                    reported = (if force_rc16 m \<or> last > u32_max then u32_max else last)
                in answer tag expected_len (be_bytes 4 reported @ be_bytes 4 (mock_block_size m)) m)
           else if op = 0x9E then
             (if mock_block_size m = 0 then (Inl Panic, m)
              else answer tag expected_len
                (be_bytes 8 (sub64 (mock_blocks m) 1) @ be_bytes 4 (mock_block_size m) @ replicate 20 0) m)
           else if op = 0x28 \<or> op = 0x88 then mock_read cdb tag expected_len m
           else if op = 0x2A \<or> op = 0x8A then mock_write cdb tag expected_len m
           else if op = 0x35 \<or> op = 0x91 then
             answer tag expected_len [] (m\<lparr>stats := (stats m)\<lparr>sync_commands := sync_commands (stats m) + 1\<rparr>\<rparr>)
           else to_csw tag expected_len 1 m)"

definition mock_bt_write :: "bytes \<Rightarrow> mock_drive \<Rightarrow> nat result \<times> mock_drive" where
  "mock_bt_write data m =
     (case phase m of
        MDataOut at want got nblocks \<Rightarrow>
          (let n = min (min (length data) (want - length got)) (mock_max_transfer m);
               got = got @ take n data
           in if length got = want then
                let m = m\<lparr>phase := MCsw 0\<rparr> in
                if pending_fail m then (Inr n, m\<lparr>pending_fail := False\<rparr>)
                else (Inr n, m\<lparr>image := put (image m) at got,
                        stats := (stats m)\<lparr>write_commands := write_commands (stats m) + 1,
                          bytes_written := bytes_written (stats m) + length got,
                          largest_write_blocks := max (largest_write_blocks (stats m)) nblocks\<rparr>\<rparr>)
              else (Inr n, m\<lparr>phase := MDataOut at want got nblocks\<rparr>))
      | _ \<Rightarrow>
          if length data < CBW_LEN then (Inl (UsbTransfer ''short CBW''), m)
          else if le_val (slice data 0 4) \<noteq> CBW_SIGNATURE then (Inl (UsbTransfer ''bad CBW signature''), m)
          else
            let tag = le_val (slice data 4 4);
                expected_len = le_val (slice data 8 4);
                cdb_len = unat (data ! 14);
                cdb = slice data 15 (min cdb_len 16)
            in case execute cdb tag expected_len (data ! 12) m of
                (Inl e, m) \<Rightarrow> (Inl e, m)
              | (Inr _, m) \<Rightarrow> (Inr CBW_LEN, m))"

definition mock_bt_read :: "nat \<Rightarrow> mock_drive \<Rightarrow> bytes result \<times> mock_drive" where
  "mock_bt_read k m =
     (case phase m of
        MIdle \<Rightarrow> (Inr [], m)
      | MDataOut _ _ _ _ \<Rightarrow> (Inr [], m)
      | MDataIn data pos \<Rightarrow>
          (let n = min (min (length data - pos) k) (mock_max_transfer m) in
           (Inr (slice data pos n),
            m\<lparr>phase := (if pos + n = length data then MCsw 0 else MDataIn data (pos + n))\<rparr>))
      | MCsw pos \<Rightarrow>
          (let n = min (CSW_LEN - pos) k in
           (Inr (slice (csw_out m) pos n),
            m\<lparr>phase := (if pos + n = CSW_LEN then MIdle else MCsw (pos + n))\<rparr>)))"

text \<open>\<open>clear_halt\<close> and \<open>reset\<close> are the trait's defaults, which do nothing and succeed.\<close>

definition mock_usb :: "mock_drive bulk_transport" where
  "mock_usb = \<lparr>bt_write = mock_bt_write, bt_read = mock_bt_read, bt_max_transfer = mock_max_transfer,
     bt_clear_halt = (\<lambda>_ m. (Inr (), m)), bt_reset = (\<lambda>m. (Inr (), m))\<rparr>"

section \<open>The mock drive is a target\<close>

definition mock_ok :: "nat \<Rightarrow> nat \<Rightarrow> mock_drive \<Rightarrow> bool" where
  "mock_ok bs maxb m \<longleftrightarrow> mock_block_size m = bs \<and> 0 < bs \<and> 0 < maxb \<and> maxb * bs < 2 ^ 32 \<and> bs dvd length (image m)
     \<and> length (image m) < 2 ^ 64 \<and> 0 < mock_max_transfer m \<and> \<not> pending_fail m
     \<and> maxb = max_blocks_of (mock_max_transfer m) bs
     \<and> fail_opcodes m = []"

definition mock_idle :: "nat \<Rightarrow> nat \<Rightarrow> mock_drive \<Rightarrow> bool" where
  "mock_idle bs maxb m \<longleftrightarrow> mock_ok bs maxb m \<and> phase m = MIdle"

definition mock_sending :: "nat \<Rightarrow> nat \<Rightarrow> mock_drive \<Rightarrow> bytes \<Rightarrow> bytes \<Rightarrow> bool" where
  "mock_sending bs maxb m d c \<longleftrightarrow> mock_ok bs maxb m \<and> length (csw_out m) = CSW_LEN
     \<and> (if d = [] then \<exists>pos \<le> CSW_LEN. phase m = MCsw pos \<and> drop pos (csw_out m) = c
        else \<exists>data pos. phase m = MDataIn data pos \<and> drop pos data = d \<and> csw_out m = c)"

definition mock_receiving :: "nat \<Rightarrow> nat \<Rightarrow> mock_drive \<Rightarrow> nat \<Rightarrow> nat \<Rightarrow> bytes \<Rightarrow> bytes \<Rightarrow> bool" where
  "mock_receiving bs maxb m at want got c \<longleftrightarrow> mock_ok bs maxb m \<and> length (csw_out m) = CSW_LEN \<and> csw_out m = c
     \<and> at + want \<le> length (image m) \<and> (\<exists>nb. phase m = MDataOut at want got nb)"

lemma mock_ok_phase [simp]:
  "mock_ok bs maxb (m\<lparr>phase := p\<rparr>) = mock_ok bs maxb m" "mock_ok bs maxb (m\<lparr>csw_out := c\<rparr>) = mock_ok bs maxb m"
  "mock_ok bs maxb (m\<lparr>stats := st\<rparr>) = mock_ok bs maxb m"
  by (simp_all add: mock_ok_def)

lemma mock_send_data:
  assumes "mock_sending bs maxb m d c" "d \<noteq> []" "0 < k"
  shows "\<exists>n m'. 0 < n \<and> n \<le> k \<and> n \<le> length d \<and> mock_bt_read k m = (Inr (take n d), m')
    \<and> image m' = image m \<and> mock_sending bs maxb m' (drop n d) c"
proof -
  obtain data pos where p: "phase m = MDataIn data pos" "drop pos data = d" "csw_out m = c"
    and ok: "mock_ok bs maxb m" "length c = CSW_LEN"
    using assms(1,2) by (auto simp: mock_sending_def)
  define n where "n = min (min (length data - pos) k) (mock_max_transfer m)"
  have ld: "length d = length data - pos" using p(2) by auto
  have n: "0 < n" "n \<le> k" "n \<le> length d"
    using assms(3) ok(1) ld length_greater_0_conv [of d] assms(2) by (simp_all add: n_def mock_ok_def)
  have pos: "pos + length d = length data" using ld assms(2) by (cases d) auto
  let ?m' = "m\<lparr>phase := (if pos + n = length data then MCsw 0 else MDataIn data (pos + n))\<rparr>"
  have "mock_bt_read k m = (Inr (take n d), ?m')"
    using p by (simp add: mock_bt_read_def n_def Let_def slice_def)
  moreover have "mock_sending bs maxb ?m' (drop n d) c"
  proof (cases "n = length d")
    case True
    then show ?thesis using pos ok p(3) by (simp add: mock_sending_def CSW_LEN_def)
  next
    case False
    then show ?thesis using pos ok p n by (auto simp: mock_sending_def add.commute)
  qed
  ultimately show ?thesis using n by auto
qed

lemma mock_send_status:
  assumes "mock_sending bs maxb m [] c" "c \<noteq> []" "0 < k"
  shows "\<exists>n m'. 0 < n \<and> n \<le> k \<and> n \<le> length c \<and> mock_bt_read k m = (Inr (take n c), m') \<and> image m' = image m
    \<and> (if n = length c then mock_idle bs maxb m' else mock_sending bs maxb m' [] (drop n c))"
proof -
  obtain pos where p: "pos \<le> CSW_LEN" "phase m = MCsw pos" "drop pos (csw_out m) = c"
    and ok: "mock_ok bs maxb m" "length (csw_out m) = CSW_LEN"
    using assms(1) by (auto simp: mock_sending_def)
  define n where "n = min (CSW_LEN - pos) k"
  have lc: "length c = CSW_LEN - pos" using p(3) ok(2) by auto
  have n: "0 < n" "n \<le> k" "n \<le> length c" using assms(2,3) lc length_greater_0_conv [of c] by (simp_all add: n_def)
  let ?m' = "m\<lparr>phase := (if pos + n = CSW_LEN then MIdle else MCsw (pos + n))\<rparr>"
  have "mock_bt_read k m = (Inr (take n c), ?m')"
    using p by (simp add: mock_bt_read_def n_def Let_def slice_def)
  moreover have "if n = length c then mock_idle bs maxb ?m' else mock_sending bs maxb ?m' [] (drop n c)"
    using p ok n lc by (auto simp: mock_idle_def mock_sending_def add.commute)
  moreover have "image ?m' = image m" by simp
  ultimately show ?thesis using n by blast
qed

lemma mock_receive_data:
  assumes "mock_receiving bs maxb m at want got c" "length got < want" "d \<noteq> []" "length d \<le> want - length got"
  shows "\<exists>n m'. 0 < n \<and> n \<le> length d \<and> mock_bt_write d m = (Inr n, m')
    \<and> (if length got + n = want then image m' = put (image m) at (got @ take n d) \<and> mock_sending bs maxb m' [] c
       else image m' = image m \<and> mock_receiving bs maxb m' at want (got @ take n d) c)"
proof -
  obtain nb where p: "phase m = MDataOut at want got nb" "csw_out m = c" "at + want \<le> length (image m)"
    and ok: "mock_ok bs maxb m" "length c = CSW_LEN"
    using assms(1) by (auto simp: mock_receiving_def)
  define n where "n = min (min (length d) (want - length got)) (mock_max_transfer m)"
  have n: "0 < n" "n \<le> length d" using assms(2-4) ok(1) by (auto simp: n_def mock_ok_def)
  define got' where "got' = got @ take n d"
  have g: "length got' = length got + n" using n(2) by (simp add: got'_def)
  show ?thesis
  proof (cases "length got + n = want")
    case True
    have "mock_bt_write d m = (Inr n, m\<lparr>phase := MCsw 0, image := put (image m) at got',
        stats := (stats m)\<lparr>write_commands := write_commands (stats m) + 1,
          bytes_written := bytes_written (stats m) + length got',
          largest_write_blocks := max (largest_write_blocks (stats m)) nb\<rparr>\<rparr>)"
      using p True g ok(1)
      by (simp add: mock_bt_write_def Let_def n_def [symmetric] got'_def [symmetric] mock_ok_def)
    moreover have "length (put (image m) at got') = length (image m)" using True g p(3) by simp
    ultimately show ?thesis
      using n True ok p(2) by (auto simp: got'_def [symmetric] mock_sending_def mock_ok_def)
  next
    case False
    have "mock_bt_write d m = (Inr n, m\<lparr>phase := MDataOut at want got' nb\<rparr>)"
      using p False g by (simp add: mock_bt_write_def Let_def n_def [symmetric] got'_def [symmetric])
    then show ?thesis using n False ok p by (auto simp: got'_def [symmetric] mock_receiving_def)
  qed
qed

subsection \<open>Commands the mock drive accepts\<close>

lemma mock_accepts:
  assumes "phase m = MIdle" "0 < length cdb" "length cdb \<le> 16" "tg < 2 ^ 32" "len < 2 ^ 32"
  shows "mock_bt_write (cbw_bytes tg len dir cdb) m =
    (case execute cdb tg len (dir_flags dir) m of (Inl e, m) \<Rightarrow> (Inl e, m) | (Inr _, m) \<Rightarrow> (Inr CBW_LEN, m))"
proof -
  let ?b = "cbw_bytes tg len dir cdb"
  have "unat (?b ! 14) = length cdb" "?b ! 12 = dir_flags dir" "slice ?b 15 (length cdb) = cdb"
    using assms(3) by (simp_all add: cbw_bytes_def nth_append unat_of_nat bytes_simps)
  moreover have "le_val (slice ?b 0 4) = CBW_SIGNATURE" "le_val (slice ?b 4 4) = tg" "le_val (slice ?b 8 4) = len"
    using assms(4,5) by (simp_all add: cbw_bytes_def bytes_simps bot_consts)
  ultimately show ?thesis
    using assms length_cbw_bytes [OF assms(3)] by (simp add: mock_bt_write_def CBW_LEN_def Let_def min_def)
qed

lemma set_csw_eq: "set_csw tg residue st m = m\<lparr>csw_out := csw_bytes tg residue st\<rparr>"
proof -
  have "put (put (put (replicate 13 0) 0 (le_bytes 4 CSW_SIGNATURE)) 4 (le_bytes 4 tg)) 8 (le_bytes 4 residue)
      = (le_bytes 4 CSW_SIGNATURE @ le_bytes 4 tg @ le_bytes 4 residue) @ [0]"
    by (simp add: put_zeros_first put_zeros del: append_assoc)
  then show ?thesis
    by (simp add: set_csw_def CSW_LEN_def csw_bytes_def list_update_append del: append_assoc)
qed

lemma cdb_range_rw:
  assumes "0 < n" "n < 2 ^ 32" "lba < 2 ^ 64" "op10 \<noteq> op16"
  shows "cdb_range op10 (rw_cdb op10 op16 lba n) = Some (lba, n)"
    "rw_cdb op10 op16 lba n ! 0 = (if needs_16 lba n then op16 else op10)"
proof -
  have small: "lba < 2 ^ 32" "n < 2 ^ 16" if "\<not> needs_16 lba n"
    using that assms(1) by (auto simp: needs_16_def scsi_limits checked_add64_def split: if_splits)
  have "put (put ((replicate 16 0)[0 := op16]) 2 (be_bytes 8 lba)) 10 (be_bytes 4 n)
      = [op16, 0] @ be_bytes 8 lba @ be_bytes 4 n @ [0, 0]"
    "put (put ((replicate 10 0)[0 := op10]) 2 (be_bytes 4 lba)) 7 (be_bytes 2 n)
      = [op10, 0] @ be_bytes 4 lba @ [0] @ be_bytes 2 n @ [0]"
    by (simp_all add: put_def numeral_eq_Suc)
  then show "cdb_range op10 (rw_cdb op10 op16 lba n) = Some (lba, n)"
    "rw_cdb op10 op16 lba n ! 0 = (if needs_16 lba n then op16 else op10)"
    using assms small by (auto simp: rw_cdb_def cdb_range_def bytes_simps)
qed

lemma rw_in_range:
  assumes "mock_ok bs maxb m" "0 < n" "n \<le> maxb" "lba * bs + n * bs \<le> length (image m)"
  shows "lba < 2 ^ 64" "n < 2 ^ 32" "n * bs < 2 ^ 32" "mul64 lba bs = lba * bs" "mul64 n bs = n * bs"
    "add64 (lba * bs) (n * bs) = lba * bs + n * bs"
proof -
  have b: "0 < bs" "maxb * bs < 2 ^ 32" "length (image m) < 2 ^ 64" using assms(1) by (auto simp: mock_ok_def)
  have "lba * 1 \<le> lba * bs" "n * 1 \<le> n * bs" "n * bs \<le> maxb * bs" using b(1) assms(3) by (simp_all del: mult_1_right)
  then show "lba < 2 ^ 64" "n < 2 ^ 32" "n * bs < 2 ^ 32" using b assms(4) by linarith+
  show "mul64 lba bs = lba * bs" "mul64 n bs = n * bs" "add64 (lba * bs) (n * bs) = lba * bs + n * bs"
    using b assms(4) by (simp_all add: mul64_def add64_def)
qed

lemma mock_read_command:
  assumes "mock_idle bs maxb m" "0 < n" "n \<le> maxb" "lba * bs + n * bs \<le> length (image m)" "tg < 2 ^ 32"
  shows "\<exists>m'. mock_bt_write (cbw_bytes tg (n * bs) DirIn (rw_cdb OP_READ_10 OP_READ_16 lba n)) m = (Inr CBW_LEN, m')
    \<and> image m' = image m \<and> mock_sending bs maxb m' (slice (image m) (lba * bs) (n * bs)) (csw_bytes tg 0 0)"
proof -
  let ?cdb = "rw_cdb OP_READ_10 OP_READ_16 lba n" and ?d = "slice (image m) (lba * bs) (n * bs)"
  have ok: "mock_ok bs maxb m" "phase m = MIdle" using assms(1) by (auto simp: mock_idle_def)
  note g = rw_in_range [OF ok(1) assms(2-4)]
  have r: "cdb_range 0x28 ?cdb = Some (lba, n)" "?cdb ! 0 = (if needs_16 lba n then OP_READ_16 else OP_READ_10)" "?cdb \<noteq> []"
    using cdb_range_rw [OF assms(2) g(2,1), of OP_READ_10 OP_READ_16] length_rw_cdb(1) [of OP_READ_10 OP_READ_16 lba n]
    by (auto simp: scsi_ops)
  have d: "length ?d = n * bs" "?d \<noteq> []"
    using assms(2,4) ok(1) length_greater_0_conv [of ?d] by (simp_all add: mock_ok_def del: length_greater_0_conv)
  obtain st where "execute ?cdb tg (n * bs) (dir_flags DirIn) m
      = (Inr (), m\<lparr>stats := st, csw_out := csw_bytes tg 0 0, phase := MDataIn ?d 0\<rparr>)"
    using r g d assms(2,4) ok(1)
    by (auto simp: execute_def dir_flags_def scsi_ops mock_ok_def Let_def mock_read_def answer_def set_csw_eq)
  then show ?thesis
    using mock_accepts [OF ok(2) length_rw_cdb assms(5) g(3)] ok d
    by (auto simp: mock_sending_def CSW_LEN_def)
qed

lemma mock_write_command:
  assumes "mock_idle bs maxb m" "0 < n" "n \<le> maxb" "lba * bs + n * bs \<le> length (image m)" "tg < 2 ^ 32"
  shows "\<exists>m'. mock_bt_write (cbw_bytes tg (n * bs) DirOut (rw_cdb OP_WRITE_10 OP_WRITE_16 lba n)) m = (Inr CBW_LEN, m')
    \<and> image m' = image m \<and> mock_receiving bs maxb m' (lba * bs) (n * bs) [] (csw_bytes tg 0 0)"
proof -
  let ?cdb = "rw_cdb OP_WRITE_10 OP_WRITE_16 lba n"
  have ok: "mock_ok bs maxb m" "phase m = MIdle" using assms(1) by (auto simp: mock_idle_def)
  note g = rw_in_range [OF ok(1) assms(2-4)]
  have r: "cdb_range 0x2A ?cdb = Some (lba, n)" "?cdb ! 0 = (if needs_16 lba n then OP_WRITE_16 else OP_WRITE_10)" "?cdb \<noteq> []"
    using cdb_range_rw [OF assms(2) g(2,1), of OP_WRITE_10 OP_WRITE_16] length_rw_cdb(1) [of OP_WRITE_10 OP_WRITE_16 lba n]
    by (auto simp: scsi_ops)
  obtain st where "execute ?cdb tg (n * bs) (dir_flags DirOut) m
      = (Inr (), m\<lparr>stats := st, phase := MDataOut (lba * bs) (n * bs) [] n, csw_out := csw_bytes tg 0 0\<rparr>)"
    using r g assms(2,4) ok(1)
    by (auto simp: execute_def dir_flags_def scsi_ops mock_ok_def Let_def mock_write_def set_csw_eq)
  then show ?thesis
    using mock_accepts [OF ok(2) length_rw_cdb assms(5) g(3)] ok assms(4)
    by (auto simp: mock_receiving_def CSW_LEN_def)
qed

interpretation mock: bot_target mock_usb image "mock_idle bs maxb" "mock_sending bs maxb" "mock_receiving bs maxb" bs maxb
  for bs maxb :: nat
proof (unfold_locales, goal_cases)
  case (1 t)
  then show ?case by (auto simp: mock_idle_def mock_ok_def mock_usb_def)
qed (use mock_read_command mock_write_command mock_send_data mock_send_status mock_receive_data
     in \<open>simp_all add: mock_usb_def\<close>)

end
