(* ===== verification/Scsi_Stack.thy ===== *)
theory Scsi_Stack
  imports Mock_Drive
begin

unbundle bit_operations_syntax

text \<open>
  The SCSI stack from end to end: \<open>ScsiBlockDevice\<close> opened on the drive of \<open>Mock_Drive\<close>, its byte reads
  and writes, and what holds for every transport, also a misbehaving one: which requests are issued,
  when a write counts as done, and when a flush is skipped.
\<close>

section \<open>Opening the drive\<close>

text \<open>The device between two calls: the drive idle, its image as large as the probed capacity.\<close>

definition drive_ready :: "mock_drive scsi_dev \<Rightarrow> bool" where
  "drive_ready s \<longleftrightarrow>
     (let m = transport s; bs = block_size (dev_capacity s) in
      phase m = MIdle \<and> \<not> pending_fail m \<and> mock_block_size m = bs \<and> 0 < bs \<and> bs < 2 ^ 32 \<and> bs dvd length (image m)
      \<and> capacity_bytes (dev_capacity s) = length (image m) \<and> length (image m) < 2 ^ 64 \<and> 0 < mock_max_transfer m
      \<and> fail_opcodes m = [] \<and> next_tag s < 2 ^ 32)"

abbreviation drive_limit :: "mock_drive \<Rightarrow> nat \<Rightarrow> nat" where
  "drive_limit m bs \<equiv> max_blocks_of (mock_max_transfer m) bs"

lemma max_blocks_bytes: "0 < bs \<Longrightarrow> bs < 2 ^ 32 \<Longrightarrow> max_blocks_of mt bs * bs < 2 ^ 32"
proof -
  assume bs: "0 < bs" "bs < 2 ^ 32"
  have "min mt MAX_SCSI_TRANSFER div bs * bs \<le> min mt MAX_SCSI_TRANSFER" by (rule div_times_less_eq_dividend)
  then have a: "min mt MAX_SCSI_TRANSFER div bs * bs < 2 ^ 32" by (simp add: MAX_SCSI_TRANSFER_def)
  consider "max_blocks_of mt bs = 1" | "max_blocks_of mt bs \<le> min mt MAX_SCSI_TRANSFER div bs"
    by (cases "min mt MAX_SCSI_TRANSFER div bs") (auto simp: max_blocks_of_def READ10_MAX_BLOCKS_def)
  then show ?thesis
  proof cases
    case 2
    then have "max_blocks_of mt bs * bs \<le> min mt MAX_SCSI_TRANSFER div bs * bs" by (rule mult_le_mono1)
    then show ?thesis using a by linarith
  qed (use bs in simp)
qed

lemma drive_ready_mounted:
  assumes "drive_ready s"
  shows "mock.mounted (block_size (dev_capacity s)) (drive_limit (transport s) (block_size (dev_capacity s))) s"
  using assms max_blocks_bytes max_blocks_of_pos
  by (simp add: drive_ready_def mock.mounted_def mock.dev_ready_def mock_idle_def mock_ok_def Let_def)

lemma mounted_drive_ready:
  assumes "mock.mounted bs maxb s"
  shows "drive_ready s"
proof -
  note f = mock.mounted_facts [OF assms]
  have i: "mock_idle bs maxb (transport s)" "next_tag s < 2 ^ 32" using f(1) by (simp_all add: mock.dev_ready_def)
  then have "1 * bs \<le> maxb * bs" "maxb * bs < 2 ^ 32" unfolding mock_idle_def mock_ok_def by auto
  then have "bs < 2 ^ 32" by linarith
  then show ?thesis using i f by (simp add: drive_ready_def Let_def mock_idle_def mock_ok_def)
qed

lemma mock_answers:
  assumes "mock_idle bs maxb m" "tg < 2 ^ 32" "0 < length cdb" "length cdb \<le> 16" "len < 2 ^ 32"
    and "execute cdb tg len (dir_flags dir) m = answer tg len d (m\<lparr>stats := st\<rparr>)" "length d = len"
  shows "\<exists>m'. bt_write mock_usb (cbw_bytes tg len dir cdb) m = (Inr CBW_LEN, m')
    \<and> mock_sending bs maxb m' d (csw_bytes tg 0 0) \<and> image m' = image m"
proof -
  have ok: "mock_ok bs maxb m" "phase m = MIdle" using assms(1) by (auto simp: mock_idle_def)
  show ?thesis
    using mock_accepts [OF ok(2) assms(3,4,2,5)] assms(6,7) ok(1)
    by (auto simp: answer_def set_csw_eq mock_usb_def mock_sending_def CSW_LEN_def)
qed

text \<open>The three queries of \<open>open\<close> that move data, and the one that does not.\<close>

lemma mock_query:
  assumes "mock_idle bs maxb (transport s)" "next_tag s < 2 ^ 32" "0 < length cdb" "length cdb \<le> 16"
    and "b \<noteq> []" "length b < 2 ^ 32" "length d = length b"
    and "fail_opcodes (transport s) = [] \<Longrightarrow> mock_block_size (transport s) = bs \<Longrightarrow> 0 < bs \<Longrightarrow>
      execute cdb (next_tag s) (length b) (dir_flags DirIn) (transport s)
        = answer (next_tag s) (length b) d ((transport s)\<lparr>stats := (stats (transport s))\<lparr>commands := Suc (commands (stats (transport s)))\<rparr>\<rparr>)"
  shows "\<exists>s'. command mock_usb cdb DirIn b s = (Inr (length b, d), s') \<and> mock_idle bs maxb (transport s')
    \<and> image (transport s') = image (transport s) \<and> dev_capacity s' = dev_capacity s \<and> next_tag s' < 2 ^ 32"
proof -
  have "fail_opcodes (transport s) = []" "mock_block_size (transport s) = bs" "0 < bs"
    using assms(1) unfolding mock_idle_def mock_ok_def by auto
  with assms(8) obtain st where
    "execute cdb (next_tag s) (length b) (dir_flags DirIn) (transport s) = answer (next_tag s) (length b) d ((transport s)\<lparr>stats := st\<rparr>)"
    by blast
  from mock_answers [OF assms(1-4,6) this assms(7)] obtain m' where
    "bt_write mock_usb (cbw_bytes (next_tag s) (length b) DirIn cdb) (transport s) = (Inr CBW_LEN, m')"
    "mock_sending bs maxb m' d (csw_bytes (next_tag s) 0 0)" "image m' = image (transport s)"
    by blast
  with mock.command_in_ok [OF assms(2-4,6,5,7)] show ?thesis by metis
qed

lemma mock_test_unit_ready:
  assumes "mock_idle bs maxb (transport s)" "next_tag s < 2 ^ 32"
  shows "\<exists>s'. test_unit_ready mock_usb s = (Inr (), s') \<and> mock_idle bs maxb (transport s')
    \<and> image (transport s') = image (transport s) \<and> dev_capacity s' = dev_capacity s \<and> next_tag s' < 2 ^ 32"
proof -
  let ?cdb = "[OP_TEST_UNIT_READY, 0, 0, 0, 0, 0] :: bytes"
  have "fail_opcodes (transport s) = []" using assms(1) unfolding mock_idle_def mock_ok_def by auto
  then obtain st where "execute ?cdb (next_tag s) 0 (dir_flags DirNone) (transport s)
      = answer (next_tag s) 0 [] ((transport s)\<lparr>stats := st\<rparr>)"
    by (simp add: execute_def dir_flags_def OP_TEST_UNIT_READY_def Let_def)
  from mock_answers [OF assms(1,2) _ _ _ this] obtain m' where
    m': "bt_write mock_usb (cbw_bytes (next_tag s) 0 DirNone ?cdb) (transport s) = (Inr CBW_LEN, m')"
    "mock_sending bs maxb m' [] (csw_bytes (next_tag s) 0 0)" "image m' = image (transport s)"
    by auto
  have "0 < length ?cdb" "length ?cdb \<le> 16" by simp_all
  from mock.command_none_ok [OF assms(2) this m'(1,2)] obtain s' where
    "command mock_usb ?cdb DirNone [] s = (Inr (0, []), s')" "mock_idle bs maxb (transport s')"
    "image (transport s') = image (transport s)" "dev_capacity s' = dev_capacity s" "next_tag s' < 2 ^ 32"
    using m'(3) by auto
  then show ?thesis by (simp add: test_unit_ready_def)
qed

lemma mock_blocks_stats [simp]: "mock_blocks (m\<lparr>stats := st\<rparr>) = mock_blocks m"
  by (simp add: mock_blocks_def)

lemma length_mock_inquiry: "length mock_inquiry_data = 36"
  by (simp add: mock_inquiry_data_def)

lemma mock_inquiry:
  assumes "mock_idle bs maxb (transport s)" "next_tag s < 2 ^ 32"
  shows "\<exists>s' i. inquiry mock_usb s = (Inr i, s') \<and> is_block_device i \<and> mock_idle bs maxb (transport s')
    \<and> image (transport s') = image (transport s) \<and> dev_capacity s' = dev_capacity s \<and> next_tag s' < 2 ^ 32"
proof -
  let ?cdb = "(replicate 6 0)[0 := OP_INQUIRY, 4 := 36] :: bytes"
  have "\<exists>s'. command mock_usb ?cdb DirIn (replicate 36 0) s = (Inr (length (replicate 36 (0::byte)), mock_inquiry_data), s')
      \<and> mock_idle bs maxb (transport s') \<and> image (transport s') = image (transport s)
      \<and> dev_capacity s' = dev_capacity s \<and> next_tag s' < 2 ^ 32"
    by (rule mock_query [OF assms])
      (simp_all add: length_mock_inquiry execute_def dir_flags_def OP_INQUIRY_def Let_def)
  then obtain s' where "command mock_usb ?cdb DirIn (replicate 36 0) s = (Inr (36, mock_inquiry_data), s')"
    "mock_idle bs maxb (transport s')" "image (transport s') = image (transport s)" "dev_capacity s' = dev_capacity s"
    "next_tag s' < 2 ^ 32"
    by auto
  moreover have "\<exists>i. inquiry_parse mock_inquiry_data = Inr i \<and> is_block_device i"
    by (simp add: inquiry_parse_def mock_inquiry_data_def is_block_device_def)
  ultimately show ?thesis by (auto simp: inquiry_def)
qed

lemma mock_read_capacity:
  assumes "mock_idle bs maxb (transport s)" "next_tag s < 2 ^ 32" "bs < 2 ^ 32" "image (transport s) \<noteq> []"
  shows "\<exists>s'. read_capacity mock_usb s = (Inr \<lparr>blocks = length (image (transport s)) div bs, block_size = bs\<rparr>, s')
    \<and> mock_idle bs maxb (transport s') \<and> image (transport s') = image (transport s) \<and> next_tag s' < 2 ^ 32"
proof -
  define n where "n = length (image (transport s)) div bs"
  have i: "0 < bs" "bs dvd length (image (transport s))" "length (image (transport s)) < 2 ^ 64"
    "mock_block_size (transport s) = bs"
    using assms(1) unfolding mock_idle_def mock_ok_def by auto
  have len: "n * bs = length (image (transport s))" using i(2) by (simp add: n_def)
  have "0 < n" using len assms(4) by (cases n) auto
  moreover have "n < 2 ^ 64"
    using i(3) div_le_dividend [of "length (image (transport s))" bs] unfolding n_def by linarith
  ultimately have n: "0 < n" "n < 2 ^ 64" .
  then have last: "sub64 (mock_blocks (transport s)) (Suc 0) = n - 1"
    using i(4) sub64_small [of 1 n] by (simp add: mock_blocks_def n_def [symmetric])
  let ?cdb10 = "(replicate 10 0)[0 := OP_READ_CAPACITY_10] :: bytes"
  define rep where "rep = (if force_rc16 (transport s) \<or> n - 1 > u32_max then u32_max else n - 1)"
  define d where "d = be_bytes 4 rep @ be_bytes 4 bs"
  have "\<exists>s'. command mock_usb ?cdb10 DirIn (replicate 8 0) s = (Inr (length (replicate 8 (0::byte)), d), s')
      \<and> mock_idle bs maxb (transport s') \<and> image (transport s') = image (transport s)
      \<and> dev_capacity s' = dev_capacity s \<and> next_tag s' < 2 ^ 32"
    by (rule mock_query [OF assms(1,2)])
      (simp_all add: d_def rep_def execute_def dir_flags_def OP_READ_CAPACITY_10_def Let_def last)
  then obtain s1 where s1: "command mock_usb ?cdb10 DirIn (replicate 8 0) s = (Inr (8, d), s1)"
    "mock_idle bs maxb (transport s1)" "image (transport s1) = image (transport s)" "next_tag s1 < 2 ^ 32"
    by auto
  have rep: "rep < 2 ^ 32" by (simp add: rep_def u32_max_def)
  have d: "be_val (slice d 0 4) = rep" "be_val (slice d 4 4) = bs"
    using rep assms(3) by (simp_all add: d_def bytes_simps)
  show ?thesis
  proof (cases "rep = u32_max")
    case False
    then have "rep = n - 1" by (simp add: rep_def split: if_splits)
    then show ?thesis using s1 d False n(1) by (simp add: read_capacity_def Let_def n_def [symmetric])
  next
    case True
    let ?cdb16 = "(replicate 16 0)[0 := OP_READ_CAPACITY_16, 1 := SA_READ_CAPACITY_16, 13 := 32] :: bytes"
    define e where "e = be_bytes 8 (n - 1) @ be_bytes 4 bs @ replicate 20 0"
    have last1: "sub64 (mock_blocks (transport s1)) (Suc 0) = n - 1" "mock_block_size (transport s1) = bs"
      using s1(2,3) last i(4) unfolding mock_idle_def mock_ok_def mock_blocks_def by auto
    have "\<exists>s'. command mock_usb ?cdb16 DirIn (replicate 32 0) s1 = (Inr (length (replicate 32 (0::byte)), e), s')
        \<and> mock_idle bs maxb (transport s') \<and> image (transport s') = image (transport s1)
        \<and> dev_capacity s' = dev_capacity s1 \<and> next_tag s' < 2 ^ 32"
      by (rule mock_query [OF s1(2,4)])
        (simp_all add: e_def execute_def dir_flags_def OP_READ_CAPACITY_16_def Let_def last1)
    moreover have "be_val (slice e 0 8) = n - 1" "be_val (slice e 8 4) = bs"
      using n assms(3) by (simp_all add: e_def bytes_simps)
    ultimately show ?thesis
      using s1 d True n i(3) len
      by (auto simp: read_capacity_def read_capacity_16_def Let_def checked_add64_def checked_mul64_def n_def [symmetric])
  qed
qed

definition openable :: "mock_drive \<Rightarrow> bool" where
  "openable m \<longleftrightarrow> phase m = MIdle \<and> \<not> pending_fail m \<and> fail_opcodes m = [] \<and> is_power_of_two (mock_block_size m)
     \<and> mock_block_size m < 2 ^ 32 \<and> image m \<noteq> [] \<and> mock_block_size m dvd length (image m) \<and> length (image m) < 2 ^ 64
     \<and> 0 < mock_max_transfer m"

lemma scsi_open_ok:
  assumes "openable m"
  shows "\<exists>s. scsi_open mock_usb m = (Inr s, s) \<and> drive_ready s \<and> image (transport s) = image m"
proof -
  define bs where "bs = mock_block_size m"
  define maxb where "maxb = drive_limit m bs"
  define s0 where "s0 = \<lparr>transport = m, dev_capacity = \<lparr>blocks = 0, block_size = 512\<rparr>, next_tag = 1,
                 no_flush_command = False, scsi_log = []\<rparr>"
  have o: "0 < bs" "bs < 2 ^ 32" "bs dvd length (image m)" "length (image m) < 2 ^ 64" "image m \<noteq> []" "is_power_of_two bs"
    using assms by (auto simp: openable_def bs_def is_power_of_two_def)
  have "mock_idle bs maxb (transport s0)"
    using assms o max_blocks_bytes [OF o(1,2)] max_blocks_of_pos
    by (simp add: s0_def mock_idle_def mock_ok_def openable_def bs_def [symmetric] maxb_def)
  moreover have "next_tag s0 < 2 ^ 32" by (simp add: s0_def)
  ultimately obtain s1 i where s1: "inquiry mock_usb s0 = (Inr i, s1)" "is_block_device i" "mock_idle bs maxb (transport s1)"
    "image (transport s1) = image m" "next_tag s1 < 2 ^ 32"
    using mock_inquiry [of bs maxb s0] by (auto simp: s0_def)
  obtain s2 where s2: "test_unit_ready mock_usb s1 = (Inr (), s2)" "mock_idle bs maxb (transport s2)"
    "image (transport s2) = image m" "next_tag s2 < 2 ^ 32"
    using mock_test_unit_ready [OF s1(3,5)] s1(4) by auto
  obtain s3 where s3: "read_capacity mock_usb s2 = (Inr \<lparr>blocks = length (image m) div bs, block_size = bs\<rparr>, s3)"
    "mock_idle bs maxb (transport s3)" "image (transport s3) = image m" "next_tag s3 < 2 ^ 32"
    using mock_read_capacity [OF s2(2,4) o(2)] s2(3) o(5) by auto
  define s4 where "s4 = s3\<lparr>dev_capacity := \<lparr>blocks = length (image m) div bs, block_size = bs\<rparr>\<rparr>"
  have "scsi_open mock_usb m = (Inr s4, s4)"
    unfolding scsi_open_def s0_def [symmetric] Let_def
    using s1 s2(1) s3(1) o by (simp add: numeral_3_eq_3 s4_def)
  moreover have "drive_ready s4"
    by (rule mounted_drive_ready [of bs maxb], rule mock.mountedI [where cap = "dev_capacity s4"])
      (use s3 o(3,4) in \<open>simp_all add: s4_def mock.dev_ready_def capacity_bytes_def mul64_def\<close>)
  ultimately show ?thesis using s3(3) by (auto simp: s4_def)
qed

section \<open>Properties\<close>

text \<open>C1: opening a drive, writing bytes and reading them back, across the whole stack of commands,
  wrappers and data phases. \<open>open\<close> succeeds on every healthy drive; after it, a write at any offset and
  of any length inside the drive, aligned or not, replaces exactly those bytes of the medium (the
  bytes around them in a partial block included in the read-modify-write survive), and a read
  returns exactly the bytes the medium then holds.\<close>

theorem scsi_stack_exact:
  assumes "openable m" "woff + length data \<le> length (image m)" "roff + length buf \<le> length (image m)"
  shows "\<exists>s s' s''. scsi_open mock_usb m = (Inr s, s)
    \<and> scsi_write_at mock_usb woff data s = (Inr (), s') \<and> image (transport s') = put (image m) woff data
    \<and> scsi_read_at mock_usb roff buf s' = (Inr (slice (put (image m) woff data) roff (length buf)), s'')
    \<and> image (transport s'') = put (image m) woff data"
proof -
  obtain s where s: "scsi_open mock_usb m = (Inr s, s)" "drive_ready s" "image (transport s) = image m"
    using scsi_open_ok [OF assms(1)] by auto
  obtain s' where s': "scsi_write_at mock_usb woff data s = (Inr (), s')" "image (transport s') = put (image m) woff data"
    "drive_ready s'"
    using mock.scsi_write_at_exact [OF drive_ready_mounted [OF s(2)]] assms(2) s(3) mounted_drive_ready by metis
  have "roff + length buf \<le> length (image (transport s'))" using s'(2) assms by simp
  from mock.scsi_read_at_exact [OF drive_ready_mounted [OF s'(3)] this] obtain s'' where
    "scsi_read_at mock_usb roff buf s' = (Inr (slice (put (image m) woff data) roff (length buf)), s'')"
    "image (transport s'') = put (image m) woff data"
    using s'(2) by auto
  with s s' show ?thesis by blast
qed

theorem scsi_stack_exact_witness:
  "\<exists>s s' s''. scsi_open mock_usb (with_block_size 4 (with_max_transfer 3 (mock_new [0, 1, 2, 3, 4, 5, 6, 7]))) = (Inr s, s)
    \<and> scsi_write_at mock_usb 3 [10, 11] s = (Inr (), s') \<and> image (transport s') = [0, 1, 2, 10, 11, 5, 6, 7]
    \<and> scsi_read_at mock_usb 2 [0, 0, 0, 0] s' = (Inr [2, 10, 11, 5], s'')
    \<and> image (transport s'') = [0, 1, 2, 10, 11, 5, 6, 7]"
proof -
  let ?m = "with_block_size 4 (with_max_transfer 3 (mock_new [0, 1, 2, 3, 4, 5, 6, 7]))"
  have i: "image ?m = [0, 1, 2, 3, 4, 5, 6, 7]" by (simp add: with_block_size_def with_max_transfer_def mock_new_def)
  have o: "openable ?m"
    by (simp add: openable_def with_block_size_def with_max_transfer_def mock_new_def is_power_of_two_def dvd_eq_mod_eq_0)
  have e: "put (image ?m) 3 [10, 11] = [0, 1, 2, 10, 11, 5, 6, 7]" "length [0, 0, 0, 0 :: byte] = 4"
    "slice [0, 1, 2, 10, 11, 5, 6, 7 :: byte] 2 4 = [2, 10, 11, 5]"
    unfolding i by (simp_all add: put_def slice_def numeral_eq_Suc)
  show ?thesis
    using scsi_stack_exact [OF o, where woff = 3 and data = "[10, 11]" and roff = 2 and buf = "[0, 0, 0, 0]"]
    unfolding e by (simp add: i)
qed

text \<open>C24: no request leaves the drive. Whatever the device answers, a byte write only ever issues block
  reads and writes of existing blocks, of at most the permitted count: replacing the block operations
  by any others that agree on those requests changes neither the result nor the state.\<close>

theorem scsi_write_requests_in_capacity:
  assumes "0 < bs" "0 < maxb" "offset + length buf \<le> nb * bs"
    and "\<forall>lba n b s. 0 < n \<and> n \<le> maxb \<and> lba + n \<le> nb \<longrightarrow> rd lba n b s = rd' lba n b s \<and> wr lba n b s = wr' lba n b s"
  shows "write_loop rd wr bs maxb offset 0 buf s = write_loop rd' wr' bs maxb offset 0 buf s"
  using assms by (intro write_loop_cong [where nb = nb]) auto

theorem scsi_write_requests_in_capacity_witness:
  "write_loop (\<lambda>lba n b s. (Inr (n * 4, b), s @ [(lba, n)])) (\<lambda>lba n b s. (Inr (length b), s @ [(lba, n)])) 4 2 3 0 [7, 8] []
   = write_loop (\<lambda>lba n b s. if lba + n \<le> 2 then (Inr (n * 4, b), s @ [(lba, n)]) else (Inl Panic, s))
       (\<lambda>lba n b s. if lba + n \<le> 2 then (Inr (length b), s @ [(lba, n)]) else (Inl Panic, s)) 4 2 3 0 [7, 8] []"
  by (rule scsi_write_requests_in_capacity [where nb = 2]) auto

text \<open>C25: a write counts as done only when the drive says so. With any transport, a successful
  \<open>command_out\<close> went through its three phases, and the status phase of this very exchange received a
  wrapper that decodes, carries the command's tag, reports "passed" and a residue of zero; the count
  returned is what the data phase moved. Every other answer is an error.\<close>

theorem scsi_write_acknowledged:
  assumes "command_out T cdb data s = (Inr n, s')"
  shows "\<exists>op s1 s2 s3 buf c. command_phase T cdb DirOut (length data) s = (Inr (op, next_tag s), s1)
    \<and> (if data = [] then (Inr 0, s1) else data_out T data 0 s1) = (Inr n, s2)
    \<and> read_csw T [] False s2 = (Inr buf, s3) \<and> csw_decode buf = Inr c
    \<and> csw_tag c = next_tag s \<and> status c = Passed \<and> data_residue c = 0
    \<and> s' = record_ev (ScsiResult op ''PASSED'' n None) s3"
proof -
  obtain op tg s1 where p1: "command_phase T cdb DirOut (length data) s = (Inr (op, tg), s1)"
    using assms by (auto simp: command_out_def command_out_inner_def split: prod.splits sum.splits)
  have tg: "tg = next_tag s"
    using p1 by (auto simp: command_phase_def Let_def split: list.splits sum.splits prod.splits if_splits)
  obtain m s2 where p2: "(if data = [] then (Inr 0, s1) else data_out T data 0 s1) = (Inr m, s2)"
    using assms p1 by (auto simp: command_out_def command_out_inner_def split: prod.splits sum.splits)
  obtain c s3 where p3: "status_phase T tg s2 = (Inr c, s3)" and
    p4: "conclude T op m True ''CSW phase error'' c (ask_sense T) s3 = (Inr n, s')"
    using assms p1 p2 by (auto simp: command_out_def command_out_inner_def split: prod.splits sum.splits)
  from p4 have "status c = Passed" "data_residue c = 0" "m = n" "s' = record_ev (ScsiResult op ''PASSED'' n None) s3"
    by (auto simp: conclude_def split: csw_status.splits prod.splits if_splits)
  moreover from p3 obtain buf where "read_csw T [] False s2 = (Inr buf, s3)" "csw_decode buf = Inr c" "csw_tag c = tg"
    by (auto simp: status_phase_def split: prod.splits sum.splits if_splits)
  ultimately show ?thesis using tg p1 p2
    by (intro exI [of _ op] exI [of _ s1] exI [of _ s2] exI [of _ s3] exI [of _ buf] exI [of _ c]) simp
qed

definition small_dev :: "mock_drive scsi_dev" where
  "small_dev = \<lparr>transport = with_block_size 4 (mock_new [0, 1, 2, 3, 4, 5, 6, 7]),
     dev_capacity = \<lparr>blocks = 2, block_size = 4\<rparr>, next_tag = 9, no_flush_command = False, scsi_log = []\<rparr>"

lemma small_dev_ready: "drive_ready small_dev"
  by (simp add: small_dev_def drive_ready_def with_block_size_def mock_new_def capacity_bytes_def mul64_def dvd_eq_mod_eq_0)

theorem scsi_write_acknowledged_witness:
  "\<exists>s2 s3 buf c. read_csw mock_usb [] False s2 = (Inr buf, s3) \<and> csw_decode buf = Inr c
    \<and> csw_tag c = 9 \<and> status c = Passed \<and> data_residue c = 0"
proof -
  have r: "mock.dev_ready 4 32768 (dev_capacity small_dev) small_dev"
    using mock.mounted_facts(1) [OF drive_ready_mounted [OF small_dev_ready]]
    by (simp add: small_dev_def with_block_size_def mock_new_def max_blocks_of_def scsi_limits)
  have "\<exists>s'. write_blocks mock_usb 1 1 [9, 9, 9, 9] small_dev = (Inr (1 * 4), s') \<and> mock.dev_ready 4 32768 (dev_capacity small_dev) s'
      \<and> image (transport s') = put (image (transport small_dev)) (1 * 4) [9, 9, 9, 9]"
    by (rule mock.write_blocks_ok [OF r]) (simp_all add: small_dev_def with_block_size_def mock_new_def)
  then obtain s' where "command_out mock_usb (rw_cdb OP_WRITE_10 OP_WRITE_16 1 1) [9, 9, 9, 9] small_dev = (Inr 4, s')"
    by (auto simp: write_blocks_def small_dev_def)
  from scsi_write_acknowledged [OF this] show ?thesis by (fastforce simp: small_dev_def)
qed

text \<open>C26: access outside the drive is refused before anything is sent: for any transport, a non-empty
  request that does not end inside the probed capacity, or whose end is not a 64 bit number, returns
  \<open>OutOfBounds\<close> and leaves the state, and so the bus, untouched. With a capacity of zero this is every
  non-empty request.\<close>

theorem scsi_out_of_bounds_refused:
  assumes "buf \<noteq> []" "2 ^ 64 \<le> offset + length buf \<or> capacity_bytes (dev_capacity s) < offset + length buf"
  shows "scsi_read_at T offset buf s = (Inl OutOfBounds, s) \<and> scsi_write_at T offset buf s = (Inl OutOfBounds, s)"
  using assms by (auto simp: scsi_read_at_def scsi_write_at_def checked_add64_def)

theorem scsi_out_of_bounds_refused_witness:
  "scsi_read_at mock_usb 0 [0] \<lparr>transport = mock_new [], dev_capacity = \<lparr>blocks = 0, block_size = 512\<rparr>, next_tag = 1,
      no_flush_command = False, scsi_log = []\<rparr> = (Inl OutOfBounds, \<lparr>transport = mock_new [],
      dev_capacity = \<lparr>blocks = 0, block_size = 512\<rparr>, next_tag = 1, no_flush_command = False, scsi_log = []\<rparr>)"
  by (rule scsi_out_of_bounds_refused [THEN conjunct1]) (simp_all add: capacity_bytes_def mul64_def)

end
