(* ===== verification/Scsi_Flush.thy ===== *)
theory Scsi_Flush
  imports Scsi_Stack
begin

unbundle bit_operations_syntax

text \<open>
  Cache flushes over the life of an opened drive (\<open>synchronize_cache\<close> of \<open>core/src/usb/scsi.rs\<close>). A session is any sequence of
  the operations of \<open>ScsiBlockDevice\<close> on any transport. Only a flush can set the flag \<open>no_flush_command\<close>, and only after
  the drive's own sense data named an invalid opcode twice; so a flush that reports success is backed by a status
  wrapper of the drive or by that refusal.
\<close>

section \<open>Operations keep the flag\<close>

lemma lift_t_flag: "lift_t f s = (r, s') \<Longrightarrow> no_flush_command s' = no_flush_command s"
  by (auto simp: lift_t_def split: prod.splits)

lemma do_reset_flag [simp]: "no_flush_command (do_reset T s) = no_flush_command s"
  by (simp add: do_reset_def lift_t_def split: prod.splits)

lemma record_ev_flag [simp]: "no_flush_command (record_ev e s) = no_flush_command s"
  by (simp add: record_ev_def)

lemma recover_flag: "recover T (r, s) = (r', s') \<Longrightarrow> no_flush_command s' = no_flush_command s"
  by (auto simp: recover_def split: sum.splits)

lemma recover_lift_flag: "recover T (lift_t f s) = (r, s') \<Longrightarrow> no_flush_command s' = no_flush_command s"
  by (metis lift_t_flag recover_flag surj_pair)

lemma data_in_flag: "data_in T want acc s = (r, s') \<Longrightarrow> no_flush_command s' = no_flush_command s"
proof (induction T want acc s arbitrary: r s' rule: data_in.induct)
  case (1 T want acc s)
  show ?case using "1.prems" "1.IH"
    by (subst (asm) data_in.simps) (auto simp: Let_def split: if_splits prod.splits sum.splits dest!: recover_lift_flag)
qed

lemma data_out_flag: "data_out T data n s = (r, s') \<Longrightarrow> no_flush_command s' = no_flush_command s"
proof (induction T data n s arbitrary: r s' rule: data_out.induct)
  case (1 T data n s)
  show ?case using "1.prems" "1.IH"
    by (subst (asm) data_out.simps) (auto split: if_splits prod.splits sum.splits dest!: recover_lift_flag)
qed

lemma read_csw_flag: "read_csw T buf cl s = (r, s') \<Longrightarrow> no_flush_command s' = no_flush_command s"
proof (induction T buf cl s arbitrary: r s' rule: read_csw.induct)
  case (1 T buf cl s)
  show ?case
  proof (cases "length buf < CSW_LEN")
    case False
    then show ?thesis using "1.prems" by (subst (asm) read_csw.simps) simp
  next
    case True
    obtain a s1 where a: "lift_t (bt_read T (CSW_LEN - length buf)) s = (a, s1)" by fastforce
    obtain h s2 where h: "lift_t (bt_clear_halt T True) s1 = (h, s2)" by fastforce
    note f = lift_t_flag [OF a] lift_t_flag [OF h]
    show ?thesis
    proof (cases a)
      case (Inl e)
      then show ?thesis using "1.prems" "1.IH"(1) [OF True a [symmetric] Inl _ _ h [symmetric]] True a h f
        by (subst (asm) read_csw.simps) (cases h; auto split: if_splits)
    next
      case (Inr chunk)
      let ?got = "take (CSW_LEN - length buf) chunk"
      show ?thesis using "1.prems" "1.IH"(2) [OF True a [symmetric] Inr refl _ _ h [symmetric]] "1.IH"(3) [OF True a [symmetric] Inr refl] True a h f Inr
        by (subst (asm) read_csw.simps) (cases h; cases "?got = []"; auto simp: Let_def split: if_splits)
    qed
  qed
qed

lemma status_phase_flag: "status_phase T tag s = (r, s') \<Longrightarrow> no_flush_command s' = no_flush_command s"
  by (auto simp: status_phase_def split: prod.splits sum.splits if_splits dest!: read_csw_flag)

lemma command_phase_flag: "command_phase T cdb dir n s = (r, s') \<Longrightarrow> no_flush_command s' = no_flush_command s"
  by (auto simp: command_phase_def Let_def split: list.splits prod.splits sum.splits if_splits dest!: recover_lift_flag)

lemma conclude_flag:
  "conclude T op n out txt c why s = (r, s') \<Longrightarrow> (\<And>t x t'. why t = (x, t') \<Longrightarrow> no_flush_command t' = no_flush_command t) \<Longrightarrow>
   no_flush_command s' = no_flush_command s"
  by (auto simp: conclude_def split: csw_status.splits prod.splits if_splits)

lemmas phase_flags = command_phase_flag data_in_flag data_out_flag status_phase_flag

lemma command_with_flag:
  assumes "command_with T cdb dir data why s = (r, s')" "\<And>t x t'. why t = (x, t') \<Longrightarrow> no_flush_command t' = no_flush_command t"
  shows "no_flush_command s' = no_flush_command s"
  using assms(1) by (auto simp: command_with_def split: prod.splits sum.splits if_splits direction.splits dest!: phase_flags conclude_flag [OF _ assms(2)])

lemma request_sense_flag: "request_sense T s = (r, s') \<Longrightarrow> no_flush_command s' = no_flush_command s"
  by (auto simp: request_sense_def no_sense_def split: prod.splits sum.splits dest!: command_with_flag)

lemma ask_sense_flag: "ask_sense T s = (r, s') \<Longrightarrow> no_flush_command s' = no_flush_command s"
  by (auto simp: ask_sense_def split: prod.splits sum.splits dest!: request_sense_flag)

lemma command_flag: "command T cdb dir data s = (r, s') \<Longrightarrow> no_flush_command s' = no_flush_command s"
  unfolding command_def command_inner_def if_True by (erule command_with_flag) (rule ask_sense_flag)

lemma command_out_flag: "command_out T cdb data s = (r, s') \<Longrightarrow> no_flush_command s' = no_flush_command s"
  by (auto simp: command_out_def command_out_inner_def split: prod.splits sum.splits if_splits
      dest!: phase_flags conclude_flag [OF _ ask_sense_flag])

text \<open>The byte loops keep whatever their block operations keep.\<close>

lemma read_loop_flag:
  assumes rd: "\<And>lba n b s r s'. rd lba n b s = (r, s') \<Longrightarrow> no_flush_command s' = no_flush_command s"
  shows "read_loop rd bs maxb offset chunk filled buf s = (r, s') \<Longrightarrow> no_flush_command s' = no_flush_command s"
proof (induction "length buf - filled" arbitrary: chunk filled buf s rule: less_induct)
  case less
  show ?case
  proof (cases "0 < bs \<and> 0 < maxb \<and> filled < length buf")
    case False
    then show ?thesis using less.prems by (subst (asm) read_loop.simps) (auto split: if_splits)
  next
    case True
    define m where "m = length buf - filled"
    define n where "n = round_blocks bs maxb (offset + filled) m"
    define t where "t = round_take bs maxb (offset + filled) m"
    have g: "0 < bs" "0 < maxb" "filled < length buf" using True by auto
    have t: "0 < t" "t \<le> m" using True round_geometry(4,5) [of bs maxb m "offset + filled"] by (auto simp: t_def m_def)
    obtain a s1 where a: "rd ((offset + filled) div bs) n (take (n * bs) chunk) s = (a, s1)" by fastforce
    have len: "length (put buf filled (slice c w t)) = length buf" for c w using t by (intro length_put) (simp add: m_def)
    have "no_flush_command s' = no_flush_command s1"
      if "read_loop rd bs maxb offset c (filled + t) (put buf filled (slice c w t)) s1 = (r, s')" for c w
      by (rule less.hyps [OF _ that], unfold len) (use t True in arith)
    moreover have "(case a of Inl e \<Rightarrow> (Inl e, s1) | Inr (got, b) \<Rightarrow>
        if got < n * bs then (Inl (ScsiProtocol ''short data phase''), s1)
        else let c = b @ drop (n * bs) chunk in
          read_loop rd bs maxb offset c (filled + t) (put buf filled (slice c ((offset + filled) mod bs) t)) s1) = (r, s')"
      using less.prems a unfolding read_loop_step [OF g] m_def [symmetric] n_def [symmetric] t_def [symmetric]
      by (cases a) (auto simp: Let_def)
    ultimately show ?thesis using rd [OF a] by (auto simp: Let_def split: sum.splits prod.splits if_splits)
  qed
qed

lemma write_round_flag:
  assumes "\<And>lba n b s r s'. rd lba n b s = (r, s') \<Longrightarrow> no_flush_command s' = no_flush_command s"
    and "\<And>lba n b s r s'. wr lba n b s = (r, s') \<Longrightarrow> no_flush_command s' = no_flush_command s"
    and "write_round rd wr lba n sp w p s = (r, s')"
  shows "no_flush_command s' = no_flush_command s"
  using assms(3) by (auto simp: write_round_def Let_def split: if_splits prod.splits sum.splits dest!: assms(1,2))

lemma write_loop_flag:
  assumes rd: "\<And>lba n b s r s'. rd lba n b s = (r, s') \<Longrightarrow> no_flush_command s' = no_flush_command s"
    and wr: "\<And>lba n b s r s'. wr lba n b s = (r, s') \<Longrightarrow> no_flush_command s' = no_flush_command s"
  shows "write_loop rd wr bs maxb offset sent buf s = (r, s') \<Longrightarrow> no_flush_command s' = no_flush_command s"
proof (induction "length buf - sent" arbitrary: sent s rule: less_induct)
  case less
  show ?case
  proof (cases "0 < bs \<and> 0 < maxb \<and> sent < length buf")
    case False
    then show ?thesis using less.prems by (subst (asm) write_loop.simps) (auto split: if_splits)
  next
    case True
    define m where "m = length buf - sent"
    define n where "n = round_blocks bs maxb (offset + sent) m"
    define t where "t = round_take bs maxb (offset + sent) m"
    have g: "0 < bs" "0 < maxb" "sent < length buf" using True by auto
    have t: "0 < t" using True round_geometry(4) [of bs maxb m "offset + sent"] by (auto simp: t_def m_def)
    obtain a s1 where a: "write_round rd wr ((offset + sent) div bs) n (n * bs) ((offset + sent) mod bs) (slice buf sent t) s = (a, s1)" by fastforce
    have "no_flush_command s' = no_flush_command s1" if "write_loop rd wr bs maxb offset (sent + t) buf s1 = (r, s')"
      by (rule less.hyps [OF _ that]) (use t True in arith)
    moreover have "(case a of Inl e \<Rightarrow> (Inl e, s1) | Inr _ \<Rightarrow> write_loop rd wr bs maxb offset (sent + t) buf s1) = (r, s')"
      using less.prems a unfolding write_loop_step [OF g] m_def [symmetric] n_def [symmetric] t_def [symmetric]
      by (cases a) (auto simp: Let_def)
    ultimately show ?thesis using write_round_flag [OF rd wr a] by (auto split: sum.splits)
  qed
qed

section \<open>Sessions\<close>

datatype dev_op =
    DevInquiry
  | DevReady
  | DevCapacity
  | DevWriteProtected
  | DevCacheState
  | DevProbeWrite
  | DevRead nat bytes
  | DevWrite nat bytes
  | DevFlush

definition dev_step :: "'t bulk_transport \<Rightarrow> dev_op \<Rightarrow> 't scsi_dev \<Rightarrow> 't scsi_dev" where
  "dev_step T op s = (case op of
      DevInquiry \<Rightarrow> snd (inquiry T s)
    | DevReady \<Rightarrow> snd (test_unit_ready T s)
    | DevCapacity \<Rightarrow> snd (read_capacity T s)
    | DevWriteProtected \<Rightarrow> snd (is_write_protected T s)
    | DevCacheState \<Rightarrow> snd (write_cache_state T s)
    | DevProbeWrite \<Rightarrow> snd (probe_write_support T s)
    | DevRead off buf \<Rightarrow> snd (scsi_read_at T off buf s)
    | DevWrite off buf \<Rightarrow> snd (scsi_write_at T off buf s)
    | DevFlush \<Rightarrow> snd (scsi_flush T s))"

definition dev_run :: "'t bulk_transport \<Rightarrow> dev_op list \<Rightarrow> 't scsi_dev \<Rightarrow> 't scsi_dev" where
  "dev_run T ops s = fold (dev_step T) ops s"

lemma read_blocks_flag: "read_blocks T lba n b s = (r, s') \<Longrightarrow> no_flush_command s' = no_flush_command s"
  by (auto simp: read_blocks_def Let_def split: if_splits prod.splits sum.splits dest!: command_flag)

lemma write_blocks_flag: "write_blocks T lba n b s = (r, s') \<Longrightarrow> no_flush_command s' = no_flush_command s"
  by (auto simp: write_blocks_def Let_def split: if_splits dest!: command_out_flag)

lemma scsi_io_flag:
  "scsi_read_at T off buf s = (r, s') \<Longrightarrow> no_flush_command s' = no_flush_command s"
  "scsi_write_at T off buf s = (r', s') \<Longrightarrow> no_flush_command s' = no_flush_command s"
proof -
  have rd: "read_loop (read_blocks T) bs m o' c n buf s = (r, s') \<Longrightarrow> no_flush_command s' = no_flush_command s" for bs m o' c n
    by (rule read_loop_flag) (rule read_blocks_flag)
  have wr: "write_loop (read_blocks T) (write_blocks T) bs m o' n buf s = (r', s') \<Longrightarrow> no_flush_command s' = no_flush_command s" for bs m o' n
    by (rule write_loop_flag) (rule read_blocks_flag, assumption, rule write_blocks_flag)
  show "scsi_read_at T off buf s = (r, s') \<Longrightarrow> no_flush_command s' = no_flush_command s"
    using rd by (simp add: scsi_read_at_def Let_def split: if_splits option.splits)
  show "scsi_write_at T off buf s = (r', s') \<Longrightarrow> no_flush_command s' = no_flush_command s"
    using wr by (simp add: scsi_write_at_def Let_def split: if_splits option.splits)
qed

lemma query_flags:
  "inquiry T s = (a, s') \<Longrightarrow> no_flush_command s' = no_flush_command s"
  "test_unit_ready T s = (b, s') \<Longrightarrow> no_flush_command s' = no_flush_command s"
  "read_capacity_16 T s = (c, s') \<Longrightarrow> no_flush_command s' = no_flush_command s"
  "is_write_protected T s = (d, s') \<Longrightarrow> no_flush_command s' = no_flush_command s"
  "mode_sense_6_caching T s = (e, s') \<Longrightarrow> no_flush_command s' = no_flush_command s"
  "mode_sense_10_caching T s = (e, s') \<Longrightarrow> no_flush_command s' = no_flush_command s"
  by (auto simp: inquiry_def test_unit_ready_def read_capacity_16_def is_write_protected_def mode_sense_6_caching_def mode_sense_10_caching_def
      Let_def split: prod.splits sum.splits option.splits dest!: command_flag)

lemma read_capacity_flag: "read_capacity T s = (r, s') \<Longrightarrow> no_flush_command s' = no_flush_command s"
  by (auto simp: read_capacity_def Let_def split: prod.splits sum.splits if_splits dest!: command_flag query_flags(3))

lemma write_cache_state_flag: "write_cache_state T s = (r, s') \<Longrightarrow> no_flush_command s' = no_flush_command s"
  by (auto simp: write_cache_state_def Let_def split: prod.splits sum.splits option.splits dest!: query_flags(5,6))

lemma probe_each_flag: "probe_each T cs s = (r, s') \<Longrightarrow> no_flush_command s' = no_flush_command s"
  by (induction T cs s arbitrary: r rule: probe_each.induct) (auto simp: Let_def split: prod.splits dest!: command_flag)

lemma dev_step_flag: "op \<noteq> DevFlush \<Longrightarrow> no_flush_command (dev_step T op s) = no_flush_command s"
  using query_flags(1,2,4) [OF surjective_pairing] read_capacity_flag [OF surjective_pairing] write_cache_state_flag [OF surjective_pairing]
    probe_each_flag [OF surjective_pairing] scsi_io_flag [OF surjective_pairing]
  by (cases op) (simp_all add: dev_step_def probe_write_support_def del: probe_each.simps)

section \<open>What the drive said\<close>

text \<open>One command without data, over any transport: the drive passed it, or it failed it and the sense data that it returned to \<open>REQUEST SENSE\<close> is
  illegal request (sense key 5), invalid command operation code (additional sense code \<open>0x20\<close>).\<close>

definition drive_passed :: "'t bulk_transport \<Rightarrow> bytes \<Rightarrow> 't scsi_dev \<Rightarrow> bool" where
  "drive_passed T cdb s \<longleftrightarrow> (\<exists>op s1 c s2. command_phase T cdb DirNone 0 s = (Inr (op, next_tag s), s1)
     \<and> status_phase T (next_tag s) s1 = (Inr c, s2) \<and> status c = Passed)"

definition drive_refused :: "'t bulk_transport \<Rightarrow> bytes \<Rightarrow> 't scsi_dev \<Rightarrow> bool" where
  "drive_refused T cdb s \<longleftrightarrow> (\<exists>op s1 c s2 b s3. command_phase T cdb DirNone 0 s = (Inr (op, next_tag s), s1)
     \<and> status_phase T (next_tag s) s1 = (Inr c, s2) \<and> status c = Failed
     \<and> request_sense T s2 = (Inr b, s3) \<and> b ! 2 AND 0x0F = 5 \<and> b ! 12 = 0x20)"

lemma command_phase_tag: "command_phase T cdb dir n s = (Inr (op, tag), s1) \<Longrightarrow> tag = next_tag s"
  by (auto simp: command_phase_def Let_def split: list.splits prod.splits sum.splits if_splits)

lemma command_none:
  "command T cdb DirNone [] s =
     (case command_phase T cdb DirNone 0 s of
        (Inl e, s) \<Rightarrow> (Inl e, s)
      | (Inr (op, tag), s) \<Rightarrow>
          (case status_phase T tag s of
             (Inl e, s) \<Rightarrow> (Inl e, s)
           | (Inr c, s) \<Rightarrow>
               (case conclude T op 0 False ''phase error'' c (ask_sense T) s of
                  (Inl e, s) \<Rightarrow> (Inl e, s)
                | (Inr n, s) \<Rightarrow> (Inr (n, []), s))))"
  by (simp add: command_def command_inner_def command_with_def split: prod.splits sum.splits)

lemma command_passed:
  assumes "command T cdb DirNone [] s = (Inr x, s')"
  shows "drive_passed T cdb s"
proof -
  obtain op tag s1 where p: "command_phase T cdb DirNone 0 s = (Inr (op, tag), s1)"
    using assms by (auto simp: command_none split: prod.splits sum.splits)
  obtain c s2 where c: "status_phase T tag s1 = (Inr c, s2)" using assms p by (auto simp: command_none split: prod.splits sum.splits)
  have "status c = Passed"
    using assms p c by (auto simp: command_none conclude_def split: prod.splits sum.splits csw_status.splits)
  then show ?thesis using p c command_phase_tag [OF p] by (auto simp: drive_passed_def)
qed

lemma sense_bytes: "sense_key (sense_parse b) = 5 \<and> sense_asc (sense_parse b) = 0x20 \<longleftrightarrow> b ! 2 AND 0x0F = 5 \<and> b ! 12 = 0x20"
proof -
  have "unat (b ! 2 AND 0x0F) = 5 \<longleftrightarrow> b ! 2 AND 0x0F = 5" "unat (b ! 12) = 0x20 \<longleftrightarrow> b ! 12 = 0x20"
    using word_unat_eq_iff [of "b ! 2 AND 0x0F" 5] word_unat_eq_iff [of "b ! 12" "0x20"] by simp_all
  then show ?thesis by (simp add: sense_parse_def)
qed

text \<open>The transport moves bytes and may fail, but the verdict on a command, \<open>ScsiCommandFailed\<close>, is not one of its errors.\<close>

definition no_verdict :: "luks_error \<Rightarrow> bool" where
  "no_verdict e \<longleftrightarrow> (case e of ScsiCommandFailed _ _ \<Rightarrow> False | _ \<Rightarrow> True)"

definition transport_quiet :: "'t bulk_transport \<Rightarrow> bool" where
  "transport_quiet T \<longleftrightarrow> (\<forall>n t e t'. bt_read T n t = (Inl e, t') \<longrightarrow> no_verdict e) \<and> (\<forall>b t e t'. bt_write T b t = (Inl e, t') \<longrightarrow> no_verdict e)
     \<and> (\<forall>h t e t'. bt_clear_halt T h t = (Inl e, t') \<longrightarrow> no_verdict e)"

lemma no_verdict_simps [simp]: "no_verdict (ScsiProtocol m)" "no_verdict Panic" "no_verdict e \<Longrightarrow> \<not> unsupported e"
  by (auto simp: no_verdict_def unsupported_def split: luks_error.splits option.splits)

lemma lift_t_error: "lift_t f s = (Inl e, s') \<Longrightarrow> \<exists>t'. f (transport s) = (Inl e, t')"
  by (auto simp: lift_t_def split: prod.splits)

lemma lift_t_quiet:
  assumes "transport_quiet T"
  shows "lift_t (bt_read T n) s = (Inl e, s') \<Longrightarrow> no_verdict e" "lift_t (bt_write T b) s = (Inl e, s') \<Longrightarrow> no_verdict e"
    "lift_t (bt_clear_halt T h) s = (Inl e, s') \<Longrightarrow> no_verdict e"
proof -
  have q: "\<forall>n t e t'. bt_read T n t = (Inl e, t') \<longrightarrow> no_verdict e" "\<forall>b t e t'. bt_write T b t = (Inl e, t') \<longrightarrow> no_verdict e"
    "\<forall>h t e t'. bt_clear_halt T h t = (Inl e, t') \<longrightarrow> no_verdict e"
    using assms unfolding transport_quiet_def by blast+
  show "lift_t (bt_read T n) s = (Inl e, s') \<Longrightarrow> no_verdict e" using q(1) by (blast dest: lift_t_error)
  show "lift_t (bt_write T b) s = (Inl e, s') \<Longrightarrow> no_verdict e" using q(2) by (blast dest: lift_t_error)
  show "lift_t (bt_clear_halt T h) s = (Inl e, s') \<Longrightarrow> no_verdict e" using q(3) by (blast dest: lift_t_error)
qed

lemma recover_quiet: "transport_quiet T \<Longrightarrow> recover T (lift_t (bt_write T b) s) = (Inl e, s') \<Longrightarrow> no_verdict e"
  by (auto simp: recover_def split: prod.splits sum.splits dest: lift_t_quiet(2))

lemma command_phase_quiet: "transport_quiet T \<Longrightarrow> command_phase T cdb dir n s = (Inl e, s') \<Longrightarrow> no_verdict e"
  by (auto simp: command_phase_def cbw_encode_def Let_def split: list.splits prod.splits sum.splits if_splits dest: recover_quiet)

lemma read_csw_quiet: "transport_quiet T \<Longrightarrow> read_csw T buf cl s = (Inl e, s') \<Longrightarrow> no_verdict e"
proof (induction T buf cl s arbitrary: s' rule: read_csw.induct)
  case (1 T buf cl s)
  show ?case
  proof (cases "length buf < CSW_LEN")
    case False
    then show ?thesis using "1.prems" by (subst (asm) read_csw.simps) simp
  next
    case True
    obtain a s1 where a: "lift_t (bt_read T (CSW_LEN - length buf)) s = (a, s1)" by fastforce
    obtain h s2 where h: "lift_t (bt_clear_halt T True) s1 = (h, s2)" by fastforce
    note q = lift_t_quiet [OF "1.prems"(1)]
    show ?thesis
    proof (cases a)
      case (Inl e1)
      then show ?thesis using "1.prems" "1.IH"(1) [OF True a [symmetric] Inl _ _ h [symmetric]] True a h q
        by (subst (asm) read_csw.simps) (cases h; auto split: if_splits)
    next
      case (Inr chunk)
      let ?got = "take (CSW_LEN - length buf) chunk"
      show ?thesis using "1.prems" "1.IH"(2) [OF True a [symmetric] Inr refl _ _ h [symmetric]] "1.IH"(3) [OF True a [symmetric] Inr refl] True a h q Inr
        by (subst (asm) read_csw.simps) (cases h; cases "?got = []"; auto simp: Let_def split: if_splits)
    qed
  qed
qed

lemma status_phase_quiet: "transport_quiet T \<Longrightarrow> status_phase T tag s = (Inl e, s') \<Longrightarrow> no_verdict e"
  by (auto simp: status_phase_def csw_decode_def Let_def split: prod.splits sum.splits if_splits dest: read_csw_quiet)

lemma command_refused:
  assumes q: "transport_quiet T" and c: "command T cdb DirNone [] s = (Inl e, s')" and u: "unsupported e"
  shows "drive_refused T cdb s"
proof -
  have n: "\<not> no_verdict e" using u by auto
  obtain op tag s1 where p: "command_phase T cdb DirNone 0 s = (Inr (op, tag), s1)"
    using c n command_phase_quiet [OF q, of cdb DirNone 0 s] by (auto simp: command_none split: prod.splits sum.splits)
  obtain w s2 where w: "status_phase T tag s1 = (Inr w, s2)"
    using c n p status_phase_quiet [OF q, of tag s1] by (auto simp: command_none split: prod.splits sum.splits)
  obtain sn s3 where "status w = Failed" "ask_sense T s2 = (sn, s3)" "e = ScsiCommandFailed (unat op) sn"
    using c n p w by (auto simp: command_none conclude_def Let_def split: prod.splits sum.splits csw_status.splits if_splits)
  moreover from this obtain b where "request_sense T s2 = (Inr b, s3)" "sense_key (sense_parse b) = 5 \<and> sense_asc (sense_parse b) = 0x20"
    using u by (auto simp: ask_sense_def unsupported_def split: prod.splits sum.splits option.splits)
  ultimately show ?thesis using p w command_phase_tag [OF p] unfolding sense_bytes drive_refused_def by blast
qed

section \<open>Flushes\<close>

abbreviation sync_10 :: bytes where "sync_10 \<equiv> (replicate 10 0)[0 := OP_SYNCHRONIZE_CACHE_10]"
abbreviation sync_16 :: bytes where "sync_16 \<equiv> (replicate 16 0)[0 := OP_SYNCHRONIZE_CACHE_16]"

text \<open>In state \<open>s\<close> the drive refused both forms, the second right after the first.\<close>

definition refused_both :: "'t bulk_transport \<Rightarrow> 't scsi_dev \<Rightarrow> bool" where
  "refused_both T s \<longleftrightarrow> drive_refused T sync_10 s \<and> drive_refused T sync_16 (snd (command T sync_10 DirNone [] s))"

lemma flush_cases:
  assumes "transport_quiet T" "synchronize_cache T s = (r, s')" "\<not> no_flush_command s"
  shows "no_flush_command s' \<Longrightarrow> refused_both T s"
    "r = Inr () \<Longrightarrow> \<not> no_flush_command s' \<Longrightarrow>
      drive_passed T sync_10 s \<or> drive_refused T sync_10 s \<and> drive_passed T sync_16 (snd (command T sync_10 DirNone [] s))"
proof -
  obtain a s1 where a: "command T sync_10 DirNone [] s = (a, s1)" by fastforce
  obtain b s2 where b: "command T sync_16 DirNone [] s1 = (b, s2)" by fastforce
  note f = command_flag [OF a] command_flag [OF b]
  have ra: "drive_refused T sync_10 s" if "a = Inl e" "unsupported e" for e using command_refused [OF assms(1)] a that by blast
  have rb: "drive_refused T sync_16 s1" if "b = Inl e" "unsupported e" for e using command_refused [OF assms(1)] b that by blast
  have pa: "drive_passed T sync_10 s" if "a = Inr x" for x using command_passed a that by blast
  have pb: "drive_passed T sync_16 s1" if "b = Inr x" for x using command_passed b that by blast
  show "refused_both T s" if "no_flush_command s'"
    using assms(2,3) that f a b ra rb by (cases a; cases b) (auto simp: synchronize_cache_def refused_both_def split: if_splits)
  show "drive_passed T sync_10 s \<or> drive_refused T sync_10 s \<and> drive_passed T sync_16 (snd (command T sync_10 DirNone [] s))"
    if "r = Inr ()" "\<not> no_flush_command s'"
    using assms(2,3) that f a b ra pa pb by (cases a; cases b) (auto simp: synchronize_cache_def split: if_splits)
qed

lemma flag_origin:
  assumes "transport_quiet T" "\<not> no_flush_command s0" "no_flush_command (dev_run T ops s0)"
  shows "\<exists>pre post. ops = pre @ DevFlush # post \<and> refused_both T (dev_run T pre s0)"
  using assms(3)
proof (induction ops rule: rev_induct)
  case Nil
  then show ?case using assms(2) by (simp add: dev_run_def)
next
  case (snoc op ops)
  let ?s = "dev_run T ops s0"
  have last: "dev_run T (ops @ [op]) s0 = dev_step T op ?s" by (simp add: dev_run_def)
  show ?case
  proof (cases "no_flush_command ?s")
    case True
    then obtain pre post where "ops = pre @ DevFlush # post" "refused_both T (dev_run T pre s0)" using snoc.IH by blast
    then show ?thesis by (intro exI [of _ pre] exI [of _ "post @ [op]"]) simp
  next
    case False
    then have op: "op = DevFlush" using snoc.prems dev_step_flag [of op T ?s] unfolding last by blast
    then have "refused_both T ?s"
      using snoc.prems False flush_cases(1) [OF assms(1) surjective_pairing False] unfolding last by (simp add: dev_step_def scsi_flush_def)
    then show ?thesis using op by (intro exI [of _ ops] exI [of _ "[]"]) simp
  qed
qed

section \<open>Properties\<close>

text \<open>C27: A flush never reports success on its own authority. Take any transport that moves bytes (its own errors are not SCSI verdicts), any
  session of inquiries, readiness checks, capacity and mode queries, probes, reads, writes and flushes on a device whose flag was clear, and then a flush
  that returns success. Either the drive passed SYNCHRONIZE CACHE(10) in this flush, with a status wrapper that carries this command's
  tag, or it refused that form as an invalid opcode and passed SYNCHRONIZE CACHE(16); or the device now reports its flush as a no-op, and at
  this flush or at an earlier one of the session the drive failed both forms and its sense data named illegal request, invalid
  command operation code both times. A flush with the flag already set sends nothing.\<close>

theorem flush_skipped_only_when_refused:
  assumes "transport_quiet T" "\<not> no_flush_command s0" "scsi_flush T (dev_run T ops s0) = (Inr (), s')"
  shows "(if flush_is_a_no_op s'
     then \<exists>pre post. ops @ [DevFlush] = pre @ DevFlush # post \<and> refused_both T (dev_run T pre s0)
     else drive_passed T sync_10 (dev_run T ops s0)
       \<or> drive_refused T sync_10 (dev_run T ops s0) \<and> drive_passed T sync_16 (snd (command T sync_10 DirNone [] (dev_run T ops s0))))
    \<and> (no_flush_command (dev_run T ops s0) \<longrightarrow> s' = dev_run T ops s0)"
proof -
  let ?s = "dev_run T ops s0"
  have f: "synchronize_cache T ?s = (Inr (), s')" using assms(3) by (simp add: scsi_flush_def)
  have "dev_run T (ops @ [DevFlush]) s0 = s'" using f by (simp add: dev_run_def dev_step_def scsi_flush_def)
  then have "\<exists>pre post. ops @ [DevFlush] = pre @ DevFlush # post \<and> refused_both T (dev_run T pre s0)" if "no_flush_command s'"
    using flag_origin [OF assms(1,2), of "ops @ [DevFlush]"] that by simp
  moreover have "s' = ?s" if "no_flush_command ?s" using f that by (simp add: synchronize_cache_def)
  ultimately show ?thesis using flush_cases(2) [OF assms(1) f] unfolding flush_is_a_no_op_def by (cases "no_flush_command ?s") auto
qed

text \<open>A drive that answers from a script, one reply per read: it fails both forms with sense key 5 and code \<open>0x20\<close>.\<close>

definition scripted :: "bytes list bulk_transport" where
  "scripted = \<lparr>bt_write = (\<lambda>b t. (Inr (length b), t)), bt_read = (\<lambda>n t. (Inr (hd t), tl t)), bt_max_transfer = (\<lambda>_. 512),
     bt_clear_halt = (\<lambda>_ t. (Inr (), t)), bt_reset = (\<lambda>t. (Inr (), t))\<rparr>"

definition bad_opcode_sense :: bytes where
  "bad_opcode_sense = [0x70, 0, 5, 0, 0, 0, 0, 10, 0, 0, 0, 0, 0x20, 0, 0, 0, 0, 0]"

definition no_flush_dev :: "bytes list scsi_dev" where
  "no_flush_dev = \<lparr>transport = [csw_bytes 7 0 1, bad_opcode_sense, csw_bytes 8 0 0, csw_bytes 9 0 1, bad_opcode_sense, csw_bytes 10 0 0],
     dev_capacity = \<lparr>blocks = 1, block_size = 512\<rparr>, next_tag = 7, no_flush_command = False, scsi_log = []\<rparr>"

lemma scripted_command:
  assumes "0 < length cdb" "length cdb \<le> 16" "len < 2 ^ 32"
  shows "command_phase scripted cdb dir len s = (Inr (hd cdb, next_tag s), announced (hd cdb) len dir (transport s) s)"
  by (rule command_phase_sent [OF assms]) (simp add: scripted_def length_cbw_bytes [OF assms(2)] CBW_LEN_def)

lemma scripted_status:
  assumes "transport s = csw_bytes tag 0 st # rest" "tag < 2 ^ 32" "st = 0 \<or> st = 1"
  shows "status_phase scripted tag s = (Inr \<lparr>csw_tag = tag, data_residue = 0, status = if st = 0 then Passed else Failed\<rparr>, s\<lparr>transport := rest\<rparr>)"
proof -
  have "read_csw scripted [] False s = read_csw scripted (csw_bytes tag 0 st) False (s\<lparr>transport := rest\<rparr>)"
    using assms(1) by (subst read_csw.simps) (auto simp: lift_t_def scripted_def Let_def CSW_LEN_def csw_bytes_def)
  then have "read_csw scripted [] False s = (Inr (csw_bytes tag 0 st), s\<lparr>transport := rest\<rparr>)"
    by (subst (asm) (2) read_csw.simps) (simp add: CSW_LEN_def)
  moreover have "csw_decode (csw_bytes tag 0 st) = Inr \<lparr>csw_tag = tag, data_residue = 0, status = if st = 0 then Passed else Failed\<rparr>"
    using assms(2,3) by (auto simp: csw_decode_def csw_bytes_def bot_consts bytes_simps nth_append Let_def)
  ultimately show ?thesis by (simp add: status_phase_def)
qed

lemma scripted_sense:
  assumes "transport s = bad_opcode_sense # csw_bytes (next_tag s) 0 0 # rest" "next_tag s < 2 ^ 31"
  shows "\<exists>s'. ask_sense scripted s = (Some (sense_parse bad_opcode_sense), s') \<and> transport s' = rest \<and> next_tag s' = next_tag s + 1"
proof -
  let ?cdb = "(replicate 6 0)[0 := OP_REQUEST_SENSE, 4 := 18] :: bytes"
  let ?s1 = "announced (hd ?cdb) 18 DirIn (transport s) s"
  have len: "length bad_opcode_sense = 18" by (simp add: bad_opcode_sense_def)
  have d: "data_in scripted 18 [] ?s1 = data_in scripted 18 bad_opcode_sense (?s1\<lparr>transport := csw_bytes (next_tag s) 0 0 # rest\<rparr>)"
    using assms(1) len by (subst data_in.simps) (auto simp: recover_def lift_t_def scripted_def Let_def bad_opcode_sense_def)
  have d2: "data_in scripted 18 [] ?s1 = (Inr bad_opcode_sense, ?s1\<lparr>transport := csw_bytes (next_tag s) 0 0 # rest\<rparr>)"
    unfolding d by (subst data_in.simps) (simp add: len)
  have st: "status_phase scripted (next_tag s) (?s1\<lparr>transport := csw_bytes (next_tag s) 0 0 # rest\<rparr>)
      = (Inr \<lparr>csw_tag = next_tag s, data_residue = 0, status = Passed\<rparr>, ?s1\<lparr>transport := rest\<rparr>)"
    using scripted_status [of "?s1\<lparr>transport := csw_bytes (next_tag s) 0 0 # rest\<rparr>" "next_tag s" 0 rest] assms(2) by simp
  have cp: "command_phase scripted ?cdb DirIn 18 s = (Inr (hd ?cdb, next_tag s), ?s1)" by (rule scripted_command) simp_all
  have p: "put (replicate 18 0) 0 bad_opcode_sense = bad_opcode_sense" by (simp add: put_def len)
  show ?thesis
    using cp d2 st assms(2)
    by (simp add: ask_sense_def request_sense_def command_with_def conclude_def p record_ev_def announced_def no_sense_def)
qed

lemma scripted_refused:
  assumes "transport s = csw_bytes (next_tag s) 0 1 # bad_opcode_sense # csw_bytes (next_tag s + 1) 0 0 # rest" "next_tag s < 2 ^ 30"
    "0 < length cdb" "length cdb \<le> 16"
  shows "\<exists>e s'. command scripted cdb DirNone [] s = (Inl e, s') \<and> unsupported e \<and> transport s' = rest \<and> next_tag s' = next_tag s + 2"
proof -
  let ?s1 = "announced (hd cdb) 0 DirNone (transport s) s"
  let ?s2 = "?s1\<lparr>transport := bad_opcode_sense # csw_bytes (next_tag s + 1) 0 0 # rest\<rparr>"
  have n: "next_tag ?s2 = next_tag s + 1" using assms(2) by (simp add: announced_def record_ev_def)
  have cp: "command_phase scripted cdb DirNone 0 s = (Inr (hd cdb, next_tag s), ?s1)" by (rule scripted_command) (use assms in simp_all)
  have st: "status_phase scripted (next_tag s) ?s1 = (Inr \<lparr>csw_tag = next_tag s, data_residue = 0, status = Failed\<rparr>, ?s2)"
    using scripted_status [of ?s1 "next_tag s" 1] assms(1,2) by simp
  obtain s3 where l: "ask_sense scripted ?s2 = (Some (sense_parse bad_opcode_sense), s3)" "transport s3 = rest" "next_tag s3 = next_tag s + 2"
    using scripted_sense [of ?s2 rest] assms(2) n by auto
  have u: "unsupported (ScsiCommandFailed (unat (hd cdb)) (Some (sense_parse bad_opcode_sense)))"
    by (simp add: unsupported_def sense_parse_def bad_opcode_sense_def)
  show ?thesis using cp st l u n
    by (simp add: command_none conclude_def record_ev_def announced_def)
qed

lemma scripted_flush: "\<exists>s'. scsi_flush scripted no_flush_dev = (Inr (), s') \<and> no_flush_command s'"
proof -
  have n: "next_tag no_flush_dev = 7" "\<not> no_flush_command no_flush_dev"
    "transport no_flush_dev = [csw_bytes 7 0 1, bad_opcode_sense, csw_bytes 8 0 0, csw_bytes 9 0 1, bad_opcode_sense, csw_bytes 10 0 0]"
    by (simp_all add: no_flush_dev_def)
  obtain e s1 where a: "command scripted sync_10 DirNone [] no_flush_dev = (Inl e, s1)" "unsupported e"
      "transport s1 = [csw_bytes 9 0 1, bad_opcode_sense, csw_bytes 10 0 0]" "next_tag s1 = 9"
    using scripted_refused [of no_flush_dev "[csw_bytes 9 0 1, bad_opcode_sense, csw_bytes 10 0 0]" sync_10] n by auto
  obtain e' s2 where b: "command scripted sync_16 DirNone [] s1 = (Inl e', s2)" "unsupported e'"
    using scripted_refused [of s1 "[]" sync_16] a by auto
  show ?thesis using a(1,2) b n(2) by (simp add: scsi_flush_def synchronize_cache_def)
qed

theorem flush_skipped_only_when_refused_witness:
  "\<exists>pre post. [DevFlush, DevFlush] = pre @ DevFlush # post \<and> refused_both scripted (dev_run scripted pre no_flush_dev)"
proof -
  obtain s where s: "scsi_flush scripted no_flush_dev = (Inr (), s)" "no_flush_command s" using scripted_flush by blast
  have r: "dev_run scripted [DevFlush] no_flush_dev = s" using s(1) by (simp add: dev_run_def dev_step_def)
  have "scsi_flush scripted (dev_run scripted [DevFlush] no_flush_dev) = (Inr (), s)" unfolding r using s(2) by (simp add: scsi_flush_def synchronize_cache_def)
  moreover have "transport_quiet scripted" by (simp add: transport_quiet_def scripted_def)
  moreover have "\<not> no_flush_command no_flush_dev" by (simp add: no_flush_dev_def)
  ultimately show ?thesis using flush_skipped_only_when_refused [of scripted no_flush_dev "[DevFlush]" s] s(2) by (simp add: flush_is_a_no_op_def)
qed

end
