(* ===== verification/Btree_Node.thy ===== *)
theory Btree_Node
  imports Chunk_Map "HOL-Library.Product_Lexorder"
begin

text \<open>
  The reader of btrfs tree blocks (\<open>core/src/fs/btrfs/tree.rs\<close>, checksums from \<open>superblock.rs\<close> and
  \<open>crc32c.rs\<close>): a verified \<open>Node\<close>, its keys, child pointers and item data, and the searches in it. The
  checksum functions themselves are those of the \<open>crc32c\<close> and \<open>sha2\<close> crates; they are an argument \<open>H\<close>
  of every definition that checks or computes a checksum. The lemmas: the hand written binary search
  finds the first entry not below a key, and \<open>child_for\<close> picks the only child that can hold it.
\<close>

section \<open>Checksums\<close>

text \<open>\<open>crc32c_append\<close> and \<open>sha256\<close> of the external crates. What the code relies on: the first returns a
  32 bit number, the second 32 bytes.\<close>

record hashes =
  crc32c_append :: "nat \<Rightarrow> bytes \<Rightarrow> nat"
  sha256 :: "bytes \<Rightarrow> bytes"

definition hashes_ok :: "hashes \<Rightarrow> bool" where
  "hashes_ok H \<longleftrightarrow> (\<forall>s d. crc32c_append H s d < 2 ^ 32) \<and> (\<forall>d. length (sha256 H d) = 32)"

definition not32 :: "nat \<Rightarrow> nat" where
  "not32 x = u32_max - x"

definition crc32c_seed :: "hashes \<Rightarrow> nat \<Rightarrow> bytes \<Rightarrow> nat" where
  "crc32c_seed H seed data = not32 (crc32c_append H (not32 seed) data)"

definition crc32c :: "hashes \<Rightarrow> bytes \<Rightarrow> nat" where
  "crc32c H data = not32 (crc32c_seed H (not32 0) data)"

definition name_hash :: "hashes \<Rightarrow> bytes \<Rightarrow> nat" where
  "name_hash H name = crc32c_seed H (not32 1) name"

datatype csum_type = Crc32c | Sha256

definition csum_from_raw :: "nat \<Rightarrow> csum_type result" where
  "csum_from_raw raw =
     (if raw = 0 then Inr Crc32c
      else if raw = 2 then Inr Sha256
      else if raw = 1 then Inl (UnsupportedFsFeature ''btrfs xxhash64 checksums'')
      else if raw = 3 then Inl (UnsupportedFsFeature ''btrfs blake2b checksums'')
      else Inl (UnsupportedFsFeature ''btrfs checksum type''))"

definition csum_size :: "csum_type \<Rightarrow> nat" where
  "csum_size ct = (case ct of Crc32c \<Rightarrow> 4 | Sha256 \<Rightarrow> 32)"

definition csum_verify :: "hashes \<Rightarrow> csum_type \<Rightarrow> bytes \<Rightarrow> bytes \<Rightarrow> bool" where
  "csum_verify H ct stored data =
     (case ct of
        Crc32c \<Rightarrow> crc32c H data = le_val (slice stored 0 4)
      | Sha256 \<Rightarrow> sha256 H data = slice stored 0 32)"

definition csum_calculate :: "hashes \<Rightarrow> csum_type \<Rightarrow> bytes \<Rightarrow> bytes" where
  "csum_calculate H ct data =
     (case ct of
        Crc32c \<Rightarrow> put (replicate 32 0) 0 (le_bytes 4 (crc32c H data))
      | Sha256 \<Rightarrow> sha256 H data)"

lemma crc32c_bound: "crc32c H d < 2 ^ 32"
  by (simp add: crc32c_def not32_def u32_max_def)

lemma length_csum_calculate: "hashes_ok H \<Longrightarrow> length (csum_calculate H ct d) = 32"
  by (cases ct) (simp_all add: csum_calculate_def hashes_ok_def)

lemma csum_verify_calculate: "hashes_ok H \<Longrightarrow> csum_verify H ct (csum_calculate H ct d) d"
  using crc32c_bound [of H d]
  by (cases ct) (simp_all add: csum_verify_def csum_calculate_def hashes_ok_def bytes_simps)

section \<open>Keys\<close>

definition HEADER_SIZE :: nat where "HEADER_SIZE = 101"
definition ITEM_SIZE :: nat where "ITEM_SIZE = 25"
definition KEY_PTR_SIZE :: nat where "KEY_PTR_SIZE = 33"

lemmas node_consts = HEADER_SIZE_def ITEM_SIZE_def KEY_PTR_SIZE_def KEY_SIZE_def

text \<open>The derived order of \<open>Key\<close>: lexicographic in object id, type and offset.\<close>

definition key_ord :: "key \<Rightarrow> nat \<times> nat \<times> nat" where
  "key_ord k = (objectid k, item_type k, offset k)"

lemma key_ord_inject [simp]: "key_ord a = key_ord b \<longleftrightarrow> a = b"
  by (cases a; cases b) (simp add: key_ord_def)

definition key_parse :: "bytes \<Rightarrow> nat \<Rightarrow> key" where
  "key_parse b at = \<lparr>objectid = u64le b at, item_type = unat (b ! (at + 8)), offset = u64le b (at + 9)\<rparr>"

section \<open>Nodes\<close>

record key_ptr =
  ptr_key :: key
  ptr_blockptr :: nat
  ptr_generation :: nat

record node =
  raw :: bytes
  node_level :: nat
  nr_items :: nat
  node_owner :: nat
  node_generation :: nat

definition node_parse :: "hashes \<Rightarrow> bytes \<Rightarrow> nat \<Rightarrow> csum_type \<Rightarrow> bytes \<Rightarrow> node result" where
  "node_parse H b bytenr ct metadata_uuid =
     (if length b < HEADER_SIZE then Inl (Truncated HEADER_SIZE (length b))
      else if \<not> csum_verify H ct (slice b 0 32) (drop 32 b) then Inl (FsChecksumMismatch ''btrfs tree node'')
      else if u64le b 48 \<noteq> bytenr then Inl (CorruptFs ''btrfs tree node is not at the address that pointed to it'')
      else if slice b 32 16 \<noteq> metadata_uuid then Inl (CorruptFs ''btrfs tree node belongs to a different filesystem'')
      else
        let nr = u32le b 96;
            lvl = unat (b ! 100);
            per_entry = (if lvl = 0 then ITEM_SIZE else KEY_PTR_SIZE)
        in if HEADER_SIZE + nr * per_entry > length b then Inl (CorruptFs ''btrfs node item count overruns'')
           else Inr \<lparr>raw = b, node_level = lvl, nr_items = nr, node_owner = u64le b 88, node_generation = u64le b 80\<rparr>)"

definition is_leaf :: "node \<Rightarrow> bool" where "is_leaf n \<longleftrightarrow> node_level n = 0"
definition node_bytenr :: "node \<Rightarrow> nat" where "node_bytenr n = u64le (raw n) 48"
definition node_flags :: "node \<Rightarrow> nat" where "node_flags n = u64le (raw n) 56"
definition node_metadata_uuid :: "node \<Rightarrow> bytes" where "node_metadata_uuid n = slice (raw n) 32 16"
definition node_chunk_tree_uuid :: "node \<Rightarrow> bytes" where "node_chunk_tree_uuid n = slice (raw n) 64 16"

definition node_stride :: "node \<Rightarrow> nat" where
  "node_stride n = (if is_leaf n then ITEM_SIZE else KEY_PTR_SIZE)"

definition node_key :: "node \<Rightarrow> nat \<Rightarrow> key result" where
  "node_key n i =
     (if i \<ge> nr_items n then Inl (CorruptFs ''btrfs node index out of range'')
      else Inr (key_parse (raw n) (HEADER_SIZE + i * node_stride n)))"

definition node_key_ptr :: "node \<Rightarrow> nat \<Rightarrow> key_ptr result" where
  "node_key_ptr n i =
     (if is_leaf n then Inl (CorruptFs ''btrfs leaf has no child pointers'')
      else
        let at = HEADER_SIZE + i * KEY_PTR_SIZE in
        rbind (node_key n i) (\<lambda>k.
          Inr \<lparr>ptr_key = k, ptr_blockptr = u64le (raw n) (at + KEY_SIZE), ptr_generation = u64le (raw n) (at + KEY_SIZE + 8)\<rparr>))"

definition node_item_data :: "node \<Rightarrow> nat \<Rightarrow> bytes result" where
  "node_item_data n i =
     (if \<not> is_leaf n then Inl (CorruptFs ''btrfs interior node has no item data'')
      else if i \<ge> nr_items n then Inl (CorruptFs ''btrfs node index out of range'')
      else
        let at = HEADER_SIZE + i * ITEM_SIZE;
            off = u32le (raw n) (at + KEY_SIZE);
            size = u32le (raw n) (at + KEY_SIZE + 4)
        in case checked_add64 HEADER_SIZE off of
             None \<Rightarrow> Inl (CorruptFs ''btrfs item offset overflows'')
           | Some start \<Rightarrow>
               (case checked_add64 start size of
                  None \<Rightarrow> Inl (CorruptFs ''btrfs item length overflows'')
                | Some fin \<Rightarrow>
                    if fin > length (raw n) then Inl (CorruptFs ''btrfs item data past end of node'')
                    else Inr (slice (raw n) start size)))"

text \<open>The search loop of \<open>lower_bound\<close>.\<close>

function lower_bound_loop :: "node \<Rightarrow> key \<Rightarrow> nat \<Rightarrow> nat \<Rightarrow> nat result" where
  "lower_bound_loop n k lo hi =
     (if lo < hi then
        let mid = lo + (hi - lo) div 2 in
        case node_key n mid of
          Inl e \<Rightarrow> Inl e
        | Inr km \<Rightarrow> if key_ord km < key_ord k then lower_bound_loop n k (mid + 1) hi else lower_bound_loop n k lo mid
      else Inr lo)"
  by pat_completeness auto
termination
  by (relation "measure (\<lambda>(n, k, lo, hi). hi - lo)") auto

declare lower_bound_loop.simps [simp del]

definition lower_bound :: "node \<Rightarrow> key \<Rightarrow> nat result" where
  "lower_bound n k = lower_bound_loop n k 0 (nr_items n)"

definition child_for :: "node \<Rightarrow> key \<Rightarrow> nat result" where
  "child_for n k =
     (if nr_items n = 0 then Inl (CorruptFs ''btrfs interior node has no child pointers'')
      else rbind (lower_bound n k) (\<lambda>bound.
        if bound < nr_items n then
          rbind (node_key n bound) (\<lambda>kb. if kb = k then Inr bound else Inr (bound - 1))
        else Inr (bound - 1)))"

section \<open>Searching\<close>

text \<open>The keys of a node, as the entries list them, and what it means for them to be in order.\<close>

definition node_keys :: "node \<Rightarrow> key list" where
  "node_keys n = map (\<lambda>i. key_parse (raw n) (HEADER_SIZE + i * node_stride n)) [0..<nr_items n]"

definition node_sorted :: "node \<Rightarrow> bool" where
  "node_sorted n \<longleftrightarrow> sorted_wrt (\<lambda>a b. key_ord a < key_ord b) (node_keys n)"

lemma length_node_keys [simp]: "length (node_keys n) = nr_items n"
  by (simp add: node_keys_def)

lemma node_key_nth: "i < nr_items n \<Longrightarrow> node_key n i = Inr (node_keys n ! i)"
  by (simp add: node_key_def node_keys_def)

lemma partition_point_unique:
  assumes "i \<le> length xs" "\<And>j. j < i \<Longrightarrow> p (xs ! j)" "\<And>j. i \<le> j \<Longrightarrow> j < length xs \<Longrightarrow> \<not> p (xs ! j)"
  shows "partition_point p xs = i"
proof -
  have "takeWhile p xs = take i xs"
  proof (rule takeWhile_eq_take_P_nth)
    show "p (xs ! j)" if "j < i" "j < length xs" for j using assms(2) that by simp
    show "\<not> p (xs ! i)" if "i < length xs" using assms(3) that by simp
  qed
  then show ?thesis using assms(1) by (simp add: partition_point_def)
qed

lemma node_sorted_nth:
  "node_sorted n \<Longrightarrow> i < j \<Longrightarrow> j < nr_items n \<Longrightarrow> key_ord (node_keys n ! i) < key_ord (node_keys n ! j)"
  unfolding node_sorted_def using sorted_wrt_nth_less [of _ "node_keys n" i j] by simp

lemma lower_bound_loop_correct:
  assumes s: "node_sorted n"
  shows "lo \<le> hi \<Longrightarrow> hi \<le> nr_items n \<Longrightarrow> (\<And>j. j < lo \<Longrightarrow> key_ord (node_keys n ! j) < key_ord k) \<Longrightarrow>
    (\<And>j. hi \<le> j \<Longrightarrow> j < nr_items n \<Longrightarrow> \<not> key_ord (node_keys n ! j) < key_ord k) \<Longrightarrow>
    lower_bound_loop n k lo hi = Inr (partition_point (\<lambda>x. key_ord x < key_ord k) (node_keys n))"
proof (induction "hi - lo" arbitrary: lo hi rule: less_induct)
  case less
  show ?case
  proof (cases "lo < hi")
    case False
    then have "partition_point (\<lambda>x. key_ord x < key_ord k) (node_keys n) = lo"
      using less.prems by (intro partition_point_unique) auto
    then show ?thesis using False by (subst lower_bound_loop.simps) simp
  next
    case True
    define mid where "mid = lo + (hi - lo) div 2"
    have mid: "lo \<le> mid" "mid < hi" "mid < nr_items n" using True less.prems(2) by (simp_all add: mid_def)
    have step: "lower_bound_loop n k lo hi =
        (if key_ord (node_keys n ! mid) < key_ord k then lower_bound_loop n k (mid + 1) hi else lower_bound_loop n k lo mid)"
      using True mid by (subst lower_bound_loop.simps) (simp add: Let_def mid_def [symmetric] node_key_nth)
    show ?thesis
    proof (cases "key_ord (node_keys n ! mid) < key_ord k")
      case T: True
      have "key_ord (node_keys n ! j) < key_ord k" if "j < mid + 1" for j
        using node_sorted_nth [OF s, of j mid] T mid that by (cases "j = mid") auto
      then have "lower_bound_loop n k (mid + 1) hi = Inr (partition_point (\<lambda>x. key_ord x < key_ord k) (node_keys n))"
        using less.prems mid by (intro less.hyps) auto
      then show ?thesis using step T by simp
    next
      case F: False
      have "\<not> key_ord (node_keys n ! j) < key_ord k" if "mid \<le> j" "j < nr_items n" for j
        using node_sorted_nth [OF s, of mid j] F that by (cases "j = mid") auto
      then have "lower_bound_loop n k lo mid = Inr (partition_point (\<lambda>x. key_ord x < key_ord k) (node_keys n))"
        using less.prems mid by (intro less.hyps) auto
      then show ?thesis using step F by simp
    qed
  qed
qed

lemma lower_bound_eq:
  "node_sorted n \<Longrightarrow> lower_bound n k = Inr (partition_point (\<lambda>x. key_ord x < key_ord k) (node_keys n))"
  unfolding lower_bound_def by (rule lower_bound_loop_correct) auto

lemma partition_point_nth:
  fixes f :: "'a \<Rightarrow> 'k :: linorder"
  assumes "sorted_wrt (\<lambda>a b. f a < f b) xs" "j < length xs"
  shows "j < partition_point (\<lambda>x. f x < k) xs \<longleftrightarrow> f (xs ! j) < k"
proof -
  let ?i = "partition_point (\<lambda>x. f x < k) xs"
  note ps = point_split [OF assms(1) refl, where k = k]
  show ?thesis
  proof
    assume "j < ?i"
    then have "xs ! j \<in> set (take ?i xs)" using assms(2) by (auto simp: in_set_conv_nth intro!: exI [of _ j])
    then show "f (xs ! j) < k" by (rule ps(2))
  next
    assume lt: "f (xs ! j) < k"
    show "j < ?i"
    proof (rule ccontr)
      assume "\<not> j < ?i"
      then have "xs ! j \<in> set (drop ?i xs)"
        using assms(2) by (auto simp: in_set_conv_nth intro!: exI [of _ "j - ?i"])
      then show False using ps(3) lt by fastforce
    qed
  qed
qed

text \<open>Where \<open>child_for\<close> descends.\<close>

lemma child_for_spec:
  assumes "node_sorted n" "0 < nr_items n"
  shows "\<exists>c < nr_items n. child_for n k = Inr c \<and> (c = 0 \<or> key_ord (node_keys n ! c) \<le> key_ord k)
    \<and> (\<forall>j. c < j \<longrightarrow> j < nr_items n \<longrightarrow> key_ord k < key_ord (node_keys n ! j))"
proof -
  define b where "b = partition_point (\<lambda>x. key_ord x < key_ord k) (node_keys n)"
  have s: "sorted_wrt (\<lambda>a b. key_ord a < key_ord b) (node_keys n)" using assms(1) by (simp add: node_sorted_def)
  have b: "b \<le> nr_items n" using partition_point_le [of _ "node_keys n"] by (simp add: b_def)
  have lt: "j < b \<longleftrightarrow> key_ord (node_keys n ! j) < key_ord k" if "j < nr_items n" for j
    using partition_point_nth [OF s, of j "key_ord k"] that by (simp add: b_def)
  have lb: "lower_bound n k = Inr b" using lower_bound_eq [OF assms(1)] by (simp add: b_def)
  show ?thesis
  proof (cases "b < nr_items n \<and> node_keys n ! b = k")
    case True
    then have "child_for n k = Inr b" using lb assms(2) by (simp add: child_for_def node_key_nth)
    moreover have "key_ord k < key_ord (node_keys n ! j)" if "b < j" "j < nr_items n" for j
      using node_sorted_nth [OF assms(1) that] True by simp
    ultimately show ?thesis using True by auto
  next
    case False
    then have c: "child_for n k = Inr (b - 1)" using lb assms(2) by (auto simp: child_for_def node_key_nth)
    have above: "key_ord k < key_ord (node_keys n ! j)" if "b \<le> j" "j < nr_items n" for j
    proof -
      have "key_ord k < key_ord (node_keys n ! b)"
        using lt [of b] False that by (simp add: not_less order.strict_iff_order eq_commute)
      then show ?thesis using node_sorted_nth [OF assms(1), of b j] that by (cases "j = b") auto
    qed
    moreover have "b - 1 = 0 \<or> key_ord (node_keys n ! (b - 1)) \<le> key_ord k"
      using lt [of "b - 1"] b assms(2) by (cases b) auto
    ultimately show ?thesis using c b assms(2) by (intro exI [of _ "b - 1"]) auto
  qed
qed

section \<open>Properties\<close>

text \<open>C23: descending the tree. In a node whose keys ascend, \<open>child_for\<close> returns the last entry whose key
  is not above the target, or entry 0 when every key is above it: every later child starts beyond the
  target, so no other subtree can hold it. It fails only on a node without entries.\<close>

theorem child_for_correct:
  assumes "node_sorted n" "0 < nr_items n"
  shows "\<exists>c < nr_items n. child_for n k = Inr c \<and> (c = 0 \<or> key_ord (node_keys n ! c) \<le> key_ord k)
    \<and> (\<forall>j. c < j \<longrightarrow> j < nr_items n \<longrightarrow> key_ord k < key_ord (node_keys n ! j))"
  by (rule child_for_spec [OF assms])

definition two_child_node :: node where
  "two_child_node = \<lparr>raw = replicate 101 0 @ le_bytes 8 256 @ [1] @ le_bytes 8 0 @ replicate 16 0
       @ le_bytes 8 300 @ [1] @ le_bytes 8 0 @ replicate 16 0,
     node_level = 1, nr_items = 2, node_owner = 5, node_generation = 1\<rparr>"

lemma two_child_keys: "node_keys two_child_node = [key_new 256 1 0, key_new 300 1 0]"
  by code_simp

theorem child_for_correct_witness:
  "\<exists>c < 2. child_for two_child_node (key_new 299 1 0) = Inr c
    \<and> (c = 0 \<or> key_ord (node_keys two_child_node ! c) \<le> key_ord (key_new 299 1 0))
    \<and> (\<forall>j. c < j \<longrightarrow> j < 2 \<longrightarrow> key_ord (key_new 299 1 0) < key_ord (node_keys two_child_node ! j))"
proof -
  have "node_sorted two_child_node" "nr_items two_child_node = 2"
    by (simp_all add: node_sorted_def two_child_keys key_ord_def key_new_def) (simp add: two_child_node_def)
  then show ?thesis using child_for_correct [of two_child_node "key_new 299 1 0"] by simp
qed

end
