(* ===== verification/Node_Edit.thy ===== *)
theory Node_Edit
  imports Btree_Node
begin

text \<open>
  In-memory surgery on btrfs tree blocks (\<open>core/src/fs/btrfs/write/node.rs\<close>): the editable \<open>Leaf\<close> and
  \<open>InteriorNode\<close>, their insertion, replacement, deletion, split and serialisation. The lemmas show that
  a leaf is a finite map from keys to payloads kept in key order, that a split loses nothing and its
  pivot separates the halves, and that the reader of \<open>Btree_Node\<close> accepts every emitted block and
  recovers exactly the node it came from.
\<close>

section \<open>Leaves\<close>

definition HEADER_FLAG_WRITTEN :: nat where "HEADER_FLAG_WRITTEN = 1"

definition max_item_payload_bytes :: "nat \<Rightarrow> nat" where
  "max_item_payload_bytes node_size = node_size - HEADER_SIZE - ITEM_SIZE"

text \<open>The name an item type has in an error message.\<close>

definition item_type_name :: "nat \<Rightarrow> string" where
  "item_type_name ty =
     (case map_of
        [(1, ''inode item''), (12, ''inode ref''), (24, ''xattr item''), (84, ''directory item''),
         (96, ''directory index''), (108, ''file extent item''), (128, ''checksum item''), (132, ''root item''),
         (144, ''root backref''), (156, ''root ref''), (168, ''extent item''), (169, ''metadata item''),
         (176, ''tree block ref''), (178, ''extent data ref''), (182, ''shared block ref''),
         (184, ''shared data ref''), (192, ''block group item''), (198, ''free space info''),
         (199, ''free space extent''), (200, ''free space bitmap''), (204, ''device extent''),
         (216, ''device item''), (228, ''chunk item'')] ty of
        None \<Rightarrow> ''tree item'' | Some s \<Rightarrow> s)"

record leaf_item =
  li_key :: key
  li_data :: bytes

record leaf =
  lf_bytenr :: nat
  lf_generation :: nat
  lf_owner :: nat
  lf_flags :: nat
  lf_metadata_uuid :: bytes
  lf_chunk_tree_uuid :: bytes
  lf_csum_type :: csum_type
  lf_items :: "leaf_item list"

definition leaf_new :: "nat \<Rightarrow> nat \<Rightarrow> nat \<Rightarrow> bytes \<Rightarrow> csum_type \<Rightarrow> leaf" where
  "leaf_new bytenr gen own uuid ct =
     \<lparr>lf_bytenr = bytenr, lf_generation = gen, lf_owner = own, lf_flags = HEADER_FLAG_WRITTEN,
      lf_metadata_uuid = uuid, lf_chunk_tree_uuid = replicate 16 0, lf_csum_type = ct, lf_items = []\<rparr>"

text \<open>The entry loops of \<open>from_node\<close>: every index in turn, stopping at the first failure.\<close>

fun collect :: "(nat \<Rightarrow> 'a result) \<Rightarrow> nat list \<Rightarrow> 'a list result" where
  "collect f [] = Inr []"
| "collect f (i # is) = rbind (f i) (\<lambda>x. rbind (collect f is) (\<lambda>xs. Inr (x # xs)))"

definition leaf_from_node :: "node \<Rightarrow> csum_type \<Rightarrow> leaf result" where
  "leaf_from_node n ct =
     (if \<not> is_leaf n then Inl (CorruptFs ''cannot convert interior node to leaf'')
      else rbind (collect (\<lambda>i. rbind (node_key n i) (\<lambda>k. rbind (node_item_data n i) (\<lambda>d.
                    Inr \<lparr>li_key = k, li_data = d\<rparr>))) [0..<nr_items n]) (\<lambda>its.
        Inr \<lparr>lf_bytenr = node_bytenr n, lf_generation = node_generation n, lf_owner = node_owner n,
             lf_flags = node_flags n, lf_metadata_uuid = node_metadata_uuid n,
             lf_chunk_tree_uuid = node_chunk_tree_uuid n, lf_csum_type = ct, lf_items = its\<rparr>))"

definition total_data_bytes :: "leaf \<Rightarrow> nat" where
  "total_data_bytes l = sum_list (map (\<lambda>i. length (li_data i)) (lf_items l))"

definition leaf_free_space :: "leaf \<Rightarrow> nat \<Rightarrow> nat" where
  "leaf_free_space l node_size = node_size - (HEADER_SIZE + length (lf_items l) * ITEM_SIZE + total_data_bytes l)"

abbreviation item_ord :: "leaf_item \<Rightarrow> nat \<times> nat \<times> nat" where
  "item_ord i \<equiv> key_ord (li_key i)"

definition find_item :: "leaf \<Rightarrow> key \<Rightarrow> nat option" where
  "find_item l k = (case binary_search_by_key (key_ord k) item_ord (lf_items l) of Inr i \<Rightarrow> Some i | Inl _ \<Rightarrow> None)"

definition replace_item :: "leaf \<Rightarrow> key \<Rightarrow> bytes \<Rightarrow> leaf result" where
  "replace_item l k d =
     (case find_item l k of
        None \<Rightarrow> Inl (NotFound ''item key not found in leaf'')
      | Some i \<Rightarrow> Inr (l\<lparr>lf_items := (lf_items l)[i := (lf_items l ! i)\<lparr>li_data := d\<rparr>]\<rparr>))"

definition insert_item :: "leaf \<Rightarrow> key \<Rightarrow> bytes \<Rightarrow> nat \<Rightarrow> leaf result" where
  "insert_item l k d node_size =
     (let needed = ITEM_SIZE + length d in
      if length d > max_item_payload_bytes node_size
      then Inl (BtrfsItemTooLarge (item_type_name (item_type k)) (length d) node_size)
      else if needed > leaf_free_space l node_size then Inl FilesystemFull
      else case binary_search_by_key (key_ord k) item_ord (lf_items l) of
          Inr _ \<Rightarrow> Inl (AlreadyExists ''duplicate key in leaf'')
        | Inl pos \<Rightarrow>
            Inr (l\<lparr>lf_items := take pos (lf_items l) @ \<lparr>li_key = k, li_data = d\<rparr> # drop pos (lf_items l)\<rparr>))"

definition delete_item :: "leaf \<Rightarrow> key \<Rightarrow> (bytes \<times> leaf) result" where
  "delete_item l k =
     (case find_item l k of
        None \<Rightarrow> Inl (NotFound ''item key not found in leaf'')
      | Some i \<Rightarrow> Inr (li_data (lf_items l ! i), l\<lparr>lf_items := take i (lf_items l) @ drop (i + 1) (lf_items l)\<rparr>))"

definition leaf_split :: "leaf \<Rightarrow> nat \<Rightarrow> (leaf \<times> leaf \<times> key) result" where
  "leaf_split l right_bytenr =
     (if length (lf_items l) < 2 then Inl (CorruptFs ''cannot split leaf with fewer than 2 items'')
      else
        let mid = length (lf_items l) div 2;
            right_items = drop mid (lf_items l)
        in Inr (l\<lparr>lf_items := take mid (lf_items l)\<rparr>, l\<lparr>lf_bytenr := right_bytenr, lf_items := right_items\<rparr>,
                li_key (right_items ! 0)))"

text \<open>The header fields both kinds of node write, at offsets 32 to 101 of a zeroed block.\<close>

definition emit_header :: "nat \<Rightarrow> bytes \<Rightarrow> nat \<Rightarrow> nat \<Rightarrow> bytes \<Rightarrow> nat \<Rightarrow> nat \<Rightarrow> nat \<Rightarrow> nat \<Rightarrow> bytes" where
  "emit_header sz uuid bytenr flags chunk_uuid gen own nr lvl =
     (let b = replicate sz 0;
          b = put b 32 uuid;
          b = put b 48 (le_bytes 8 bytenr);
          b = put b 56 (le_bytes 8 flags);
          b = put b 64 chunk_uuid;
          b = put b 80 (le_bytes 8 gen);
          b = put b 88 (le_bytes 8 own);
          b = put b 96 (le_bytes 4 nr);
          b = put b 100 [word_of_nat lvl]
      in b)"

fun emit_items :: "bytes \<Rightarrow> nat \<Rightarrow> nat \<Rightarrow> leaf_item list \<Rightarrow> bytes" where
  "emit_items b i data_offset [] = b"
| "emit_items b i data_offset (it # its) =
     (let item_len = length (li_data it);
          data_offset = data_offset - item_len;
          desc_pos = HEADER_SIZE + i * ITEM_SIZE;
          b = put b desc_pos (le_bytes 8 (objectid (li_key it)));
          b = put b (desc_pos + 8) [word_of_nat (item_type (li_key it))];
          b = put b (desc_pos + 9) (le_bytes 8 (offset (li_key it)));
          b = put b (desc_pos + 17) (le_bytes 4 data_offset);
          b = put b (desc_pos + 21) (le_bytes 4 item_len);
          data_pos = HEADER_SIZE + data_offset;
          b = put b data_pos (li_data it)
      in emit_items b (i + 1) data_offset its)"

definition seal :: "hashes \<Rightarrow> csum_type \<Rightarrow> bytes \<Rightarrow> bytes" where
  "seal H ct b = put b 0 (csum_calculate H ct (drop 32 b))"

definition leaf_emit :: "hashes \<Rightarrow> leaf \<Rightarrow> nat \<Rightarrow> bytes result" where
  "leaf_emit H l node_size =
     (let nr = length (lf_items l);
          needed = HEADER_SIZE + nr * ITEM_SIZE + total_data_bytes l
      in if needed > node_size then Inl FilesystemFull
         else
           let b = emit_header node_size (lf_metadata_uuid l) (lf_bytenr l) (lf_flags l) (lf_chunk_tree_uuid l)
                     (lf_generation l) (lf_owner l) nr 0;
               b = emit_items b 0 (node_size - HEADER_SIZE) (lf_items l)
           in Inr (seal H (lf_csum_type l) b))"

section \<open>Interior nodes\<close>

record interior_entry =
  ie_key :: key
  ie_blockptr :: nat
  ie_generation :: nat

record interior_node =
  in_bytenr :: nat
  in_generation :: nat
  in_owner :: nat
  in_level :: nat
  in_flags :: nat
  in_metadata_uuid :: bytes
  in_chunk_tree_uuid :: bytes
  in_csum_type :: csum_type
  in_entries :: "interior_entry list"

definition interior_new :: "nat \<Rightarrow> nat \<Rightarrow> nat \<Rightarrow> nat \<Rightarrow> bytes \<Rightarrow> csum_type \<Rightarrow> interior_node result" where
  "interior_new bytenr gen own lvl uuid ct =
     (if lvl = 0 then Inl (CorruptFs ''interior node level must be greater than 0'')
      else Inr \<lparr>in_bytenr = bytenr, in_generation = gen, in_owner = own, in_level = lvl, in_flags = HEADER_FLAG_WRITTEN,
                in_metadata_uuid = uuid, in_chunk_tree_uuid = replicate 16 0, in_csum_type = ct, in_entries = []\<rparr>)"

definition interior_from_node :: "node \<Rightarrow> csum_type \<Rightarrow> interior_node result" where
  "interior_from_node n ct =
     (if is_leaf n then Inl (CorruptFs ''cannot convert leaf to interior node'')
      else rbind (collect (\<lambda>i. rbind (node_key_ptr n i) (\<lambda>p.
                    Inr \<lparr>ie_key = ptr_key p, ie_blockptr = ptr_blockptr p, ie_generation = ptr_generation p\<rparr>))
                  [0..<nr_items n]) (\<lambda>es.
        Inr \<lparr>in_bytenr = node_bytenr n, in_generation = node_generation n, in_owner = node_owner n,
             in_level = node_level n, in_flags = node_flags n, in_metadata_uuid = node_metadata_uuid n,
             in_chunk_tree_uuid = node_chunk_tree_uuid n, in_csum_type = ct, in_entries = es\<rparr>))"

definition interior_free_space :: "interior_node \<Rightarrow> nat \<Rightarrow> nat" where
  "interior_free_space n node_size = node_size - (HEADER_SIZE + length (in_entries n) * KEY_PTR_SIZE)"

abbreviation entry_ord :: "interior_entry \<Rightarrow> nat \<times> nat \<times> nat" where
  "entry_ord e \<equiv> key_ord (ie_key e)"

definition insert_entry :: "interior_node \<Rightarrow> key \<Rightarrow> nat \<Rightarrow> nat \<Rightarrow> nat \<Rightarrow> interior_node result" where
  "insert_entry n k blockptr gen node_size =
     (if KEY_PTR_SIZE > interior_free_space n node_size then Inl FilesystemFull
      else
        let pos = (case binary_search_by_key (key_ord k) entry_ord (in_entries n) of Inr p \<Rightarrow> p | Inl p \<Rightarrow> p)
        in Inr (n\<lparr>in_entries := take pos (in_entries n)
                 @ \<lparr>ie_key = k, ie_blockptr = blockptr, ie_generation = gen\<rparr> # drop pos (in_entries n)\<rparr>))"

definition update_entry_by_blockptr :: "interior_node \<Rightarrow> nat \<Rightarrow> key option \<Rightarrow> nat \<Rightarrow> nat \<Rightarrow> interior_node result" where
  "update_entry_by_blockptr n old_blockptr new_key new_blockptr new_generation =
     (let i = partition_point (\<lambda>e. ie_blockptr e \<noteq> old_blockptr) (in_entries n) in
      if i < length (in_entries n) then
        let e = in_entries n ! i;
            e = (case new_key of None \<Rightarrow> e | Some k \<Rightarrow> e\<lparr>ie_key := k\<rparr>);
            e = e\<lparr>ie_blockptr := new_blockptr, ie_generation := new_generation\<rparr>
        in Inr (n\<lparr>in_entries := sort_key entry_ord ((in_entries n)[i := e])\<rparr>)
      else Inl (NotFound ''interior node block pointer not found''))"

definition interior_split :: "interior_node \<Rightarrow> nat \<Rightarrow> (interior_node \<times> interior_node \<times> key) result" where
  "interior_split n right_bytenr =
     (if length (in_entries n) < 2 then Inl (CorruptFs ''cannot split interior node with fewer than 2 entries'')
      else
        let mid = length (in_entries n) div 2;
            right_entries = drop mid (in_entries n)
        in Inr (n\<lparr>in_entries := take mid (in_entries n)\<rparr>, n\<lparr>in_bytenr := right_bytenr, in_entries := right_entries\<rparr>,
                ie_key (right_entries ! 0)))"

fun emit_entries :: "bytes \<Rightarrow> nat \<Rightarrow> interior_entry list \<Rightarrow> bytes" where
  "emit_entries b i [] = b"
| "emit_entries b i (e # es) =
     (let pos = HEADER_SIZE + i * KEY_PTR_SIZE;
          b = put b pos (le_bytes 8 (objectid (ie_key e)));
          b = put b (pos + 8) [word_of_nat (item_type (ie_key e))];
          b = put b (pos + 9) (le_bytes 8 (offset (ie_key e)));
          b = put b (pos + 17) (le_bytes 8 (ie_blockptr e));
          b = put b (pos + 25) (le_bytes 8 (ie_generation e))
      in emit_entries b (i + 1) es)"

definition interior_emit :: "hashes \<Rightarrow> interior_node \<Rightarrow> nat \<Rightarrow> bytes result" where
  "interior_emit H n node_size =
     (let nr = length (in_entries n);
          needed = HEADER_SIZE + nr * KEY_PTR_SIZE
      in if needed > node_size then Inl FilesystemFull
         else
           let b = emit_header node_size (in_metadata_uuid n) (in_bytenr n) (in_flags n) (in_chunk_tree_uuid n)
                     (in_generation n) (in_owner n) nr (in_level n);
               b = emit_entries b 0 (in_entries n)
           in Inr (seal H (in_csum_type n) b))"

section \<open>A leaf is a map\<close>

definition leaf_sorted :: "leaf \<Rightarrow> bool" where
  "leaf_sorted l \<longleftrightarrow> sorted_wrt (\<lambda>a b. item_ord a < item_ord b) (lf_items l)"

definition leaf_map :: "leaf \<Rightarrow> key \<rightharpoonup> bytes" where
  "leaf_map l = map_of (map (\<lambda>i. (li_key i, li_data i)) (lf_items l))"

definition items_map :: "leaf_item list \<Rightarrow> key \<rightharpoonup> bytes" where
  "items_map its = map_of (map (\<lambda>i. (li_key i, li_data i)) its)"

lemma leaf_map_items: "leaf_map l = items_map (lf_items l)"
  by (simp add: leaf_map_def items_map_def)

lemma items_map_append: "items_map (A @ B) = items_map B ++ items_map A"
  by (simp add: items_map_def)

lemma items_map_Cons: "items_map (i # B) = (items_map B)(li_key i \<mapsto> li_data i)"
  by (simp add: items_map_def)

lemma items_map_None: "items_map its k = None \<longleftrightarrow> (\<forall>i \<in> set its. li_key i \<noteq> k)"
  by (auto simp: items_map_def map_of_eq_None_iff image_image)

text \<open>Where a key stands in a sorted leaf: everything before is smaller, everything after larger, and
  the binary search finds the spot.\<close>

lemma leaf_search:
  assumes "leaf_sorted l"
  obtains (present) A i B where "lf_items l = A @ i # B" "li_key i = k" "find_item l k = Some (length A)"
      "binary_search_by_key (key_ord k) item_ord (lf_items l) = Inr (length A)"
      "\<forall>a \<in> set A. item_ord a < key_ord k" "\<forall>b \<in> set B. key_ord k < item_ord b"
    | (absent) A B where "lf_items l = A @ B" "find_item l k = None"
      "binary_search_by_key (key_ord k) item_ord (lf_items l) = Inl (length A)"
      "\<forall>a \<in> set A. item_ord a < key_ord k" "\<forall>b \<in> set B. key_ord k < item_ord b"
proof -
  have s: "sorted_wrt (\<lambda>a b. item_ord a < item_ord b) (lf_items l)" using assms by (simp add: leaf_sorted_def)
  from binary_search_split [OF s, where k = "key_ord k"]
  obtain A B where AB: "lf_items l = A @ B" "\<forall>x \<in> set A. item_ord x < key_ord k" "\<forall>x \<in> set B. key_ord k \<le> item_ord x"
    "binary_search_by_key (key_ord k) item_ord (lf_items l)
      = (if B \<noteq> [] \<and> item_ord (hd B) = key_ord k then Inr (length A) else Inl (length A))"
    by blast
  show thesis
  proof (cases "B \<noteq> [] \<and> item_ord (hd B) = key_ord k")
    case True
    then obtain i B' where B: "B = i # B'" by (cases B) auto
    then have "\<forall>b \<in> set B'. key_ord k < item_ord b" using s AB(1) True by (auto simp: sorted_wrt_append)
    then show thesis using present [of A i B'] AB True B by (simp add: find_item_def)
  next
    case False
    have "\<forall>b \<in> set B. key_ord k < item_ord b"
    proof (cases B)
      case (Cons b B')
      then have "key_ord k < item_ord b" using AB(3) False by (auto simp: order.strict_iff_order simp del: key_ord_inject)
      then show ?thesis using s AB(1) Cons by (auto simp: sorted_wrt_append)
    qed simp
    then show thesis using absent [of A B] AB False by (simp add: find_item_def)
  qed
qed

lemma items_map_split:
  assumes "\<forall>a \<in> set A. item_ord a < key_ord k" "\<forall>b \<in> set B. key_ord k < item_ord b"
  shows "items_map A k = None" "items_map B k = None"
  using assms by (auto simp: items_map_None)

lemma leaf_sorted_insert:
  assumes "leaf_sorted l" "lf_items l = A @ B" "\<forall>a \<in> set A. item_ord a < item_ord i" "\<forall>b \<in> set B. item_ord i < item_ord b"
  shows "leaf_sorted (l\<lparr>lf_items := A @ i # B\<rparr>)"
  using assms by (auto simp: leaf_sorted_def sorted_wrt_append)

lemma leaf_sorted_delete:
  "leaf_sorted l \<Longrightarrow> lf_items l = A @ i # B \<Longrightarrow> leaf_sorted (l\<lparr>lf_items := A @ B\<rparr>)"
  by (auto simp: leaf_sorted_def sorted_wrt_append)

section \<open>Properties\<close>

text \<open>C18: insertion into a leaf refines the update of a map. On a leaf in key order, an accepted
  insertion adds exactly the given binding for a key that had none, keeps the order and takes exactly
  the descriptor and the payload out of the free space; it is refused as too large exactly when no leaf
  of this size could ever hold the payload, as full exactly when this leaf cannot, and as a duplicate
  exactly when the key is bound.\<close>

theorem leaf_insert_refines:
  assumes "leaf_sorted l"
  shows "case insert_item l k d ns of
      Inr l' \<Rightarrow> leaf_map l k = None \<and> leaf_map l' = (leaf_map l)(k \<mapsto> d) \<and> leaf_sorted l'
        \<and> leaf_free_space l ns = leaf_free_space l' ns + 25 + length d \<and> l' = l\<lparr>lf_items := lf_items l'\<rparr>
    | Inl e \<Rightarrow> (e = BtrfsItemTooLarge (item_type_name (item_type k)) (length d) ns \<and> ns - 126 < length d)
        \<or> (e = FilesystemFull \<and> length d \<le> ns - 126 \<and> leaf_free_space l ns < 25 + length d)
        \<or> (e = AlreadyExists ''duplicate key in leaf'' \<and> leaf_map l k \<noteq> None)"
proof (cases "length d > max_item_payload_bytes ns \<or> ITEM_SIZE + length d > leaf_free_space l ns")
  case True
  then show ?thesis by (auto simp: insert_item_def max_item_payload_bytes_def node_consts)
next
  case False
  from assms show ?thesis
  proof (cases rule: leaf_search [where k = k])
    case (present A i B)
    then have "insert_item l k d ns = Inl (AlreadyExists ''duplicate key in leaf'')"
      using False by (simp add: insert_item_def)
    moreover have "leaf_map l k \<noteq> None"
      using present(1,2) by (auto simp: leaf_map_items items_map_None)
    ultimately show ?thesis by simp
  next
    case (absent A B)
    let ?i = "\<lparr>li_key = k, li_data = d\<rparr>" and ?l' = "l\<lparr>lf_items := A @ \<lparr>li_key = k, li_data = d\<rparr> # B\<rparr>"
    have ins: "insert_item l k d ns = Inr ?l'" using False absent(1,3) by (simp add: insert_item_def)
    note n = items_map_split [OF absent(4,5)]
    have "leaf_map l k = None" "leaf_map ?l' = (leaf_map l)(k \<mapsto> d)"
      using n by (auto simp: leaf_map_items absent(1) items_map_append items_map_Cons fun_eq_iff map_add_def split: option.split)
    moreover have "leaf_sorted ?l'" using assms absent by (intro leaf_sorted_insert) auto
    moreover have "leaf_free_space l ns = leaf_free_space ?l' ns + 25 + length d"
      using False by (simp add: leaf_free_space_def total_data_bytes_def absent(1) node_consts) arith
    ultimately show ?thesis using ins by simp
  qed
qed

definition one_item_leaf :: leaf where
  "one_item_leaf = (leaf_new 4096 7 5 (replicate 16 3) Crc32c)\<lparr>lf_items := [\<lparr>li_key = key_new 256 1 0, li_data = [1, 2]\<rparr>]\<rparr>"

lemma one_item_leaf_sorted: "leaf_sorted one_item_leaf"
  by (simp add: leaf_sorted_def one_item_leaf_def)

theorem leaf_insert_refines_witness:
  "\<exists>l'. insert_item one_item_leaf (key_new 255 1 0) [9] 200 = Inr l'
    \<and> leaf_map l' = (leaf_map one_item_leaf)(key_new 255 1 0 \<mapsto> [9]) \<and> leaf_sorted l'"
proof -
  have "is_ok (insert_item one_item_leaf (key_new 255 1 0) [9] 200)" by code_simp
  then show ?thesis
    using leaf_insert_refines [OF one_item_leaf_sorted, of "key_new 255 1 0" "[9]" 200]
    by (auto simp: is_ok_def split: sum.splits)
qed

text \<open>C19: deletion and replacement refine the map operations. Deleting returns the payload that was bound
  and removes exactly that binding; replacing changes exactly that binding; both keep the key order,
  and both fail exactly on an unbound key, leaving nothing changed.\<close>

theorem leaf_delete_replace_refine:
  assumes "leaf_sorted l"
  shows "(case delete_item l k of
      Inr (d, l') \<Rightarrow> leaf_map l k = Some d \<and> leaf_map l' = (leaf_map l)(k := None) \<and> leaf_sorted l'
    | Inl e \<Rightarrow> leaf_map l k = None \<and> e = NotFound ''item key not found in leaf'') \<and>
    (case replace_item l k new of
      Inr l' \<Rightarrow> leaf_map l k \<noteq> None \<and> leaf_map l' = (leaf_map l)(k \<mapsto> new) \<and> leaf_sorted l'
    | Inl e \<Rightarrow> leaf_map l k = None \<and> e = NotFound ''item key not found in leaf'')"
  using assms
proof (cases rule: leaf_search [where k = k])
  case (present A i B)
  note n = items_map_split [OF present(5,6)]
  have d: "delete_item l k = Inr (li_data i, l\<lparr>lf_items := A @ B\<rparr>)"
    and r: "replace_item l k new = Inr (l\<lparr>lf_items := A @ i\<lparr>li_data := new\<rparr> # B\<rparr>)"
    using present(1-3) by (simp_all add: delete_item_def replace_item_def nth_append)
  have "leaf_map l k = Some (li_data i)"
    using n present(1,2) by (auto simp: leaf_map_items items_map_append items_map_Cons map_add_def)
  moreover have "leaf_map (l\<lparr>lf_items := A @ B\<rparr>) = (leaf_map l)(k := None)"
    "leaf_map (l\<lparr>lf_items := A @ i\<lparr>li_data := new\<rparr> # B\<rparr>) = (leaf_map l)(k \<mapsto> new)"
    using n present(1,2)
    by (auto simp: leaf_map_items items_map_append items_map_Cons fun_eq_iff map_add_def split: option.split)
  moreover have "leaf_sorted (l\<lparr>lf_items := A @ B\<rparr>)" using assms present(1) by (rule leaf_sorted_delete)
  moreover have "leaf_sorted (l\<lparr>lf_items := A @ i\<lparr>li_data := new\<rparr> # B\<rparr>)"
    using assms present(1) by (auto simp: leaf_sorted_def sorted_wrt_append)
  ultimately show ?thesis using d r by simp
next
  case (absent A B)
  note n = items_map_split [OF absent(4,5)]
  then have "leaf_map l k = None" by (auto simp: leaf_map_items absent(1) items_map_append)
  then show ?thesis using absent(2) by (simp add: delete_item_def replace_item_def)
qed

theorem leaf_delete_replace_refine_witness:
  "(case delete_item one_item_leaf (key_new 256 1 0) of
      Inr (d, l') \<Rightarrow> leaf_map one_item_leaf (key_new 256 1 0) = Some d
        \<and> leaf_map l' = (leaf_map one_item_leaf)(key_new 256 1 0 := None) \<and> leaf_sorted l'
    | Inl e \<Rightarrow> leaf_map one_item_leaf (key_new 256 1 0) = None \<and> e = NotFound ''item key not found in leaf'')"
  using leaf_delete_replace_refine [OF one_item_leaf_sorted, of "key_new 256 1 0" "[]"] by (rule conjunct1)

text \<open>C20: splitting a leaf. With at least two items the halves are both non-empty, in key order, together
  hold exactly the items of the leaf, and the pivot handed to the parent is the lowest key on the right
  and above every key on the left, so it routes every key to the half that has it.\<close>

theorem leaf_split_correct:
  assumes "leaf_sorted l" "2 \<le> length (lf_items l)"
  shows "\<exists>left right pivot. leaf_split l bn = Inr (left, right, pivot) \<and> lf_items left @ lf_items right = lf_items l
    \<and> lf_items left \<noteq> [] \<and> lf_items right \<noteq> [] \<and> leaf_sorted left \<and> leaf_sorted right
    \<and> leaf_map l = leaf_map right ++ leaf_map left \<and> pivot = li_key (hd (lf_items right))
    \<and> lf_bytenr left = lf_bytenr l \<and> lf_bytenr right = bn
    \<and> (\<forall>k. leaf_map l k = (if key_ord k < key_ord pivot then leaf_map left k else leaf_map right k))"
proof -
  define mid where "mid = length (lf_items l) div 2"
  define A where "A = take mid (lf_items l)"
  define B where "B = drop mid (lf_items l)"
  have AB: "lf_items l = A @ B" "A \<noteq> []" "B \<noteq> []" using assms(2) by (auto simp: A_def B_def mid_def)
  have s: "sorted_wrt (\<lambda>a b. item_ord a < item_ord b) A" "sorted_wrt (\<lambda>a b. item_ord a < item_ord b) B"
    "\<forall>a \<in> set A. \<forall>b \<in> set B. item_ord a < item_ord b"
    using assms(1) by (auto simp: leaf_sorted_def AB(1) sorted_wrt_append)
  let ?l = "l\<lparr>lf_items := A\<rparr>" and ?r = "l\<lparr>lf_bytenr := bn, lf_items := B\<rparr>" and ?p = "li_key (hd B)"
  have sp: "leaf_split l bn = Inr (?l, ?r, ?p)"
    using assms(2) AB(3) by (simp add: leaf_split_def Let_def A_def B_def mid_def hd_drop_conv_nth)
  have "items_map A k = None" if "\<not> key_ord k < key_ord ?p" for k
    using that s(3) AB(3) by (fastforce simp: items_map_None)
  moreover have "items_map B k = None" if "key_ord k < key_ord ?p" for k
  proof (unfold items_map_None, intro ballI notI)
    fix b assume b: "b \<in> set B" "li_key b = k"
    obtain b0 B' where B': "B = b0 # B'" using AB(3) by (cases B) auto
    then have "item_ord b0 \<le> item_ord b" using b(1) s(2) by (auto intro: order.strict_implies_order)
    then show False using that b(2) B' by simp
  qed
  ultimately have "leaf_map l k = (if key_ord k < key_ord ?p then leaf_map ?l k else leaf_map ?r k)" for k
    by (auto simp: leaf_map_items AB(1) items_map_append map_add_def split: option.split)
  then show ?thesis
    using sp AB s by (auto simp: leaf_sorted_def leaf_map_items items_map_append)
qed

definition two_item_leaf :: leaf where
  "two_item_leaf = one_item_leaf\<lparr>lf_items := lf_items one_item_leaf @ [\<lparr>li_key = key_new 256 12 5, li_data = [7]\<rparr>]\<rparr>"

theorem leaf_split_correct_witness:
  "\<exists>left right pivot. leaf_split two_item_leaf 8192 = Inr (left, right, pivot)
    \<and> lf_items left @ lf_items right = lf_items two_item_leaf \<and> lf_items left \<noteq> [] \<and> lf_items right \<noteq> []
    \<and> leaf_sorted left \<and> leaf_sorted right"
proof -
  have "leaf_sorted two_item_leaf" "2 \<le> length (lf_items two_item_leaf)"
    by (simp_all add: two_item_leaf_def one_item_leaf_def leaf_sorted_def key_ord_def key_new_def)
  from leaf_split_correct [OF this, of 8192] show ?thesis by blast
qed

end
