(* ===== verification/Node_Codec.thy ===== *)
theory Node_Codec
  imports Node_Edit
begin

text \<open>
  Emitted tree blocks and their reader. \<open>block_codec\<close> is the contract of a kind of node: every
  well-formed node that fits emits a block of exactly the node size, which \<open>Node::parse\<close> accepts at its
  own address and from which the node is recovered. It is interpreted for leaves and for interior
  nodes; from it alone, emission is injective and a block is rejected at every other address.
\<close>

section \<open>The contract\<close>

locale block_codec =
  fixes H :: hashes
    and wf :: "'n \<Rightarrow> nat \<Rightarrow> bool"
    and emit :: "'n \<Rightarrow> nat \<Rightarrow> bytes result"
    and decode :: "node \<Rightarrow> csum_type \<Rightarrow> 'n result"
    and addr :: "'n \<Rightarrow> nat" and uuid :: "'n \<Rightarrow> bytes" and ct :: "'n \<Rightarrow> csum_type"
  assumes emit_parses: "wf n ns \<Longrightarrow>
    \<exists>b nd. emit n ns = Inr b \<and> length b = ns \<and> node_parse H b (addr n) (ct n) (uuid n) = Inr nd \<and> decode nd (ct n) = Inr n"
begin

lemma emit_inject:
  assumes "wf m ns" "wf n ns'" "emit m ns = emit n ns'" "addr m = addr n" "ct m = ct n" "uuid m = uuid n"
  shows "m = n"
proof -
  obtain b nd where m: "emit m ns = Inr b" "node_parse H b (addr m) (ct m) (uuid m) = Inr nd" "decode nd (ct m) = Inr m"
    using emit_parses [OF assms(1)] by blast
  obtain b' nd' where n: "emit n ns' = Inr b'" "node_parse H b' (addr n) (ct n) (uuid n) = Inr nd'" "decode nd' (ct n) = Inr n"
    using emit_parses [OF assms(2)] by blast
  have "b = b'" using m(1) n(1) assms(3) by simp
  then have "nd = nd'" using m(2) n(2) assms(4-6) by simp
  then show ?thesis using m(3) n(3) assms(5) by (metis sum.inject(2))
qed

lemma emit_elsewhere:
  assumes "wf n ns" "emit n ns = Inr b" "a \<noteq> addr n"
  shows "node_parse H b a (ct n) (uuid n) = Inl (CorruptFs ''btrfs tree node is not at the address that pointed to it'')"
proof -
  obtain nd where "node_parse H b (addr n) (ct n) (uuid n) = Inr nd" using emit_parses [OF assms(1)] assms(2) by auto
  then show ?thesis using assms(3) by (auto simp: node_parse_def Let_def split: if_splits)
qed

end

section \<open>Filling a zeroed block from both ends\<close>

lemma put_gap_front:
  "length ys \<le> n \<Longrightarrow> put (pre @ replicate n z @ post) (length pre) ys = pre @ ys @ replicate (n - length ys) z @ post"
  by (simp add: put_def)

lemma put_gap_back:
  assumes "length ys \<le> n" "p = length pre + n - length ys"
  shows "put (pre @ replicate n z @ post) p ys = pre @ replicate (n - length ys) z @ ys @ post"
proof -
  have "p - length pre = n - length ys" "p + length ys = length pre + n" "length pre \<le> p" using assms by auto
  then show ?thesis by (simp add: put_def)
qed

lemma put_entry:
  assumes "p + 17 + length d + length e \<le> length x" "length a = 8" "length b = 1" "length c = 8" "q = p + 17 + length d"
  shows "put (put (put (put (put x p a) (p + 8) b) (p + 9) c) (p + 17) d) q e = put x p (a @ b @ c @ d @ e)"
proof -
  have "put (put x p a) (p + 8) b = put x p (a @ b)"
    using assms put_put_adjacent [of p a b x] by simp
  moreover have "put (put x p (a @ b)) (p + 9) c = put x p ((a @ b) @ c)"
    using assms put_put_adjacent [of p "a @ b" c x] by simp
  moreover have "put (put x p ((a @ b) @ c)) (p + 17) d = put x p (((a @ b) @ c) @ d)"
    using assms put_put_adjacent [of p "(a @ b) @ c" d x] by simp
  moreover have "put (put x p (((a @ b) @ c) @ d)) q e = put x p ((((a @ b) @ c) @ d) @ e)"
    using assms put_put_adjacent [of p "((a @ b) @ c) @ d" e x] by (simp add: add.assoc)
  ultimately show ?thesis by simp
qed

definition header_bytes :: "bytes \<Rightarrow> nat \<Rightarrow> nat \<Rightarrow> bytes \<Rightarrow> nat \<Rightarrow> nat \<Rightarrow> nat \<Rightarrow> nat \<Rightarrow> bytes" where
  "header_bytes uuid bytenr flags chunk_uuid gen own nr lvl =
     uuid @ le_bytes 8 bytenr @ le_bytes 8 flags @ chunk_uuid @ le_bytes 8 gen @ le_bytes 8 own @ le_bytes 4 nr @ [word_of_nat lvl]"

lemma emit_header_eq:
  assumes "101 \<le> sz" "length u = 16" "length cu = 16"
  shows "emit_header sz u bn fl cu gen own nr lvl
    = (replicate 32 0 @ header_bytes u bn fl cu gen own nr lvl) @ replicate (sz - 101) 0"
proof -
  have "replicate sz (0::byte) = replicate 32 0 @ replicate (sz - 32) 0"
    using assms(1) by (simp add: replicate_add [symmetric])
  then show ?thesis
    using assms by (simp add: emit_header_def Let_def header_bytes_def put_zeros del: append_assoc replicate_Suc)
qed

lemma length_header_bytes [simp]:
  "length u = 16 \<Longrightarrow> length cu = 16 \<Longrightarrow> length (header_bytes u bn fl cu gen own nr lvl) = 69"
  by (simp add: header_bytes_def)

definition key_bytes25 :: "key \<Rightarrow> bytes" where
  "key_bytes25 k = le_bytes 8 (objectid k) @ [word_of_nat (item_type k)] @ le_bytes 8 (offset k)"

definition item_desc :: "leaf_item \<Rightarrow> nat \<Rightarrow> bytes" where
  "item_desc it off = le_bytes 8 (objectid (li_key it)) @ [word_of_nat (item_type (li_key it))]
     @ le_bytes 8 (offset (li_key it)) @ le_bytes 4 off @ le_bytes 4 (length (li_data it))"

fun item_descs :: "nat \<Rightarrow> leaf_item list \<Rightarrow> bytes" where
  "item_descs off [] = []"
| "item_descs off (it # its) = item_desc it (off - length (li_data it)) @ item_descs (off - length (li_data it)) its"

definition data_sum :: "leaf_item list \<Rightarrow> nat" where
  "data_sum its = sum_list (map (\<lambda>i. length (li_data i)) its)"

definition data_area :: "leaf_item list \<Rightarrow> bytes" where
  "data_area its = concat (rev (map li_data its))"

lemma length_item_desc [simp]: "length (item_desc it off) = 25"
  by (simp add: item_desc_def)

lemma length_item_descs [simp]: "length (item_descs off its) = 25 * length its"
  by (induction its arbitrary: off) simp_all

lemma data_sum_simps [simp]: "data_sum [] = 0" "data_sum (it # its) = length (li_data it) + data_sum its"
  "data_sum (A @ B) = data_sum A + data_sum B"
  by (simp_all add: data_sum_def)

lemma length_data_area [simp]: "length (data_area its) = data_sum its"
  by (induction its) (simp_all add: data_area_def)

lemma emit_items_eq:
  assumes "length pre = 101 + 25 * i" "length pre + n = 101 + off" "25 * length its + data_sum its \<le> n"
  shows "emit_items (pre @ replicate n 0 @ post) i off its
    = pre @ item_descs off its @ replicate (n - 25 * length its - data_sum its) 0 @ data_area its @ post"
  using assms
proof (induction its arbitrary: pre n i off post)
  case Nil
  then show ?case by (simp add: data_area_def)
next
  case (Cons it its)
  let ?d = "li_data it" and ?off = "off - length (li_data it)" and ?b = "pre @ replicate n 0 @ post"
  let ?desc = "item_desc it ?off"
  have n: "25 + length ?d \<le> n" using Cons.prems(3) by simp
  have off: "length ?d \<le> off" using Cons.prems(1,2) n by linarith
  have pos: "HEADER_SIZE + i * ITEM_SIZE = length pre" using Cons.prems(1) by (simp add: node_consts)
  have "emit_items ?b i off (it # its)
      = emit_items (put (put ?b (length pre) ?desc) (HEADER_SIZE + ?off) ?d) (i + 1) ?off its"
    using put_entry [where x = ?b and p = "length pre" and a = "le_bytes 8 (objectid (li_key it))"
        and b = "[word_of_nat (item_type (li_key it))]" and c = "le_bytes 8 (offset (li_key it))"
        and d = "le_bytes 4 ?off" and e = "le_bytes 4 (length ?d)" and q = "length pre + 21"] n
    by (simp add: Let_def pos item_desc_def)
  also have "put ?b (length pre) ?desc = pre @ ?desc @ replicate (n - 25) 0 @ post"
    using n put_gap_front [where ys = ?desc] by simp
  also have "put (pre @ ?desc @ replicate (n - 25) 0 @ post) (HEADER_SIZE + ?off) ?d
      = (pre @ ?desc) @ replicate (n - 25 - length ?d) 0 @ ?d @ post"
    using put_gap_back [where ys = ?d and pre = "pre @ ?desc" and n = "n - 25" and z = 0 and post = post
        and p = "HEADER_SIZE + ?off"] n off Cons.prems(2) by (simp add: node_consts)
  also have "emit_items \<dots> (i + 1) ?off its
      = (pre @ ?desc) @ item_descs ?off its @ replicate (n - 25 - length ?d - 25 * length its - data_sum its) 0
        @ data_area its @ ?d @ post"
    using Cons.IH [where pre = "pre @ ?desc" and n = "n - 25 - length ?d" and i = "i + 1" and off = ?off and post = "?d @ post"]
      Cons.prems n off by (simp add: node_consts)
  finally show ?case by (simp add: data_area_def)
qed

section \<open>The header of a sealed block\<close>

lemma seal_eq:
  assumes "hashes_ok H"
  shows "seal H ct (replicate 32 0 @ rest) = csum_calculate H ct rest @ rest"
  using length_csum_calculate [OF assms, of ct rest] by (simp add: seal_def put_def)

lemma node_parse_sealed:
  fixes u cu body :: bytes and ct :: csum_type
  assumes H: "hashes_ok H" and u: "length u = 16" "length cu = 16"
    and w: "bn < 2 ^ 64" "fl < 2 ^ 64" "gen < 2 ^ 64" "own < 2 ^ 64" "nr < 2 ^ 32" "lvl < 256"
    and fits: "nr * (if lvl = 0 then 25 else 33) \<le> length body"
  defines "b \<equiv> csum_calculate H ct (header_bytes u bn fl cu gen own nr lvl @ body) @ header_bytes u bn fl cu gen own nr lvl @ body"
  defines "n \<equiv> \<lparr>raw = b, node_level = lvl, nr_items = nr, node_owner = own, node_generation = gen\<rparr>"
  shows "node_parse H b bn ct u = Inr n" "node_bytenr n = bn" "node_flags n = fl" "node_metadata_uuid n = u"
    "node_chunk_tree_uuid n = cu"
proof -
  let ?h = "header_bytes u bn fl cu gen own nr lvl"
  define c where "c = csum_calculate H ct (?h @ body)"
  have c: "length c = 32" using length_csum_calculate [OF H] by (simp add: c_def)
  have b: "b = c @ ?h @ body" by (simp add: b_def c_def)
  have s: "slice b 0 32 = c" "drop 32 b = ?h @ body" using c by (simp_all add: b bytes_simps)
  have f: "u64le b 48 = bn" "u64le b 56 = fl" "slice b 32 16 = u" "slice b 64 16 = cu" "u64le b 80 = gen" "u64le b 88 = own"
    "u32le b 96 = nr"
    using c u w by (simp_all add: b header_bytes_def u64le_def u32le_def bytes_simps)
  have "b ! 100 = word_of_nat lvl" using c u by (simp add: b header_bytes_def nth_append)
  then have l: "unat (b ! 100) = lvl" using w(6) by (simp add: unat_of_nat)
  have len: "length b = 101 + length body" using c u by (simp add: b)
  have v: "csum_verify H ct c (?h @ body)" unfolding c_def by (rule csum_verify_calculate [OF H])
  show "node_parse H b bn ct u = Inr n"
    using f l len v s fits by (auto simp: node_parse_def node_consts Let_def n_def)
  show "node_bytenr n = bn" "node_flags n = fl" "node_metadata_uuid n = u" "node_chunk_tree_uuid n = cu"
    using f by (simp_all add: node_bytenr_def node_flags_def node_metadata_uuid_def node_chunk_tree_uuid_def n_def)
qed

section \<open>Reading entries back\<close>

definition key_wf :: "key \<Rightarrow> bool" where
  "key_wf k \<longleftrightarrow> objectid k < 2 ^ 64 \<and> item_type k < 256 \<and> offset k < 2 ^ 64"

lemma key_parse_bytes:
  assumes "slice b p 17 = le_bytes 8 (objectid k) @ [word_of_nat (item_type k)] @ le_bytes 8 (offset k)" "key_wf k"
    "p + 17 \<le> length b"
  shows "key_parse b p = k"
proof -
  let ?s = "slice b p 17"
  have "slice b p 8 = slice ?s 0 8" "slice b (p + 9) 8 = slice ?s 9 8" "b ! (p + 8) = ?s ! 8"
    using assms(3) by (simp_all add: slice_slice nth_slice)
  then show ?thesis
    using assms(2) by (simp add: key_parse_def u64le_def assms(1) bytes_simps nth_append key_wf_def unat_of_nat)
qed

lemma collect_map: "(\<And>i. i \<in> set ixs \<Longrightarrow> f i = Inr (g i)) \<Longrightarrow> collect f ixs = Inr (map g ixs)"
  by (induction ixs) simp_all

section \<open>Leaves\<close>

definition leaf_wf :: "leaf \<Rightarrow> nat \<Rightarrow> bool" where
  "leaf_wf l ns \<longleftrightarrow> lf_bytenr l < 2 ^ 64 \<and> lf_generation l < 2 ^ 64 \<and> lf_owner l < 2 ^ 64 \<and> lf_flags l < 2 ^ 64
     \<and> length (lf_metadata_uuid l) = 16 \<and> length (lf_chunk_tree_uuid l) = 16
     \<and> (\<forall>i \<in> set (lf_items l). key_wf (li_key i)) \<and> ns < 2 ^ 32
     \<and> HEADER_SIZE + length (lf_items l) * ITEM_SIZE + total_data_bytes l \<le> ns"

definition leaf_body :: "leaf \<Rightarrow> nat \<Rightarrow> bytes" where
  "leaf_body l ns = item_descs (ns - 101) (lf_items l)
     @ replicate (ns - 101 - 25 * length (lf_items l) - data_sum (lf_items l)) 0 @ data_area (lf_items l)"

lemma leaf_emit_eq:
  assumes "hashes_ok H" "leaf_wf l ns"
  defines "h \<equiv> header_bytes (lf_metadata_uuid l) (lf_bytenr l) (lf_flags l) (lf_chunk_tree_uuid l)
    (lf_generation l) (lf_owner l) (length (lf_items l)) 0"
  shows "leaf_emit H l ns = Inr (csum_calculate H (lf_csum_type l) (h @ leaf_body l ns) @ h @ leaf_body l ns)"
proof -
  have fits: "101 + 25 * length (lf_items l) + data_sum (lf_items l) \<le> ns"
    and u: "length (lf_metadata_uuid l) = 16" "length (lf_chunk_tree_uuid l) = 16"
    using assms(2) by (simp_all add: leaf_wf_def node_consts total_data_bytes_def data_sum_def mult.commute)
  have "emit_items (emit_header ns (lf_metadata_uuid l) (lf_bytenr l) (lf_flags l) (lf_chunk_tree_uuid l)
        (lf_generation l) (lf_owner l) (length (lf_items l)) 0) 0 (ns - HEADER_SIZE) (lf_items l)
      = replicate 32 0 @ h @ leaf_body l ns"
    using fits u emit_items_eq [where pre = "replicate 32 0 @ h" and n = "ns - 101" and i = 0 and off = "ns - 101"
        and its = "lf_items l" and post = "[]"]
    by (simp add: emit_header_eq h_def leaf_body_def node_consts)
  then show ?thesis
    using assms(2) by (simp add: leaf_emit_def leaf_wf_def Let_def seal_eq [OF assms(1)])
qed

lemma item_descs_append:
  "item_descs off (A @ B) = item_descs off A @ item_descs (off - data_sum A) B"
  by (induction A arbitrary: off) (simp_all add: diff_diff_add)

lemma data_area_append: "data_area (A @ B) = data_area B @ data_area A"
  by (simp add: data_area_def)

lemma data_area_single [simp]: "data_area (it # B) = data_area B @ li_data it"
  by (simp add: data_area_def)

lemma leaf_entry_back:
  assumes its: "lf_items l = A @ it # B" and wf: "leaf_wf l ns" and pre: "length pre = 101"
  defines "b \<equiv> pre @ leaf_body l ns" and "p \<equiv> 101 + length A * 25"
  defines "off \<equiv> ns - 101 - data_sum A - length (li_data it)"
  shows "key_parse b p = li_key it" "u32le b (p + 17) = off" "u32le b (p + 21) = length (li_data it)"
    "slice b (101 + off) (length (li_data it)) = li_data it" "101 + off + length (li_data it) \<le> length b"
proof -
  have fits: "101 + 25 * length (lf_items l) + data_sum (lf_items l) \<le> ns" "ns < 2 ^ 32" "key_wf (li_key it)"
    using wf its by (auto simp: leaf_wf_def node_consts total_data_bytes_def data_sum_def mult.commute)
  define gap where "gap = replicate (ns - 101 - 25 * length (lf_items l) - data_sum (lf_items l)) (0::byte)"
  define D where "D = item_desc it off"
  have body: "leaf_body l ns = item_descs (ns - 101) A @ D @ item_descs off B @ gap @ data_area B @ li_data it @ data_area A"
    by (simp add: leaf_body_def its item_descs_append data_area_append gap_def D_def off_def)
  have lb: "length b = ns" using fits(1) pre by (simp add: b_def body gap_def D_def its)
  have D: "slice b p 25 = D" using pre by (simp add: b_def body p_def bytes_simps D_def)
  have pb: "p + 25 \<le> length b" using lb fits(1) by (simp add: p_def its)
  have s17: "slice b p 17 = slice D 0 17" unfolding D [symmetric] by (simp add: slice_slice)
  show "key_parse b p = li_key it"
    using fits(3) pb s17 by (intro key_parse_bytes) (simp_all add: D_def item_desc_def bytes_simps slice_def)
  have "slice b (p + 17) 4 = slice D 17 4" "slice b (p + 21) 4 = slice D 21 4" unfolding D [symmetric] by (simp_all add: slice_slice)
  moreover have "off < 2 ^ 32" "length (li_data it) < 2 ^ 32" using fits by (simp_all add: off_def its)
  ultimately show "u32le b (p + 17) = off" "u32le b (p + 21) = length (li_data it)"
    by (simp_all add: u32le_def D_def item_desc_def bytes_simps)
  have off: "101 + off + length (li_data it) + data_sum A = ns" using fits(1) by (simp add: off_def its)
  then show "101 + off + length (li_data it) \<le> length b" using lb by simp
  let ?X = "pre @ item_descs (ns - 101) A @ D @ item_descs off B @ gap @ data_area B"
  have "b = ?X @ li_data it @ data_area A" by (simp add: b_def body)
  moreover from this have "length ?X = 101 + off" using lb off by simp
  ultimately show "slice b (101 + off) (length (li_data it)) = li_data it" by (simp add: slice_def)
qed

lemma leaf_emit_parses:
  assumes H: "hashes_ok H" and wf: "leaf_wf l ns"
  shows "\<exists>b nd. leaf_emit H l ns = Inr b \<and> length b = ns
    \<and> node_parse H b (lf_bytenr l) (lf_csum_type l) (lf_metadata_uuid l) = Inr nd \<and> leaf_from_node nd (lf_csum_type l) = Inr l"
proof -
  define h where "h = header_bytes (lf_metadata_uuid l) (lf_bytenr l) (lf_flags l) (lf_chunk_tree_uuid l)
    (lf_generation l) (lf_owner l) (length (lf_items l)) 0"
  define c where "c = csum_calculate H (lf_csum_type l) (h @ leaf_body l ns)"
  define b where "b = (c @ h) @ leaf_body l ns"
  define n where "n = \<lparr>raw = b, node_level = 0, nr_items = length (lf_items l), node_owner = lf_owner l, node_generation = lf_generation l\<rparr>"
  have w: "lf_bytenr l < 2 ^ 64" "lf_generation l < 2 ^ 64" "lf_owner l < 2 ^ 64" "lf_flags l < 2 ^ 64"
    "length (lf_metadata_uuid l) = 16" "length (lf_chunk_tree_uuid l) = 16"
    "101 + 25 * length (lf_items l) + data_sum (lf_items l) \<le> ns" "ns < 2 ^ 32"
    using wf by (simp_all add: leaf_wf_def node_consts total_data_bytes_def data_sum_def mult.commute)
  have pre: "length (c @ h) = 101" using length_csum_calculate [OF H] w by (simp add: c_def h_def)
  have lbody: "length (leaf_body l ns) = ns - 101" using w(7) by (simp add: leaf_body_def)
  have nr: "length (lf_items l) < 2 ^ 32" "length (lf_items l) * 25 \<le> length (leaf_body l ns)" using w(7,8) lbody by simp_all
  have emit: "leaf_emit H l ns = Inr b" using leaf_emit_eq [OF H wf] by (simp add: b_def c_def h_def)
  have parse: "node_parse H b (lf_bytenr l) (lf_csum_type l) (lf_metadata_uuid l) = Inr n"
    "node_bytenr n = lf_bytenr l" "node_flags n = lf_flags l" "node_metadata_uuid n = lf_metadata_uuid l"
    "node_chunk_tree_uuid n = lf_chunk_tree_uuid l"
    using node_parse_sealed [OF H w(5,6,1,4,2,3) nr(1), where lvl = 0 and body = "leaf_body l ns" and ct = "lf_csum_type l"] nr(2)
    by (simp_all add: n_def b_def c_def h_def)
  have entry: "rbind (node_key n i) (\<lambda>k. rbind (node_item_data n i) (\<lambda>d. Inr \<lparr>li_key = k, li_data = d\<rparr>)) = Inr (lf_items l ! i)"
    if i: "i < length (lf_items l)" for i
  proof -
    have its: "lf_items l = take i (lf_items l) @ lf_items l ! i # drop (Suc i) (lf_items l)" using i by (rule id_take_nth_drop)
    note e = leaf_entry_back [OF its wf pre, folded b_def]
    have "i * 25 = length (take i (lf_items l)) * 25" using i by simp
    moreover have "length b < 2 ^ 32" using pre lbody w(7,8) by (simp add: b_def)
    ultimately show ?thesis
      using e i by (simp add: node_key_def node_item_data_def node_stride_def is_leaf_def n_def node_consts Let_def checked_add64_def)
  qed
  have "leaf_from_node n (lf_csum_type l) = Inr l"
    using parse(2-5) collect_map [where f = "\<lambda>i. rbind (node_key n i) (\<lambda>k. rbind (node_item_data n i) (\<lambda>d. Inr \<lparr>li_key = k, li_data = d\<rparr>))"
        and g = "\<lambda>i. lf_items l ! i" and ixs = "[0..<length (lf_items l)]"] entry
    by (simp add: leaf_from_node_def is_leaf_def n_def map_nth)
  then show ?thesis using emit parse(1) pre lbody w(7) by (auto simp: b_def)
qed

interpretation leaf_block: block_codec H "\<lambda>l ns. hashes_ok H \<and> leaf_wf l ns" "leaf_emit H" leaf_from_node
    lf_bytenr lf_metadata_uuid lf_csum_type
  for H
  by unfold_locales (use leaf_emit_parses in blast)

section \<open>Interior nodes\<close>

definition entry_wf :: "interior_entry \<Rightarrow> bool" where
  "entry_wf e \<longleftrightarrow> key_wf (ie_key e) \<and> ie_blockptr e < 2 ^ 64 \<and> ie_generation e < 2 ^ 64"

definition interior_wf :: "interior_node \<Rightarrow> nat \<Rightarrow> bool" where
  "interior_wf n ns \<longleftrightarrow> in_bytenr n < 2 ^ 64 \<and> in_generation n < 2 ^ 64 \<and> in_owner n < 2 ^ 64 \<and> in_flags n < 2 ^ 64
     \<and> 0 < in_level n \<and> in_level n < 256 \<and> length (in_metadata_uuid n) = 16 \<and> length (in_chunk_tree_uuid n) = 16
     \<and> (\<forall>e \<in> set (in_entries n). entry_wf e) \<and> ns < 2 ^ 32
     \<and> HEADER_SIZE + length (in_entries n) * KEY_PTR_SIZE \<le> ns"

definition entry_bytes :: "interior_entry \<Rightarrow> bytes" where
  "entry_bytes e = le_bytes 8 (objectid (ie_key e)) @ [word_of_nat (item_type (ie_key e))]
     @ le_bytes 8 (offset (ie_key e)) @ le_bytes 8 (ie_blockptr e) @ le_bytes 8 (ie_generation e)"

lemma length_entry_bytes [simp]: "length (entry_bytes e) = 33"
  by (simp add: entry_bytes_def)

lemma length_entries_bytes [simp]: "length (concat (map entry_bytes es)) = 33 * length es"
  by (induction es) simp_all

lemma emit_entries_eq:
  assumes "length pre = 101 + 33 * i" "33 * length es \<le> n"
  shows "emit_entries (pre @ replicate n 0) i es = pre @ concat (map entry_bytes es) @ replicate (n - 33 * length es) 0"
  using assms
proof (induction es arbitrary: pre n i)
  case (Cons e es)
  let ?b = "pre @ replicate n 0"
  have n: "33 \<le> n" using Cons.prems(2) by simp
  have pos: "HEADER_SIZE + i * KEY_PTR_SIZE = length pre" using Cons.prems(1) by (simp add: node_consts)
  have "emit_entries ?b i (e # es) = emit_entries (put ?b (length pre) (entry_bytes e)) (i + 1) es"
    using put_entry [where x = ?b and p = "length pre" and a = "le_bytes 8 (objectid (ie_key e))"
        and b = "[word_of_nat (item_type (ie_key e))]" and c = "le_bytes 8 (offset (ie_key e))"
        and d = "le_bytes 8 (ie_blockptr e)" and e = "le_bytes 8 (ie_generation e)" and q = "length pre + 25"] n
    by (simp add: Let_def pos entry_bytes_def)
  also have "put ?b (length pre) (entry_bytes e) = (pre @ entry_bytes e) @ replicate (n - 33) 0"
    using n put_gap_front [where ys = "entry_bytes e" and post = "[]"] by simp
  also have "emit_entries \<dots> (i + 1) es
      = (pre @ entry_bytes e) @ concat (map entry_bytes es) @ replicate (n - 33 - 33 * length es) 0"
    using Cons.prems by (intro Cons.IH) simp_all
  finally show ?case by simp
qed simp

definition interior_body :: "interior_node \<Rightarrow> nat \<Rightarrow> bytes" where
  "interior_body n ns = concat (map entry_bytes (in_entries n)) @ replicate (ns - 101 - 33 * length (in_entries n)) 0"

lemma interior_entry_back:
  fixes ns :: nat
  assumes es: "in_entries n = A @ e # B" and wf: "entry_wf e" and pre: "length pre = 101"
  defines "b \<equiv> pre @ interior_body n ns" and "p \<equiv> 101 + length A * 33"
  shows "key_parse b p = ie_key e" "u64le b (p + 17) = ie_blockptr e" "u64le b (p + 25) = ie_generation e"
proof -
  have body: "interior_body n ns = concat (map entry_bytes A) @ entry_bytes e @ concat (map entry_bytes B)
      @ replicate (ns - 101 - 33 * length (in_entries n)) 0"
    by (simp add: interior_body_def es)
  have D: "slice b p 33 = entry_bytes e" using pre by (simp add: b_def body p_def bytes_simps)
  have pb: "p + 33 \<le> length b" using pre by (simp add: b_def body p_def)
  have "slice b p 17 = slice (entry_bytes e) 0 17" unfolding D [symmetric] by (simp add: slice_slice)
  then show "key_parse b p = ie_key e"
    using wf pb by (intro key_parse_bytes) (simp_all add: entry_bytes_def bytes_simps slice_def entry_wf_def)
  have "slice b (p + 17) 8 = slice (entry_bytes e) 17 8" "slice b (p + 25) 8 = slice (entry_bytes e) 25 8"
    unfolding D [symmetric] by (simp_all add: slice_slice)
  then show "u64le b (p + 17) = ie_blockptr e" "u64le b (p + 25) = ie_generation e"
    using wf by (simp_all add: u64le_def entry_bytes_def bytes_simps entry_wf_def)
qed

lemma interior_emit_parses:
  assumes H: "hashes_ok H" and wf: "interior_wf l ns"
  shows "\<exists>b nd. interior_emit H l ns = Inr b \<and> length b = ns
    \<and> node_parse H b (in_bytenr l) (in_csum_type l) (in_metadata_uuid l) = Inr nd \<and> interior_from_node nd (in_csum_type l) = Inr l"
proof -
  define h where "h = header_bytes (in_metadata_uuid l) (in_bytenr l) (in_flags l) (in_chunk_tree_uuid l)
    (in_generation l) (in_owner l) (length (in_entries l)) (in_level l)"
  define c where "c = csum_calculate H (in_csum_type l) (h @ interior_body l ns)"
  define b where "b = (c @ h) @ interior_body l ns"
  define n where "n = \<lparr>raw = b, node_level = in_level l, nr_items = length (in_entries l), node_owner = in_owner l, node_generation = in_generation l\<rparr>"
  have w: "in_bytenr l < 2 ^ 64" "in_generation l < 2 ^ 64" "in_owner l < 2 ^ 64" "in_flags l < 2 ^ 64"
    "length (in_metadata_uuid l) = 16" "length (in_chunk_tree_uuid l) = 16"
    "101 + 33 * length (in_entries l) \<le> ns" "ns < 2 ^ 32" "0 < in_level l" "in_level l < 256"
    using wf by (simp_all add: interior_wf_def node_consts mult.commute)
  have pre: "length (c @ h) = 101" using length_csum_calculate [OF H] w by (simp add: c_def h_def)
  have lbody: "length (interior_body l ns) = ns - 101" using w(7) by (simp add: interior_body_def)
  have nr: "length (in_entries l) < 2 ^ 32" "length (in_entries l) * 33 \<le> length (interior_body l ns)" using w(7,8) lbody by simp_all
  have "emit_entries (emit_header ns (in_metadata_uuid l) (in_bytenr l) (in_flags l) (in_chunk_tree_uuid l)
        (in_generation l) (in_owner l) (length (in_entries l)) (in_level l)) 0 (in_entries l) = replicate 32 0 @ h @ interior_body l ns"
    using w emit_entries_eq [where pre = "replicate 32 0 @ h" and n = "ns - 101" and i = 0 and es = "in_entries l"]
    by (simp add: emit_header_eq h_def interior_body_def)
  then have emit: "interior_emit H l ns = Inr b"
    using w by (simp add: interior_emit_def Let_def seal_eq [OF H] b_def c_def node_consts)
  have parse: "node_parse H b (in_bytenr l) (in_csum_type l) (in_metadata_uuid l) = Inr n"
    "node_bytenr n = in_bytenr l" "node_flags n = in_flags l" "node_metadata_uuid n = in_metadata_uuid l"
    "node_chunk_tree_uuid n = in_chunk_tree_uuid l"
    using node_parse_sealed [OF H w(5,6,1,4,2,3) nr(1) w(10), where body = "interior_body l ns" and ct = "in_csum_type l"] nr(2) w(9)
    by (simp_all add: n_def b_def c_def h_def)
  have entry: "rbind (node_key_ptr n i) (\<lambda>p. Inr \<lparr>ie_key = ptr_key p, ie_blockptr = ptr_blockptr p, ie_generation = ptr_generation p\<rparr>)
      = Inr (in_entries l ! i)"
    if i: "i < length (in_entries l)" for i
  proof -
    have es: "in_entries l = take i (in_entries l) @ in_entries l ! i # drop (Suc i) (in_entries l)" using i by (rule id_take_nth_drop)
    have "entry_wf (in_entries l ! i)" using wf i by (simp add: interior_wf_def)
    note e = interior_entry_back [OF es this pre, where ns = ns, folded b_def]
    have "i * 33 = length (take i (in_entries l)) * 33" using i by simp
    then show ?thesis
      using e i w(9) by (simp add: node_key_ptr_def node_key_def node_stride_def is_leaf_def n_def node_consts Let_def)
  qed
  have "interior_from_node n (in_csum_type l) = Inr l"
    using parse(2-5) w(9) collect_map [where f = "\<lambda>i. rbind (node_key_ptr n i)
        (\<lambda>p. Inr \<lparr>ie_key = ptr_key p, ie_blockptr = ptr_blockptr p, ie_generation = ptr_generation p\<rparr>)"
        and g = "\<lambda>i. in_entries l ! i" and ixs = "[0..<length (in_entries l)]"] entry
    by (simp add: interior_from_node_def is_leaf_def n_def map_nth)
  then show ?thesis using emit parse(1) pre lbody w(7) by (auto simp: b_def)
qed

interpretation interior_block: block_codec H "\<lambda>n ns. hashes_ok H \<and> interior_wf n ns" "interior_emit H" interior_from_node
    in_bytenr in_metadata_uuid in_csum_type
  for H
  by unfold_locales (use interior_emit_parses in blast)

section \<open>Properties\<close>

text \<open>C21: a leaf survives the round trip through its block. A leaf whose fields fit their widths and whose
  items fit the node emits a block of exactly the node size; the reader accepts that block at the leaf's
  address (checksum, address, filesystem id and item count), recovers every key and payload, and
  rejects it at any other address. The checksum algorithms enter only through the size of their results.\<close>

theorem leaf_block_roundtrip:
  assumes "hashes_ok H" "leaf_wf l ns"
  shows "\<exists>b nd. leaf_emit H l ns = Inr b \<and> length b = ns
    \<and> node_parse H b (lf_bytenr l) (lf_csum_type l) (lf_metadata_uuid l) = Inr nd \<and> leaf_from_node nd (lf_csum_type l) = Inr l
    \<and> (\<forall>a. a \<noteq> lf_bytenr l \<longrightarrow> node_parse H b a (lf_csum_type l) (lf_metadata_uuid l)
          = Inl (CorruptFs ''btrfs tree node is not at the address that pointed to it''))"
  using leaf_block.emit_parses [of H l ns] leaf_block.emit_elsewhere [of H l ns] assms by blast

definition toy_hashes :: hashes where
  "toy_hashes = \<lparr>crc32c_append = (\<lambda>s d. (s + sum_list (map unat d)) mod 2 ^ 32), sha256 = (\<lambda>d. replicate 32 (sum_list d))\<rparr>"

lemma toy_hashes_ok: "hashes_ok toy_hashes"
  by (simp add: hashes_ok_def toy_hashes_def)

lemma two_item_leaf_wf: "leaf_wf two_item_leaf 256"
  by (simp add: leaf_wf_def two_item_leaf_def one_item_leaf_def leaf_new_def key_wf_def key_new_def node_consts
      total_data_bytes_def HEADER_FLAG_WRITTEN_def)

theorem leaf_block_roundtrip_witness:
  "\<exists>b nd. leaf_emit toy_hashes two_item_leaf 256 = Inr b \<and> length b = 256
    \<and> node_parse toy_hashes b 4096 Crc32c (replicate 16 3) = Inr nd \<and> leaf_from_node nd Crc32c = Inr two_item_leaf"
proof -
  have "lf_bytenr two_item_leaf = 4096" "lf_csum_type two_item_leaf = Crc32c" "lf_metadata_uuid two_item_leaf = replicate 16 3"
    by (simp_all add: two_item_leaf_def one_item_leaf_def leaf_new_def)
  then show ?thesis using leaf_block_roundtrip [OF toy_hashes_ok two_item_leaf_wf] by auto
qed

text \<open>C22: an interior node survives the round trip through its block, at every level above 0: the reader
  recovers every key, child address and generation.\<close>

theorem interior_block_roundtrip:
  assumes "hashes_ok H" "interior_wf n ns"
  shows "\<exists>b nd. interior_emit H n ns = Inr b \<and> length b = ns
    \<and> node_parse H b (in_bytenr n) (in_csum_type n) (in_metadata_uuid n) = Inr nd \<and> interior_from_node nd (in_csum_type n) = Inr n"
  using interior_block.emit_parses [of H n ns] assms by blast

definition one_entry_node :: interior_node where
  "one_entry_node = \<lparr>in_bytenr = 65536, in_generation = 9, in_owner = 5, in_level = 2, in_flags = 1,
     in_metadata_uuid = replicate 16 3, in_chunk_tree_uuid = replicate 16 0, in_csum_type = Sha256,
     in_entries = [\<lparr>ie_key = key_new 256 1 0, ie_blockptr = 4096, ie_generation = 8\<rparr>]\<rparr>"

theorem interior_block_roundtrip_witness:
  "\<exists>b nd. interior_emit toy_hashes one_entry_node 200 = Inr b \<and> length b = 200
    \<and> node_parse toy_hashes b 65536 Sha256 (replicate 16 3) = Inr nd \<and> interior_from_node nd Sha256 = Inr one_entry_node"
proof -
  have "interior_wf one_entry_node 200"
    by (simp add: interior_wf_def one_entry_node_def entry_wf_def key_wf_def key_new_def node_consts)
  moreover have "in_bytenr one_entry_node = 65536" "in_csum_type one_entry_node = Sha256"
    "in_metadata_uuid one_entry_node = replicate 16 3"
    by (simp_all add: one_entry_node_def)
  ultimately show ?thesis using interior_block_roundtrip [OF toy_hashes_ok] by metis
qed

end
