(* ===== verification/Csum_Items.thy ===== *)
theory Csum_Items
  imports Node_Edit
begin

text \<open>
  The checksum items of a data extent (the last part of \<open>core/src/fs/btrfs/write/node.rs\<close>): one checksum
  per sector, cut into items that each fit a leaf. The lemmas compare the cut with the uncut sequence:
  the items tile the extent, their payloads concatenate to the checksums of the whole run, and every
  item fits; the variant that packs precomputed checksums loses and invents none.
\<close>

section \<open>Model\<close>

definition CSUM_ITEM_LEAF_HEADROOM :: nat where "CSUM_ITEM_LEAF_HEADROOM = 30"

definition max_csum_item_bytes :: "nat \<Rightarrow> nat \<Rightarrow> nat" where
  "max_csum_item_bytes node_size csize =
     (let usable = node_size - HEADER_SIZE - ITEM_SIZE - CSUM_ITEM_LEAF_HEADROOM in
      if csize = 0 then 0 else usable div csize * csize)"

text \<open>The body of both sector loops: the checksum of sector \<open>i\<close>, zero padded past the end of the data.\<close>

definition sector_csum :: "hashes \<Rightarrow> csum_type \<Rightarrow> nat \<Rightarrow> bytes \<Rightarrow> nat \<Rightarrow> bytes" where
  "sector_csum H ct sector data i =
     (let start = i * sector;
          sector_buf = replicate sector 0;
          sector_buf = (if start < length data
                        then put sector_buf 0 (slice data start (min (start + sector) (length data) - start))
                        else sector_buf)
      in take (csum_size ct) (csum_calculate H ct sector_buf))"

definition build_extent_csum_payload :: "hashes \<Rightarrow> csum_type \<Rightarrow> nat \<Rightarrow> nat \<Rightarrow> bytes \<Rightarrow> bytes result" where
  "build_extent_csum_payload H ct sector_sz disk_num_bytes data =
     (if sector_sz = 0 then Inl Panic
      else Inr (concat (map (sector_csum H ct sector_sz data) [0..<div_ceil disk_num_bytes sector_sz])))"

text \<open>The item loop. A checksum never is larger than an item that holds at least one, so
  \<open>sectors_per_item\<close> is positive and every round makes progress; the guard excludes zero, with which the
  loop would not end.\<close>

function csum_items_loop :: "hashes \<Rightarrow> csum_type \<Rightarrow> nat \<Rightarrow> nat \<Rightarrow> nat \<Rightarrow> bytes \<Rightarrow> nat \<Rightarrow> nat \<Rightarrow> (nat \<times> bytes) list" where
  "csum_items_loop H ct sectors_per_item sector disk_bytenr data nr_sectors first =
     (if first < nr_sectors \<and> 0 < sectors_per_item then
        let count = min sectors_per_item (nr_sectors - first);
            payload = concat (map (sector_csum H ct sector data) [first..<first + count])
        in (add64 disk_bytenr (first * sector), payload)
           # csum_items_loop H ct sectors_per_item sector disk_bytenr data nr_sectors (first + count)
      else [])"
  by pat_completeness auto
termination
  by (relation "measure (\<lambda>(H, ct, spi, sector, bn, data, nr, first). nr - first)") auto

declare csum_items_loop.simps [simp del]

definition build_extent_csum_items :: "hashes \<Rightarrow> csum_type \<Rightarrow> nat \<Rightarrow> nat \<Rightarrow> nat \<Rightarrow> nat \<Rightarrow> bytes \<Rightarrow> (nat \<times> bytes) list result" where
  "build_extent_csum_items H ct node_size sector_sz disk_bytenr disk_num_bytes data =
     (let csize = csum_size ct;
          max_item = max_csum_item_bytes node_size csize
      in if max_item = 0 then Inl (BtrfsItemTooLarge ''checksum item'' csize node_size)
         else if sector_sz = 0 then Inl Panic
         else Inr (csum_items_loop H ct (max_item div csize) sector_sz disk_bytenr data
                     (div_ceil disk_num_bytes sector_sz) 0))"

definition sat_add64 :: "nat \<Rightarrow> nat \<Rightarrow> nat" where
  "sat_add64 a b = min (a + b) u64_max"

text \<open>The packing loop of \<open>build_extent_csum_items_from_checksums\<close>, with the item under construction
  (its start, its payload and its count) and the address that would continue it.\<close>

fun pack_csums :: "nat \<Rightarrow> (nat \<times> nat) list \<Rightarrow> nat \<Rightarrow> bytes \<Rightarrow> nat \<Rightarrow> nat \<Rightarrow> (nat \<times> bytes) list" where
  "pack_csums spi [] start payload count next = (if payload \<noteq> [] then [(start, payload)] else [])"
| "pack_csums spi ((bytenr, crc) # rest) start payload count next =
     (if payload = [] then pack_csums spi rest bytenr (le_bytes 4 crc) 1 (sat_add64 bytenr 4096)
      else if bytenr = next \<and> count < spi
      then pack_csums spi rest start (payload @ le_bytes 4 crc) (count + 1) (sat_add64 bytenr 4096)
      else (start, payload) # pack_csums spi rest bytenr (le_bytes 4 crc) 1 (sat_add64 bytenr 4096))"

definition build_extent_csum_items_from_checksums :: "nat \<Rightarrow> (nat \<times> nat) list \<Rightarrow> (nat \<times> bytes) list result" where
  "build_extent_csum_items_from_checksums node_size checksums =
     (if checksums = [] then Inr []
      else
        let max_item = max_csum_item_bytes node_size 4 in
        if max_item = 0 then Inl (BtrfsItemTooLarge ''checksum item'' 4 node_size)
        else Inr (pack_csums (max_item div 4) checksums 0 [] 0 0))"

section \<open>The items tile the extent\<close>

text \<open>What it means for items to tile \<open>n\<close> sectors from an address: each starts where the one before
  ends and holds a whole number of checksums.\<close>

fun tiles :: "nat \<Rightarrow> nat \<Rightarrow> nat \<Rightarrow> (nat \<times> bytes) list \<Rightarrow> nat \<Rightarrow> bool" where
  "tiles csize sector a [] stop \<longleftrightarrow> a = stop"
| "tiles csize sector a ((b, p) # items) stop \<longleftrightarrow>
     b = a \<and> p \<noteq> [] \<and> csize dvd length p \<and> tiles csize sector (a + length p div csize * sector) items stop"

lemma csum_size_pos [simp]: "0 < csum_size ct"
  by (cases ct) (simp_all add: csum_size_def)

lemma length_sector_csum: "hashes_ok H \<Longrightarrow> length (sector_csum H ct sector data i) = csum_size ct"
  using length_csum_calculate [of H ct] by (cases ct) (simp_all add: sector_csum_def Let_def csum_size_def)

lemma length_sector_csums:
  "hashes_ok H \<Longrightarrow> length (concat (map (sector_csum H ct sector data) is)) = length is * csum_size ct"
  by (induction "is") (simp_all add: length_sector_csum)

lemma csum_items_loop_correct:
  assumes H: "hashes_ok H" and spi: "0 < spi" and w: "bn + nr * sector < 2 ^ 64"
  shows "first \<le> nr \<Longrightarrow>
    concat (map snd (csum_items_loop H ct spi sector bn data nr first)) = concat (map (sector_csum H ct sector data) [first..<nr])
    \<and> tiles (csum_size ct) sector (bn + first * sector) (csum_items_loop H ct spi sector bn data nr first) (bn + nr * sector)
    \<and> (\<forall>p \<in> snd ` set (csum_items_loop H ct spi sector bn data nr first). length p \<le> spi * csum_size ct)"
proof (induction "nr - first" arbitrary: first rule: less_induct)
  case less
  show ?case
  proof (cases "first < nr")
    case False
    then have "first = nr" "csum_items_loop H ct spi sector bn data nr first = []"
      using less.prems by (simp, subst csum_items_loop.simps, simp)
    then show ?thesis by simp
  next
    case True
    define n where "n = min spi (nr - first)"
    define p where "p = concat (map (sector_csum H ct sector data) [first..<first + n])"
    define its where "its = csum_items_loop H ct spi sector bn data nr (first + n)"
    have n: "0 < n" "first + n \<le> nr" "n \<le> spi" using True spi by (simp_all add: n_def)
    have "first * sector \<le> nr * sector" using True by simp
    then have "bn + first * sector < 2 ^ 64" using w by linarith
    then have loop: "csum_items_loop H ct spi sector bn data nr first = (bn + first * sector, p) # its"
      using True spi by (subst csum_items_loop.simps) (simp add: Let_def n_def [symmetric] p_def [symmetric] its_def [symmetric] add64_small)
    have lp: "length p = n * csum_size ct" by (simp add: p_def length_sector_csums [OF H])
    have ih: "concat (map snd its) = concat (map (sector_csum H ct sector data) [first + n..<nr])
        \<and> tiles (csum_size ct) sector (bn + (first + n) * sector) its (bn + nr * sector)
        \<and> (\<forall>p \<in> snd ` set its. length p \<le> spi * csum_size ct)"
      unfolding its_def using n True by (intro less.hyps) auto
    have "[first..<nr] = [first..<first + n] @ [first + n..<nr]" using n(2) by (metis le_add1 le_Suc_ex upt_add_eq_append)
    then have "p @ concat (map snd its) = concat (map (sector_csum H ct sector data) [first..<nr])"
      using ih by (simp add: p_def)
    moreover have "p \<noteq> []" using lp n(1) csum_size_pos [of ct] by (cases p) auto
    moreover have "n * csum_size ct \<le> spi * csum_size ct" using n(3) by (rule mult_le_mono1)
    ultimately show ?thesis
      using ih loop lp by (simp add: add_mult_distrib add.assoc)
  qed
qed

section \<open>Properties\<close>

text \<open>C34: the checksum items of an extent. When a checksum fits a node at all, the items are exactly the
  checksum sequence of the whole extent cut into pieces: their payloads concatenate to it, each starts
  at the logical address where the one before stops covering, together they cover the extent to its last
  sector, and each payload stays below the ceiling of a leaf, so that none is ever refused as too large.\<close>

theorem csum_items_tile_extent:
  assumes "hashes_ok H" "0 < sector" "bn + div_ceil len sector * sector < 2 ^ 64"
    and "max_csum_item_bytes ns (csum_size ct) \<noteq> 0"
  shows "\<exists>items payload. build_extent_csum_items H ct ns sector bn len data = Inr items
    \<and> build_extent_csum_payload H ct sector len data = Inr payload \<and> concat (map snd items) = payload
    \<and> tiles (csum_size ct) sector bn items (bn + div_ceil len sector * sector)
    \<and> (\<forall>p \<in> snd ` set items. length p \<le> max_item_payload_bytes ns)"
proof -
  define m where "m = max_csum_item_bytes ns (csum_size ct)"
  define spi where "spi = m div csum_size ct"
  have m1: "spi * csum_size ct = m" by (auto simp: spi_def m_def max_csum_item_bytes_def Let_def)
  have "m \<le> ns - HEADER_SIZE - ITEM_SIZE - CSUM_ITEM_LEAF_HEADROOM"
    using csum_size_pos [of ct] by (simp add: m_def max_csum_item_bytes_def Let_def)
  then have m: "spi * csum_size ct = m" "m \<le> max_item_payload_bytes ns"
    using m1 by (simp_all add: max_item_payload_bytes_def)
  have spi: "0 < spi" using assms(4) m(1) by (cases spi) (auto simp: m_def)
  note c = csum_items_loop_correct [OF assms(1) spi assms(3), where first = 0 and data = data and ct = ct]
  show ?thesis
    using c assms(2,4) m
    by (auto simp: build_extent_csum_items_def build_extent_csum_payload_def Let_def m_def [symmetric] spi_def [symmetric])
qed

definition toy_crc :: hashes where
  "toy_crc = \<lparr>crc32c_append = (\<lambda>s d. length d mod 2 ^ 32), sha256 = (\<lambda>d. replicate 32 0)\<rparr>"

theorem csum_items_tile_extent_witness:
  "\<exists>items payload. build_extent_csum_items toy_crc Crc32c 164 2 4096 5 [1, 2, 3, 4, 5] = Inr items
    \<and> build_extent_csum_payload toy_crc Crc32c 2 5 [1, 2, 3, 4, 5] = Inr payload \<and> concat (map snd items) = payload
    \<and> tiles 4 2 4096 items 4102"
proof -
  have "hashes_ok toy_crc" "max_csum_item_bytes 164 (csum_size Crc32c) \<noteq> 0" "div_ceil 5 2 = 3" "csum_size Crc32c = 4"
    by (simp_all add: hashes_ok_def toy_crc_def max_csum_item_bytes_def csum_size_def node_consts CSUM_ITEM_LEAF_HEADROOM_def
        div_ceil_def)
  then show ?thesis
    using csum_items_tile_extent [of toy_crc 2 4096 5 164 Crc32c "[1, 2, 3, 4, 5]"] by auto
qed

text \<open>The checksums a packed item stands for.\<close>

definition expand_item :: "nat \<times> bytes \<Rightarrow> (nat \<times> nat) list" where
  "expand_item it = map (\<lambda>j. (fst it + 4096 * j, le_val (slice (snd it) (4 * j) 4))) [0..<length (snd it) div 4]"

lemma length_concat_le4: "length (concat (map (le_bytes 4) cs)) = 4 * length cs"
  by (induction cs) simp_all

lemma concat_le4_Nil: "concat (map (le_bytes 4) cs) = [] \<longleftrightarrow> cs = []"
  by (metis length_concat_le4 length_0_conv mult_is_0 zero_neq_numeral)

lemma slice_concat_le4:
  assumes "j < length cs"
  shows "slice (concat (map (le_bytes 4) cs)) (4 * j) 4 = le_bytes 4 (cs ! j)"
proof -
  have "cs = take j cs @ cs ! j # drop (Suc j) cs" using assms by (rule id_take_nth_drop)
  then have "concat (map (le_bytes 4) cs)
      = concat (map (le_bytes 4) (take j cs)) @ le_bytes 4 (cs ! j) @ concat (map (le_bytes 4) (drop (Suc j) cs))"
    by (metis concat_append list.simps(9) concat.simps(2) map_append)
  moreover have "length (concat (map (le_bytes 4) (take j cs))) = 4 * j" using assms by (simp add: length_concat_le4)
  ultimately show ?thesis by (simp add: slice_def)
qed

lemma expand_packed:
  assumes "\<forall>c \<in> set cs. c < 2 ^ 32"
  shows "expand_item (a, concat (map (le_bytes 4) cs)) = map (\<lambda>j. (a + 4096 * j, cs ! j)) [0..<length cs]"
proof -
  have "le_val (slice (concat (map (le_bytes 4) cs)) (4 * j) 4) = cs ! j" if "j < length cs" for j
    using slice_concat_le4 [OF that] assms that by simp
  then show ?thesis by (auto simp: expand_item_def length_concat_le4)
qed

lemma pack_csums_group:
  assumes "\<forall>(a, c) \<in> set rest. a + 4096 < 2 ^ 64 \<and> c < 2 ^ 32" "\<forall>c \<in> set cs. c < 2 ^ 32" "cs \<noteq> []" "length cs \<le> spi"
  shows "concat (map expand_item (pack_csums spi rest start (concat (map (le_bytes 4) cs)) (length cs) (start + 4096 * length cs)))
      = map (\<lambda>j. (start + 4096 * j, cs ! j)) [0..<length cs] @ rest
    \<and> (\<forall>p \<in> snd ` set (pack_csums spi rest start (concat (map (le_bytes 4) cs)) (length cs) (start + 4096 * length cs)).
        p \<noteq> [] \<and> length p \<le> spi * 4)"
  using assms
proof (induction rest arbitrary: start cs)
  case Nil
  have "concat (map (le_bytes 4) cs) \<noteq> []" using Nil.prems(3) unfolding concat_le4_Nil .
  then show ?case using Nil.prems by (simp add: expand_packed length_concat_le4)
next
  case (Cons x rest)
  obtain b c where x: "x = (b, c)" by (cases x)
  let ?p = "concat (map (le_bytes 4) cs)" and ?cur = "map (\<lambda>j. (start + 4096 * j, cs ! j)) [0..<length cs]"
  have lp: "length ?p = 4 * length cs" by (rule length_concat_le4)
  have ne: "?p \<noteq> []" using Cons.prems(3) unfolding concat_le4_Nil .
  have b: "sat_add64 b 4096 = b + 4096" "c < 2 ^ 32" and rest: "\<forall>(a, c) \<in> set rest. a + 4096 < 2 ^ 64 \<and> c < 2 ^ 32"
    using Cons.prems(1) x by (auto simp: sat_add64_def u64_max_def)
  show ?case
  proof (cases "b = start + 4096 * length cs \<and> length cs < spi")
    case True
    have "pack_csums spi (x # rest) start ?p (length cs) (start + 4096 * length cs)
        = pack_csums spi rest start (concat (map (le_bytes 4) (cs @ [c]))) (length (cs @ [c])) (start + 4096 * length (cs @ [c]))"
      using True x ne b(1) by (simp del: concat_eq_Nil_conv add: algebra_simps)
    moreover have "map (\<lambda>j. (start + 4096 * j, (cs @ [c]) ! j)) [0..<length (cs @ [c])] = ?cur @ [x]"
      using True x by (simp add: nth_append)
    ultimately show ?thesis using Cons.IH [of "cs @ [c]" start] rest Cons.prems True b(2) by simp
  next
    case False
    have "pack_csums spi (x # rest) start ?p (length cs) (start + 4096 * length cs)
        = (start, ?p) # pack_csums spi rest b (concat (map (le_bytes 4) [c])) (length [c]) (b + 4096 * length [c])"
      using False x ne b(1) by (auto simp del: concat_eq_Nil_conv)
    moreover have "map (\<lambda>j. (b + 4096 * j, [c] ! j)) [0..<length [c]] = [x]" using x by simp
    moreover have "length [c] \<le> spi" using Cons.prems(3,4) by (cases cs) auto
    ultimately show ?thesis
      using Cons.IH [of "[c]" b] rest Cons.prems b(2) ne lp by (simp add: expand_packed)
  qed
qed

text \<open>C35: packing precomputed checksums. Unpacking the items gives back exactly the sequence of address
  and checksum pairs that went in, in order, whatever gaps it has; every item is non-empty and fits a leaf.\<close>

theorem packed_csums_roundtrip:
  assumes "max_csum_item_bytes ns 4 \<noteq> 0" "\<forall>(a, c) \<in> set cs. a + 4096 < 2 ^ 64 \<and> c < 2 ^ 32"
  shows "\<exists>items. build_extent_csum_items_from_checksums ns cs = Inr items \<and> concat (map expand_item items) = cs
    \<and> (\<forall>p \<in> snd ` set items. p \<noteq> [] \<and> length p \<le> max_csum_item_bytes ns 4)"
proof (cases cs)
  case Nil
  then show ?thesis by (simp add: build_extent_csum_items_from_checksums_def)
next
  case (Cons x rest)
  obtain b c where x: "x = (b, c)" by (cases x)
  define spi where "spi = max_csum_item_bytes ns 4 div 4"
  have spi: "spi * 4 = max_csum_item_bytes ns 4" by (simp add: spi_def max_csum_item_bytes_def Let_def)
  then have "0 < spi" using assms(1) by (cases spi) auto
  then have g: "concat (map expand_item (pack_csums spi rest b (le_bytes 4 c) 1 (b + 4096))) = (b, c) # rest
      \<and> (\<forall>p \<in> snd ` set (pack_csums spi rest b (le_bytes 4 c) 1 (b + 4096)). p \<noteq> [] \<and> length p \<le> spi * 4)"
    using pack_csums_group [of rest "[c]" spi b] assms(2) Cons x by auto
  have "sat_add64 b 4096 = b + 4096" using assms(2) Cons x by (auto simp: sat_add64_def u64_max_def)
  then have "build_extent_csum_items_from_checksums ns cs = Inr (pack_csums spi rest b (le_bytes 4 c) 1 (b + 4096))"
    using assms(1) Cons x by (simp add: build_extent_csum_items_from_checksums_def Let_def spi_def)
  then show ?thesis using g Cons x spi by simp
qed

theorem packed_csums_roundtrip_witness:
  "\<exists>items. build_extent_csum_items_from_checksums 16384 [(4096, 7), (8192, 8), (65536, 9)] = Inr items
    \<and> concat (map expand_item items) = [(4096, 7), (8192, 8), (65536, 9)]"
proof -
  have "max_csum_item_bytes 16384 4 \<noteq> 0"
    by (simp add: max_csum_item_bytes_def node_consts CSUM_ITEM_LEAF_HEADROOM_def)
  from packed_csums_roundtrip [OF this, of "[(4096, 7), (8192, 8), (65536, 9)]"] show ?thesis by auto
qed

end
