(* ===== verification/Btrfs_Items.thy ===== *)
theory Btrfs_Items
  imports Btree_Node
begin

unbundle bit_operations_syntax

text \<open>
  The payloads of the items a file consists of: their readers (\<open>core/src/fs/btrfs/inode.rs\<close>,
  \<open>extent.rs\<close>) and the builders of the write side (\<open>write/node.rs\<close>). The lemmas: what a builder writes
  the reader returns, also for several directory entries packed into one item, and parsing a packed
  item ends on every input.
\<close>

section \<open>Inodes\<close>

datatype file_type = Regular | Directory | Symlink | CharDevice | BlockDevice | Fifo | Socket | UnknownType

definition is_dir :: "file_type \<Rightarrow> bool" where "is_dir t \<longleftrightarrow> t = Directory"
definition is_file :: "file_type \<Rightarrow> bool" where "is_file t \<longleftrightarrow> t = Regular"

definition as_i64 :: "nat \<Rightarrow> int" where
  "as_i64 x = (if x < 2 ^ 63 then int x else int x - 2 ^ 64)"

definition INODE_ITEM_SIZE :: nat where "INODE_ITEM_SIZE = 160"
definition DIR_ITEM_HEAD :: nat where "DIR_ITEM_HEAD = 30"

record inode =
  ino_objectid :: nat
  ino_size :: nat
  ino_nbytes :: nat
  ino_nlink :: nat
  ino_uid :: nat
  ino_gid :: nat
  ino_mode :: nat
  ino_rdev :: nat
  ino_flags :: nat
  ino_atime :: int
  ino_ctime :: int
  ino_mtime :: int

definition inode_parse :: "nat \<Rightarrow> bytes \<Rightarrow> inode result" where
  "inode_parse oid data =
     (if length data < INODE_ITEM_SIZE then Inl (CorruptFs ''btrfs inode item truncated'')
      else Inr \<lparr>ino_objectid = oid, ino_size = u64le data 16, ino_nbytes = u64le data 24, ino_nlink = u32le data 40,
                ino_uid = u32le data 44, ino_gid = u32le data 48, ino_mode = u32le data 52, ino_rdev = u64le data 56,
                ino_flags = u64le data 64, ino_atime = as_i64 (u64le data 112), ino_ctime = as_i64 (u64le data 124),
                ino_mtime = as_i64 (u64le data 136)\<rparr>)"

definition mode_to_type :: "nat \<Rightarrow> file_type" where
  "mode_to_type mode =
     (let m = mode AND 0xF000 in
      if m = 0x8000 then Regular else if m = 0x4000 then Directory else if m = 0xA000 then Symlink
      else if m = 0x2000 then CharDevice else if m = 0x6000 then BlockDevice else if m = 0x1000 then Fifo
      else if m = 0xC000 then Socket else UnknownType)"

definition inode_file_type :: "inode \<Rightarrow> file_type" where
  "inode_file_type i = mode_to_type (ino_mode i)"

definition build_empty_inode_item :: "nat \<Rightarrow> nat \<Rightarrow> nat \<Rightarrow> nat \<Rightarrow> nat \<Rightarrow> nat \<Rightarrow> nat \<Rightarrow> bytes" where
  "build_empty_inode_item gen mode uid gid nlink sec nsec =
     (let d = replicate 160 0;
          d = put d 0 (le_bytes 8 gen);
          d = put d 8 (le_bytes 8 gen);
          d = put d 16 (le_bytes 8 0);
          d = put d 24 (le_bytes 8 0);
          d = put d 32 (le_bytes 8 0);
          d = put d 40 (le_bytes 4 nlink);
          d = put d 44 (le_bytes 4 uid);
          d = put d 48 (le_bytes 4 gid);
          d = put d 52 (le_bytes 4 mode);
          d = put d 56 (le_bytes 8 0);
          d = put d 64 (le_bytes 8 0);
          d = put d 72 (le_bytes 8 1)
      in fold (\<lambda>off d. put (put d off (le_bytes 8 sec)) (off + 8) (le_bytes 4 nsec)) [112, 124, 136, 148] d)"

section \<open>Directory entries\<close>

definition dir_type_to_file_type :: "nat \<Rightarrow> file_type" where
  "dir_type_to_file_type r =
     (if r = 1 then Regular else if r = 2 then Directory else if r = 3 then CharDevice else if r = 4 then BlockDevice
      else if r = 5 then Fifo else if r = 6 then Socket else if r = 7 then Symlink else UnknownType)"

record dir_entry_item =
  de_name :: bytes
  de_location :: key
  de_file_type :: file_type

definition ROOT_ITEM_KEY :: nat where "ROOT_ITEM_KEY = 132"
definition INODE_ITEM_KEY :: nat where "INODE_ITEM_KEY = 1"
definition EXTENT_DATA_KEY :: nat where "EXTENT_DATA_KEY = 108"

definition is_subvolume :: "dir_entry_item \<Rightarrow> bool" where
  "is_subvolume e \<longleftrightarrow> item_type (de_location e) = ROOT_ITEM_KEY"

function parse_dir_entries :: "bytes \<Rightarrow> dir_entry_item list result" where
  "parse_dir_entries data =
     (if data = [] then Inr []
      else if length data < DIR_ITEM_HEAD then Inl (CorruptFs ''btrfs directory entry truncated'')
      else
        let data_len = u16le data 25;
            name_len = u16le data 27;
            total = DIR_ITEM_HEAD + name_len + data_len
        in if total > length data then Inl (CorruptFs ''btrfs directory entry overruns'')
           else
             let e = \<lparr>de_name = slice data DIR_ITEM_HEAD name_len,
                      de_location = \<lparr>objectid = u64le data 0, item_type = unat (data ! 8), offset = u64le data 9\<rparr>,
                      de_file_type = dir_type_to_file_type (unat (data ! 29))\<rparr>
             in rbind (parse_dir_entries (drop total data)) (\<lambda>out. Inr (e # out)))"
  by pat_completeness auto
termination
  by (relation "measure length") (auto simp: DIR_ITEM_HEAD_def)

declare parse_dir_entries.simps [simp del]

definition build_inode_ref :: "nat \<Rightarrow> bytes \<Rightarrow> bytes" where
  "build_inode_ref dir_index name =
     (let d = replicate (10 + length name) 0;
          d = put d 0 (le_bytes 8 dir_index);
          d = put d 8 (le_bytes 2 (length name))
      in put d 10 name)"

definition build_dir_item :: "nat \<Rightarrow> nat \<Rightarrow> byte \<Rightarrow> bytes \<Rightarrow> bytes" where
  "build_dir_item child_ino transid ftype name =
     (let d = replicate (30 + length name) 0;
          d = put d 0 (le_bytes 8 child_ino);
          d = put d 8 [word_of_nat INODE_ITEM_KEY];
          d = put d 9 (le_bytes 8 0);
          d = put d 17 (le_bytes 8 transid);
          d = put d 25 (le_bytes 2 0);
          d = put d 27 (le_bytes 2 (length name));
          d = put d 29 [ftype]
      in put d 30 name)"

section \<open>File extents\<close>

definition INLINE_HEADER :: nat where "INLINE_HEADER = 21"
definition REGULAR_ITEM_SIZE :: nat where "REGULAR_ITEM_SIZE = 53"

datatype extent_kind = ExtInline | ExtRegular | ExtPrealloc

record file_extent =
  fe_file_offset :: nat
  fe_kind :: extent_kind
  fe_ram_bytes :: nat
  fe_compression :: nat
  fe_disk_bytenr :: nat
  fe_disk_num_bytes :: nat
  fe_offset :: nat
  fe_num_bytes :: nat
  fe_inline :: "bytes option"

definition file_extent_parse :: "nat \<Rightarrow> bytes \<Rightarrow> file_extent result" where
  "file_extent_parse file_offset data =
     (if length data \<le> 20 then Inl (CorruptFs ''btrfs extent item truncated'')
      else
        let ram_bytes = u64le data 8;
            compression = unat (data ! 16);
            encryption = unat (data ! 17);
            k = unat (data ! 20)
        in if k > 2 then Inl (CorruptFs ''btrfs extent has an unknown type'')
           else
             let kind = (if k = 0 then ExtInline else if k = 1 then ExtRegular else ExtPrealloc) in
             if encryption \<noteq> 0 then Inl (UnsupportedFsFeature ''btrfs encrypted extent'')
             else if kind = ExtInline then
               let payload = drop INLINE_HEADER data in
               Inr \<lparr>fe_file_offset = file_offset, fe_kind = kind, fe_ram_bytes = ram_bytes, fe_compression = compression,
                    fe_disk_bytenr = 0, fe_disk_num_bytes = length payload, fe_offset = 0, fe_num_bytes = ram_bytes,
                    fe_inline = Some payload\<rparr>
             else if length data < REGULAR_ITEM_SIZE then Inl (CorruptFs ''btrfs extent item truncated'')
             else
               Inr \<lparr>fe_file_offset = file_offset, fe_kind = kind, fe_ram_bytes = ram_bytes, fe_compression = compression,
                    fe_disk_bytenr = u64le data 21, fe_disk_num_bytes = u64le data 29, fe_offset = u64le data 37,
                    fe_num_bytes = u64le data 45, fe_inline = None\<rparr>)"

definition extent_end :: "file_extent \<Rightarrow> nat" where
  "extent_end e = min (fe_file_offset e + fe_num_bytes e) u64_max"

definition is_zeros :: "file_extent \<Rightarrow> bool" where
  "is_zeros e \<longleftrightarrow> (fe_kind e = ExtRegular \<and> fe_disk_bytenr e = 0) \<or> fe_kind e = ExtPrealloc"

definition has_disk_bytes :: "file_extent \<Rightarrow> bool" where
  "has_disk_bytes e \<longleftrightarrow> fe_kind e \<noteq> ExtInline \<and> fe_disk_bytenr e > 0 \<and> fe_disk_num_bytes e > 0"

definition is_compressed :: "file_extent \<Rightarrow> bool" where
  "is_compressed e \<longleftrightarrow> fe_compression e \<noteq> 0"

definition build_regular_file_extent :: "nat \<Rightarrow> nat \<Rightarrow> nat \<Rightarrow> nat \<Rightarrow> nat \<Rightarrow> bytes" where
  "build_regular_file_extent gen ram_bytes disk_bytenr disk_num_bytes num_bytes =
     (let d = replicate 53 0;
          d = put d 0 (le_bytes 8 gen);
          d = put d 8 (le_bytes 8 ram_bytes);
          d = put d 16 [0];
          d = put d 17 [0];
          d = put d 18 (le_bytes 2 0);
          d = put d 20 [1];
          d = put d 21 (le_bytes 8 disk_bytenr);
          d = put d 29 (le_bytes 8 disk_num_bytes);
          d = put d 37 (le_bytes 8 0);
          d = put d 45 (le_bytes 8 num_bytes)
      in d)"

section \<open>What the builders write\<close>

definition inode_head :: "nat \<Rightarrow> nat \<Rightarrow> nat \<Rightarrow> nat \<Rightarrow> nat \<Rightarrow> bytes" where
  "inode_head gen mode uid gid nlink =
     le_bytes 8 gen @ le_bytes 8 gen @ le_bytes 8 0 @ le_bytes 8 0 @ le_bytes 8 0 @ le_bytes 4 nlink @ le_bytes 4 uid
     @ le_bytes 4 gid @ le_bytes 4 mode @ le_bytes 8 0 @ le_bytes 8 0 @ le_bytes 8 1"

lemma length_inode_head [simp]: "length (inode_head gen mode uid gid nlink) = 80"
  by (simp add: inode_head_def)

lemma build_inode_item_eq:
  "build_empty_inode_item gen mode uid gid nlink sec nsec = inode_head gen mode uid gid nlink @ replicate 32 0
     @ le_bytes 8 sec @ le_bytes 4 nsec @ le_bytes 8 sec @ le_bytes 4 nsec @ le_bytes 8 sec @ le_bytes 4 nsec
     @ le_bytes 8 sec @ le_bytes 4 nsec"
proof -
  define h where "h = inode_head gen mode uid gid nlink"
  define d where "d = put (put (put (put (put (put (put (put (put (put (put (put (replicate 160 0) 0 (le_bytes 8 gen)) 8 (le_bytes 8 gen))
      16 (le_bytes 8 0)) 24 (le_bytes 8 0)) 32 (le_bytes 8 0)) 40 (le_bytes 4 nlink)) 44 (le_bytes 4 uid)) 48 (le_bytes 4 gid))
      52 (le_bytes 4 mode)) 56 (le_bytes 8 0)) 64 (le_bytes 8 0)) 72 (le_bytes 8 1)"
  have "d = h @ replicate 80 0"
    by (simp add: d_def h_def inode_head_def put_zeros_first put_zeros del: append_assoc replicate_Suc)
  also have "replicate 80 (0::byte) = replicate 32 0 @ replicate 48 0" by (simp add: replicate_add [symmetric])
  finally have d: "d = (h @ replicate 32 0) @ replicate 48 0" by simp
  have "length h = 80" by (simp add: h_def)
  then have "fold (\<lambda>off d. put (put d off (le_bytes 8 sec)) (off + 8) (le_bytes 4 nsec)) [112, 124, 136, 148] d
      = h @ replicate 32 0 @ le_bytes 8 sec @ le_bytes 4 nsec @ le_bytes 8 sec @ le_bytes 4 nsec @ le_bytes 8 sec @ le_bytes 4 nsec
        @ le_bytes 8 sec @ le_bytes 4 nsec"
    unfolding d by (simp add: put_zeros del: append_assoc replicate_Suc)
  then show ?thesis unfolding build_empty_inode_item_def Let_def d_def h_def .
qed

lemma inode_item_back:
  assumes "mode < 2 ^ 32" "uid < 2 ^ 32" "gid < 2 ^ 32" "nlink < 2 ^ 32" "sec < 2 ^ 64"
  shows "inode_parse oid (build_empty_inode_item gen mode uid gid nlink sec nsec) =
    Inr \<lparr>ino_objectid = oid, ino_size = 0, ino_nbytes = 0, ino_nlink = nlink, ino_uid = uid, ino_gid = gid, ino_mode = mode,
         ino_rdev = 0, ino_flags = 0, ino_atime = as_i64 sec, ino_ctime = as_i64 sec, ino_mtime = as_i64 sec\<rparr>"
proof -
  let ?d = "build_empty_inode_item gen mode uid gid nlink sec nsec" and ?h = "inode_head gen mode uid gid nlink"
  have h: "u64le ?d i = u64le ?h i" if "i + 8 \<le> 80" for i
    using that by (simp add: build_inode_item_eq u64le_def slice_append_left)
  have h4: "u32le ?d i = u32le ?h i" if "i + 4 \<le> 80" for i
    using that by (simp add: build_inode_item_eq u32le_def slice_append_left)
  have "u64le ?h 16 = 0" "u64le ?h 24 = 0" "u32le ?h 40 = nlink" "u32le ?h 44 = uid" "u32le ?h 48 = gid" "u32le ?h 52 = mode"
    "u64le ?h 56 = 0" "u64le ?h 64 = 0"
    using assms by (simp_all add: inode_head_def u64le_def u32le_def bytes_simps)
  moreover have "u64le ?d 112 = sec" "u64le ?d 124 = sec" "u64le ?d 136 = sec" "length ?d = 160"
    using assms by (simp_all add: build_inode_item_eq u64le_def bytes_simps)
  ultimately show ?thesis by (simp add: inode_parse_def INODE_ITEM_SIZE_def h h4)
qed

lemma build_regular_file_extent_eq:
  "build_regular_file_extent gen ram bn dn nb = le_bytes 8 gen @ le_bytes 8 ram @ [0] @ [0] @ le_bytes 2 0 @ [1]
     @ le_bytes 8 bn @ le_bytes 8 dn @ le_bytes 8 0 @ le_bytes 8 nb"
  by (simp add: build_regular_file_extent_def Let_def put_zeros_first put_zeros del: append_assoc replicate_Suc)

lemma file_extent_back:
  assumes "ram < 2 ^ 64" "bn < 2 ^ 64" "dn < 2 ^ 64" "nb < 2 ^ 64"
  shows "file_extent_parse off (build_regular_file_extent gen ram bn dn nb) =
    Inr \<lparr>fe_file_offset = off, fe_kind = ExtRegular, fe_ram_bytes = ram, fe_compression = 0, fe_disk_bytenr = bn,
         fe_disk_num_bytes = dn, fe_offset = 0, fe_num_bytes = nb, fe_inline = None\<rparr>"
proof -
  let ?d = "build_regular_file_extent gen ram bn dn nb"
  have "length ?d = 53" "?d ! 16 = 0" "?d ! 17 = 0" "?d ! 20 = 1"
    by (simp_all add: build_regular_file_extent_eq nth_append)
  moreover have "u64le ?d 8 = ram" "u64le ?d 21 = bn" "u64le ?d 29 = dn" "u64le ?d 37 = 0" "u64le ?d 45 = nb"
    using assms by (simp_all add: build_regular_file_extent_eq u64le_def bytes_simps)
  ultimately show ?thesis by (simp add: file_extent_parse_def REGULAR_ITEM_SIZE_def Let_def)
qed

definition dir_head :: "nat \<Rightarrow> nat \<Rightarrow> byte \<Rightarrow> bytes \<Rightarrow> bytes" where
  "dir_head child_ino transid ftype name =
     le_bytes 8 child_ino @ [1] @ le_bytes 8 0 @ le_bytes 8 transid @ le_bytes 2 0 @ le_bytes 2 (length name) @ [ftype]"

lemma build_dir_item_eq: "build_dir_item child_ino transid ftype name = dir_head child_ino transid ftype name @ name"
  by (simp add: build_dir_item_def dir_head_def Let_def put_zeros_first put_zeros INODE_ITEM_KEY_def del: append_assoc replicate_Suc)

lemma parse_one_dir_entry:
  assumes "ino < 2 ^ 64" "length name < 2 ^ 16"
  shows "parse_dir_entries (build_dir_item ino tr ft name @ rest) =
    rbind (parse_dir_entries rest) (\<lambda>out. Inr (\<lparr>de_name = name, de_location = key_new ino 1 0,
      de_file_type = dir_type_to_file_type (unat ft)\<rparr> # out))"
proof -
  let ?d = "build_dir_item ino tr ft name @ rest"
  have d: "?d = dir_head ino tr ft name @ name @ rest" by (simp add: build_dir_item_eq)
  have "u16le ?d 25 = 0" "u16le ?d 27 = length name" "u64le ?d 0 = ino" "u64le ?d 9 = 0" "?d ! 8 = 1" "?d ! 29 = ft"
    using assms by (simp_all add: d dir_head_def u16le_def u64le_def bytes_simps nth_append)
  moreover have "length (dir_head ino tr ft name) = 30" by (simp add: dir_head_def)
  then have "slice ?d 30 (length name) = name" "drop (30 + length name) ?d = rest" "length ?d = 30 + length name + length rest"
    by (simp_all add: d slice_def)
  moreover have "build_dir_item ino tr ft name \<noteq> []" by (simp add: build_dir_item_eq dir_head_def)
  ultimately show ?thesis
    by (subst parse_dir_entries.simps) (simp add: DIR_ITEM_HEAD_def Let_def key_new_def)
qed

section \<open>Properties\<close>

text \<open>C36: directory items. Any number of entries packed end to end into one item, as names that share a
  hash are, parse back to exactly those entries in order: each with its name, pointing at an inode item
  and never taken for a subvolume.\<close>

theorem dir_items_roundtrip:
  assumes "\<forall>(ino, tr, ft, name) \<in> set es. ino < 2 ^ 64 \<and> length name < 2 ^ 16"
  shows "parse_dir_entries (concat (map (\<lambda>(ino, tr, ft, name). build_dir_item ino tr ft name) es))
    = Inr (map (\<lambda>(ino, tr, ft, name). \<lparr>de_name = name, de_location = key_new ino 1 0,
        de_file_type = dir_type_to_file_type (unat ft)\<rparr>) es)"
  using assms
proof (induction es)
  case Nil
  then show ?case by (subst parse_dir_entries.simps) simp
next
  case (Cons e es)
  then show ?case by (cases e) (simp add: parse_one_dir_entry)
qed

theorem dir_items_roundtrip_witness:
  "parse_dir_entries (build_dir_item 257 9 1 [0x61] @ build_dir_item 258 9 2 [0x62, 0x63])
    = Inr [\<lparr>de_name = [0x61], de_location = key_new 257 1 0, de_file_type = Regular\<rparr>,
           \<lparr>de_name = [0x62, 0x63], de_location = key_new 258 1 0, de_file_type = Directory\<rparr>]"
  using dir_items_roundtrip [of "[(257, 9, 1, [0x61]), (258, 9, 2, [0x62, 0x63])]"] by (simp add: dir_type_to_file_type_def)

text \<open>C37: the inode and the file extent a new file is created with. Reading the built inode item gives an
  empty file with the given mode, owner, link count and times; reading the built extent item gives a
  regular, uncompressed extent with the given addresses that occupies disk exactly when its address and
  size are not zero.\<close>

theorem new_file_items_roundtrip:
  assumes "mode < 2 ^ 32" "uid < 2 ^ 32" "gid < 2 ^ 32" "nlink < 2 ^ 32" "sec < 2 ^ 64"
    and "ram < 2 ^ 64" "bn < 2 ^ 64" "dn < 2 ^ 64" "nb < 2 ^ 64"
  shows "\<exists>i e. inode_parse oid (build_empty_inode_item gen mode uid gid nlink sec nsec) = Inr i
    \<and> ino_size i = 0 \<and> ino_nbytes i = 0 \<and> ino_nlink i = nlink \<and> ino_uid i = uid \<and> ino_gid i = gid \<and> ino_mode i = mode
    \<and> ino_mtime i = as_i64 sec \<and> inode_file_type i = mode_to_type mode
    \<and> file_extent_parse off (build_regular_file_extent gen ram bn dn nb) = Inr e
    \<and> fe_disk_bytenr e = bn \<and> fe_disk_num_bytes e = dn \<and> fe_num_bytes e = nb \<and> fe_ram_bytes e = ram \<and> fe_file_offset e = off
    \<and> \<not> is_compressed e \<and> (has_disk_bytes e \<longleftrightarrow> bn \<noteq> 0 \<and> dn \<noteq> 0) \<and> (is_zeros e \<longleftrightarrow> bn = 0)"
  using inode_item_back [OF assms(1-5)] file_extent_back [OF assms(6-9)]
  by (simp add: inode_file_type_def is_compressed_def has_disk_bytes_def is_zeros_def)

theorem new_file_items_roundtrip_witness:
  "\<exists>i. inode_parse 257 (build_empty_inode_item 7 0x81A4 1000 1000 1 1700000000 5) = Inr i \<and> ino_size i = 0
    \<and> inode_file_type i = Regular"
proof -
  have "mode_to_type 0x81A4 = Regular" by (simp add: mode_to_type_def)
  then show ?thesis
    using new_file_items_roundtrip [where mode = "0x81A4" and uid = 1000 and gid = 1000 and nlink = 1 and sec = 1700000000
        and ram = 4096 and bn = 65536 and dn = 4096 and nb = 4096 and oid = 257 and gen = 7 and nsec = 5 and off = 0]
    by auto
qed

end
