(* ===== verification/Btree_Cursor.thy ===== *)
theory Btree_Cursor
  imports Btree_Node
begin

text \<open>
  Searching a btrfs tree (\<open>core/src/fs/btrfs/cursor.rs\<close>, with \<open>read_logical\<close>, \<open>read_node\<close> and \<open>walk_tree\<close>
  of \<open>mod.rs\<close>): a cursor holds the nodes from the leaf up to the root and the index within each. The
  node reader is an argument \<open>rn\<close> of the cursor operations. The lemmas relate a cursor to the items of
  the whole tree in key order: the items before it and the items from it on make up the tree, a search
  splits the tree at the key, and a step moves exactly one item across.
\<close>

section \<open>Reading nodes\<close>

text \<open>\<open>read_logical\<close>: the device is the argument \<open>rd\<close>, which reads a number of bytes at a physical
  address. A run of length zero would not advance; \<open>cm_map\<close> never reports one.\<close>

function read_logical :: "chunk_map \<Rightarrow> (nat \<Rightarrow> nat \<Rightarrow> bytes result) \<Rightarrow> nat \<Rightarrow> nat \<Rightarrow> bytes \<Rightarrow> bytes result" where
  "read_logical cm rd lg len acc =
     (if length acc < len then
        case cm_map cm (add64 lg (length acc)) of
          Inl e \<Rightarrow> Inl e
        | Inr (physical, run) \<Rightarrow>
            let n = min (len - length acc) run in
            if n = 0 then Inl Panic
            else case rd physical n of
                Inl e \<Rightarrow> Inl e
              | Inr b \<Rightarrow> if length b \<noteq> n then Inl Panic else read_logical cm rd lg len (acc @ b)
      else Inr acc)"
  by pat_completeness auto
termination
  by (relation "measure (\<lambda>(cm, rd, lg, len, acc). len - length acc)") auto

definition read_node :: "hashes \<Rightarrow> chunk_map \<Rightarrow> (nat \<Rightarrow> nat \<Rightarrow> bytes result) \<Rightarrow> nat \<Rightarrow> csum_type \<Rightarrow> bytes \<Rightarrow> nat \<Rightarrow> node result" where
  "read_node H cm rd node_size ct uuid lg =
     rbind (read_logical cm rd lg node_size []) (\<lambda>b. node_parse H b lg ct uuid)"

definition MAX_LEVEL :: nat where "MAX_LEVEL = 8"

text \<open>\<open>walk_node\<close> visits the items below a node in order; \<open>f\<close> is the visitor, threaded through the visits.
  The level drops by one per descent, which bounds the recursion.\<close>

fun visit_items :: "('a \<Rightarrow> key \<Rightarrow> bytes \<Rightarrow> 'a result) \<Rightarrow> node \<Rightarrow> nat list \<Rightarrow> 'a \<Rightarrow> 'a result" where
  "visit_items f n [] a = Inr a"
| "visit_items f n (i # ixs) a =
     rbind (node_key n i) (\<lambda>k. rbind (node_item_data n i) (\<lambda>d. rbind (f a k d) (visit_items f n ixs)))"

fun visit_children :: "(nat \<Rightarrow> node result) \<Rightarrow> (node \<Rightarrow> 'a \<Rightarrow> 'a result) \<Rightarrow> node \<Rightarrow> nat list \<Rightarrow> 'a \<Rightarrow> 'a result" where
  "visit_children rn walk n [] a = Inr a"
| "visit_children rn walk n (i # ixs) a =
     rbind (node_key_ptr n i) (\<lambda>p. rbind (rn (ptr_blockptr p)) (\<lambda>child.
       if node_level child + 1 \<noteq> node_level n
       then Inl (CorruptFs ''btrfs child node is not one level below its parent'')
       else rbind (walk child a) (visit_children rn walk n ixs)))"

fun walk_node :: "nat \<Rightarrow> (nat \<Rightarrow> node result) \<Rightarrow> ('a \<Rightarrow> key \<Rightarrow> bytes \<Rightarrow> 'a result) \<Rightarrow> node \<Rightarrow> 'a \<Rightarrow> 'a result" where
  "walk_node 0 rn f n a = visit_items f n [0..<nr_items n] a"
| "walk_node (Suc l) rn f n a = visit_children rn (walk_node l rn f) n [0..<nr_items n] a"

definition walk_tree :: "(nat \<Rightarrow> node result) \<Rightarrow> nat \<Rightarrow> ('a \<Rightarrow> key \<Rightarrow> bytes \<Rightarrow> 'a result) \<Rightarrow> 'a \<Rightarrow> 'a result" where
  "walk_tree rn root f a =
     rbind (rn root) (\<lambda>n.
       if node_level n > MAX_LEVEL then Inl (CorruptFs ''btrfs tree is implausibly deep'')
       else walk_node (node_level n) rn f n a)"

section \<open>The cursor\<close>

text \<open>The path, with the leaf first (the source's vector has it last).\<close>

type_synonym path = "(node \<times> nat) list"

definition cursor_valid :: "path \<Rightarrow> bool" where
  "cursor_valid c = (case c of [] \<Rightarrow> False | (n, i) # _ \<Rightarrow> i < nr_items n)"

definition cursor_key :: "path \<Rightarrow> key result" where
  "cursor_key c = (case c of [] \<Rightarrow> Inl Panic | (n, i) # _ \<Rightarrow> node_key n i)"

definition cursor_data :: "path \<Rightarrow> bytes result" where
  "cursor_data c = (case c of [] \<Rightarrow> Inl Panic | (n, i) # _ \<Rightarrow> node_item_data n i)"

text \<open>The descent of \<open>search\<close>; \<open>up\<close> is the path above \<open>node\<close>.\<close>

function search_descend :: "(nat \<Rightarrow> node result) \<Rightarrow> key \<Rightarrow> node \<Rightarrow> path \<Rightarrow> path result" where
  "search_descend rn k n up =
     (if \<not> is_leaf n \<and> nr_items n > 0 then
        rbind (child_for n k) (\<lambda>i. rbind (node_key_ptr n i) (\<lambda>p.
          case rn (ptr_blockptr p) of
            Inl e \<Rightarrow> Inl e
          | Inr child \<Rightarrow>
              if node_level child + 1 \<noteq> node_level n
              then Inl (CorruptFs ''btrfs child node is not one level below its parent'')
              else search_descend rn k child ((n, i) # up)))
      else rbind (lower_bound n k) (\<lambda>i. Inr ((n, i) # up)))"
  by pat_completeness auto
termination
  by (relation "measure (\<lambda>(rn, k, n, up). node_level n)") auto

text \<open>The climb and the leftmost descent of \<open>advance_leaf\<close>.\<close>

fun climb_next :: "path \<Rightarrow> path" where
  "climb_next [] = []"
| "climb_next ((n, i) # up) = (if i + 1 < nr_items n then (n, i) # up else climb_next up)"

function descend_left :: "(nat \<Rightarrow> node result) \<Rightarrow> nat \<Rightarrow> nat \<Rightarrow> path \<Rightarrow> path result" where
  "descend_left rn p lv up =
     (case rn p of
        Inl e \<Rightarrow> Inl e
      | Inr child \<Rightarrow>
          if node_level child + 1 \<noteq> lv
          then Inl (CorruptFs ''btrfs child node is not one level below its parent'')
          else if is_leaf child then Inr ((child, 0) # up)
          else case node_key_ptr child 0 of
              Inl e \<Rightarrow> Inl e
            | Inr q \<Rightarrow> descend_left rn (ptr_blockptr q) (node_level child) ((child, 0) # up))"
  by pat_completeness auto
termination
  by (relation "measure (\<lambda>(rn, p, lv, up). lv)") auto

definition advance_leaf :: "(nat \<Rightarrow> node result) \<Rightarrow> path \<Rightarrow> path result" where
  "advance_leaf rn c =
     (case climb_next (tl c) of
        [] \<Rightarrow> Inr c
      | (n, i) # up \<Rightarrow>
          rbind (node_key_ptr n (i + 1)) (\<lambda>q. descend_left rn (ptr_blockptr q) (node_level n) ((n, i + 1) # up)))"

definition cursor_search :: "(nat \<Rightarrow> node result) \<Rightarrow> nat \<Rightarrow> key \<Rightarrow> path result" where
  "cursor_search rn root k =
     rbind (rn root) (\<lambda>n. rbind (search_descend rn k n []) (\<lambda>c.
       if cursor_valid c then Inr c else advance_leaf rn c))"

definition advance :: "(nat \<Rightarrow> node result) \<Rightarrow> path \<Rightarrow> path result" where
  "advance rn c =
     (case c of
        [] \<Rightarrow> Inl Panic
      | (n, i) # up \<Rightarrow>
          (let c = (n, if i < nr_items n then i + 1 else i) # up in
           if cursor_valid c then Inr c else advance_leaf rn c))"

function descend_right :: "(nat \<Rightarrow> node result) \<Rightarrow> nat \<Rightarrow> nat \<Rightarrow> path \<Rightarrow> path result" where
  "descend_right rn p lv up =
     (case rn p of
        Inl e \<Rightarrow> Inl e
      | Inr child \<Rightarrow>
          if node_level child + 1 \<noteq> lv
          then Inl (CorruptFs ''btrfs child node is not one level below its parent'')
          else if nr_items child = 0 then Inl (CorruptFs ''btrfs node has no items'')
          else if is_leaf child then Inr ((child, nr_items child - 1) # up)
          else case node_key_ptr child (nr_items child - 1) of
              Inl e \<Rightarrow> Inl e
            | Inr q \<Rightarrow> descend_right rn (ptr_blockptr q) (node_level child) ((child, nr_items child - 1) # up))"
  by pat_completeness auto
termination
  by (relation "measure (\<lambda>(rn, p, lv, up). lv)") auto

text \<open>\<open>retreat_leaf\<close>: climb to a node with an earlier child and descend to its last leaf; at the very first
  item, park past the end of the root.\<close>

fun retreat_leaf :: "(nat \<Rightarrow> node result) \<Rightarrow> path \<Rightarrow> path result" where
  "retreat_leaf rn [] = Inl Panic"
| "retreat_leaf rn [(n, i)] = Inr [(n, nr_items n)]"
| "retreat_leaf rn (_ # (n, i) # up) =
     (if i = 0 then retreat_leaf rn ((n, i) # up)
      else rbind (node_key_ptr n (i - 1)) (\<lambda>q. descend_right rn (ptr_blockptr q) (node_level n) ((n, i - 1) # up)))"

definition retreat :: "(nat \<Rightarrow> node result) \<Rightarrow> path \<Rightarrow> path result" where
  "retreat rn c =
     (case c of
        [] \<Rightarrow> Inl Panic
      | (n, i) # up \<Rightarrow> if i > 0 then Inr ((n, i - 1) # up) else retreat_leaf rn c)"

definition search_le :: "(nat \<Rightarrow> node result) \<Rightarrow> nat \<Rightarrow> key \<Rightarrow> path result" where
  "search_le rn root k =
     rbind (cursor_search rn root k) (\<lambda>c.
       if cursor_valid c then rbind (cursor_key c) (\<lambda>kc. if kc = k then Inr c else retreat rn c)
       else retreat rn c)"

definition find_tree_item :: "(nat \<Rightarrow> node result) \<Rightarrow> nat \<Rightarrow> key \<Rightarrow> bytes option result" where
  "find_tree_item rn root k =
     rbind (cursor_search rn root k) (\<lambda>c.
       if cursor_valid c then
         rbind (cursor_key c) (\<lambda>kc. if kc = k then rbind (cursor_data c) (\<lambda>d. Inr (Some d)) else Inr None)
       else Inr None)"

declare search_descend.simps [simp del] descend_left.simps [simp del] descend_right.simps [simp del] read_logical.simps [simp del]

section \<open>The items of a tree\<close>

text \<open>The items below a node in key order, and what a consistent tree is: every child is readable and one
  level down, the keys of a node ascend, and the keys below entry \<open>i\<close> lie between key \<open>i\<close> and every later
  key. Only the root may be without entries.\<close>

definition child_addr :: "node \<Rightarrow> nat \<Rightarrow> nat" where
  "child_addr n i = u64le (raw n) (HEADER_SIZE + i * KEY_PTR_SIZE + KEY_SIZE)"

definition leaf_list :: "node \<Rightarrow> (key \<times> bytes) list" where
  "leaf_list n = map (\<lambda>i. (node_keys n ! i, projr (node_item_data n i))) [0..<nr_items n]"

fun items_below :: "(nat \<Rightarrow> node result) \<Rightarrow> nat \<Rightarrow> node \<Rightarrow> (key \<times> bytes) list" where
  "items_below rn 0 n = leaf_list n"
| "items_below rn (Suc l) n = concat (map (\<lambda>i. items_below rn l (projr (rn (child_addr n i)))) [0..<nr_items n])"

fun wf_below :: "(nat \<Rightarrow> node result) \<Rightarrow> nat \<Rightarrow> node \<Rightarrow> bool" where
  "wf_below rn 0 n \<longleftrightarrow> node_level n = 0 \<and> node_sorted n \<and> (\<forall>i < nr_items n. \<not> isl (node_item_data n i))"
| "wf_below rn (Suc l) n \<longleftrightarrow> node_level n = Suc l \<and> node_sorted n \<and> 0 < nr_items n
     \<and> (\<forall>i < nr_items n. \<not> isl (rn (child_addr n i)))
     \<and> (\<forall>i < nr_items n. wf_below rn l (projr (rn (child_addr n i))) \<and> 0 < nr_items (projr (rn (child_addr n i))))
     \<and> (\<forall>i < nr_items n. \<forall>x \<in> set (items_below rn l (projr (rn (child_addr n i)))).
          key_ord (node_keys n ! i) \<le> key_ord (fst x) \<and> (\<forall>j < nr_items n. i < j \<longrightarrow> key_ord (fst x) < key_ord (node_keys n ! j)))"

text \<open>The items of the children \<open>js\<close> of a node.\<close>

definition child_items :: "(nat \<Rightarrow> node result) \<Rightarrow> node \<Rightarrow> nat list \<Rightarrow> (key \<times> bytes) list" where
  "child_items rn n js = concat (map (\<lambda>i. items_below rn (node_level n - 1) (projr (rn (child_addr n i)))) js)"

lemma child_items_simps [simp]:
  "child_items rn n [] = []"
  "child_items rn n (i # js) = items_below rn (node_level n - 1) (projr (rn (child_addr n i))) @ child_items rn n js"
  "child_items rn n (js @ js') = child_items rn n js @ child_items rn n js'"
  by (simp_all add: child_items_def)

lemma wf_below_level: "wf_below rn l n \<Longrightarrow> node_level n = l"
  by (cases l) auto

lemma wf_below_sorted: "wf_below rn l n \<Longrightarrow> node_sorted n"
  by (cases l) auto

lemma interior_items:
  "\<not> is_leaf n \<Longrightarrow> items_below rn (node_level n) n = child_items rn n [0..<nr_items n]"
  by (cases "node_level n") (simp_all add: is_leaf_def child_items_def)

lemma wf_child:
  assumes "wf_below rn (node_level n) n" "\<not> is_leaf n" "i < nr_items n"
  obtains c where "rn (child_addr n i) = Inr c" "node_level c + 1 = node_level n" "wf_below rn (node_level c) c"
    "0 < nr_items c"
    "\<And>x. x \<in> set (items_below rn (node_level c) c) \<Longrightarrow> key_ord (node_keys n ! i) \<le> key_ord (fst x)"
    "\<And>x j. x \<in> set (items_below rn (node_level c) c) \<Longrightarrow> i < j \<Longrightarrow> j < nr_items n \<Longrightarrow> key_ord (fst x) < key_ord (node_keys n ! j)"
proof -
  obtain l where l: "node_level n = Suc l" using assms(2) by (cases "node_level n") (simp_all add: is_leaf_def)
  have w: "wf_below rn (Suc l) n" using assms(1) l by simp
  obtain c where c: "rn (child_addr n i) = Inr c" using w assms(3) by (cases "rn (child_addr n i)") auto
  have "wf_below rn l c" using w assms(3) c by (auto dest!: spec [of _ i])
  moreover have "node_level c = l" using calculation by (rule wf_below_level)
  ultimately show thesis using w assms(3) c l that by fastforce
qed

lemma wf_child_range:
  assumes "wf_below rn (node_level n) n" "\<not> is_leaf n" "j < nr_items n"
    "x \<in> set (items_below rn (node_level n - 1) (projr (rn (child_addr n j))))"
  shows "key_ord (node_keys n ! j) \<le> key_ord (fst x)" "j < i \<Longrightarrow> i < nr_items n \<Longrightarrow> key_ord (fst x) < key_ord (node_keys n ! i)"
proof -
  obtain c where c: "rn (child_addr n j) = Inr c" "node_level c + 1 = node_level n"
    and lo: "\<And>x. x \<in> set (items_below rn (node_level c) c) \<Longrightarrow> key_ord (node_keys n ! j) \<le> key_ord (fst x)"
    and hi: "\<And>x i. x \<in> set (items_below rn (node_level c) c) \<Longrightarrow> j < i \<Longrightarrow> i < nr_items n \<Longrightarrow> key_ord (fst x) < key_ord (node_keys n ! i)"
    using wf_child [OF assms(1-3)] by metis
  have "node_level n - 1 = node_level c" using c(2) by simp
  then have x: "x \<in> set (items_below rn (node_level c) c)" using assms(4) c(1) by simp
  show "key_ord (node_keys n ! j) \<le> key_ord (fst x)" by (rule lo [OF x])
  show "key_ord (fst x) < key_ord (node_keys n ! i)" if "j < i" "i < nr_items n" by (rule hi [OF x that])
qed

lemma node_key_ptr_child:
  "\<not> is_leaf n \<Longrightarrow> i < nr_items n \<Longrightarrow> \<exists>p. node_key_ptr n i = Inr p \<and> ptr_blockptr p = child_addr n i"
  by (simp add: node_key_ptr_def node_key_nth child_addr_def Let_def)

lemma leaf_list_nth: "i < nr_items n \<Longrightarrow> leaf_list n ! i = (node_keys n ! i, projr (node_item_data n i))"
  by (simp add: leaf_list_def)

lemma length_leaf_list [simp]: "length (leaf_list n) = nr_items n"
  by (simp add: leaf_list_def)

lemma map_fst_leaf_list: "map fst (leaf_list n) = node_keys n"
  by (rule nth_equalityI) (simp_all add: leaf_list_def)

definition item_lt :: "key \<times> bytes \<Rightarrow> key \<times> bytes \<Rightarrow> bool" where
  "item_lt x y \<longleftrightarrow> key_ord (fst x) < key_ord (fst y)"

lemma sorted_wrt_concat_upt:
  assumes "\<And>i. i < m \<Longrightarrow> sorted_wrt P (g i)"
    "\<And>i j x y. i < j \<Longrightarrow> j < m \<Longrightarrow> x \<in> set (g i) \<Longrightarrow> y \<in> set (g j) \<Longrightarrow> P x y"
  shows "sorted_wrt P (concat (map g [0..<m]))"
  using assms
proof (induction m)
  case (Suc m)
  have "sorted_wrt P (concat (map g [0..<m]))" using Suc.prems by (intro Suc.IH) auto
  moreover have "P x y" if "x \<in> set (concat (map g [0..<m]))" "y \<in> set (g m)" for x y
    using that Suc.prems(2) [of _ m x y] by auto
  ultimately show ?case using Suc.prems(1) [of m] by (simp add: sorted_wrt_append)
qed simp

lemma wf_below_items_sorted: "wf_below rn l n \<Longrightarrow> sorted_wrt item_lt (items_below rn l n)"
proof (induction l arbitrary: n)
  case 0
  then have "sorted_wrt (\<lambda>a b. key_ord a < key_ord b) (map fst (leaf_list n))"
    by (simp add: map_fst_leaf_list node_sorted_def)
  then show ?case by (simp add: sorted_wrt_map item_lt_def [abs_def])
next
  case (Suc l)
  have "item_lt x y" if ij: "i < j" "j < nr_items n"
    and x: "x \<in> set (items_below rn l (projr (rn (child_addr n i))))"
    and y: "y \<in> set (items_below rn l (projr (rn (child_addr n j))))" for i j x y
  proof -
    have "\<forall>i < nr_items n. \<forall>x \<in> set (items_below rn l (projr (rn (child_addr n i)))).
        \<forall>j < nr_items n. i < j \<longrightarrow> key_ord (fst x) < key_ord (node_keys n ! j)" using Suc.prems by simp
    then have "key_ord (fst x) < key_ord (node_keys n ! j)" using ij x by (meson order.strict_trans)
    moreover have "key_ord (node_keys n ! j) \<le> key_ord (fst y)" using Suc.prems ij y by auto
    ultimately show ?thesis by (simp add: item_lt_def)
  qed
  then show ?case using Suc by (simp add: sorted_wrt_concat_upt)
qed

section \<open>A cursor as a split of the items\<close>

text \<open>\<open>linked rn root up\<close>: \<open>up\<close> is a chain of interior nodes from below up to \<open>root\<close>, each entry within
  its node and pointing at the node before it. \<open>at_node rn root c up\<close>: \<open>c\<close> is the node below the chain.\<close>

fun linked :: "(nat \<Rightarrow> node result) \<Rightarrow> node \<Rightarrow> path \<Rightarrow> bool"
  and at_node :: "(nat \<Rightarrow> node result) \<Rightarrow> node \<Rightarrow> node \<Rightarrow> path \<Rightarrow> bool" where
  "linked rn root [] \<longleftrightarrow> True"
| "linked rn root ((n, i) # up) \<longleftrightarrow> \<not> is_leaf n \<and> i < nr_items n \<and> at_node rn root n up"
| "at_node rn root c [] \<longleftrightarrow> c = root"
| "at_node rn root c ((n, i) # up) \<longleftrightarrow> rn (child_addr n i) = Inr c \<and> linked rn root ((n, i) # up)"

definition cursor_ok :: "(nat \<Rightarrow> node result) \<Rightarrow> node \<Rightarrow> path \<Rightarrow> bool" where
  "cursor_ok rn root c = (case c of [] \<Rightarrow> False | (n, i) # up \<Rightarrow> is_leaf n \<and> i \<le> nr_items n \<and> at_node rn root n up)"

fun up_rest :: "(nat \<Rightarrow> node result) \<Rightarrow> path \<Rightarrow> (key \<times> bytes) list" where
  "up_rest rn [] = []"
| "up_rest rn ((n, i) # up) = child_items rn n [Suc i..<nr_items n] @ up_rest rn up"

fun up_before :: "(nat \<Rightarrow> node result) \<Rightarrow> path \<Rightarrow> (key \<times> bytes) list" where
  "up_before rn [] = []"
| "up_before rn ((n, i) # up) = up_before rn up @ child_items rn n [0..<i]"

definition items_before :: "(nat \<Rightarrow> node result) \<Rightarrow> path \<Rightarrow> (key \<times> bytes) list" where
  "items_before rn c = (case c of [] \<Rightarrow> [] | (n, i) # up \<Rightarrow> up_before rn up @ take i (leaf_list n))"

definition items_from :: "(nat \<Rightarrow> node result) \<Rightarrow> path \<Rightarrow> (key \<times> bytes) list" where
  "items_from rn c = (case c of [] \<Rightarrow> [] | (n, i) # up \<Rightarrow> drop i (leaf_list n) @ up_rest rn up)"

definition tree_items :: "(nat \<Rightarrow> node result) \<Rightarrow> node \<Rightarrow> (key \<times> bytes) list" where
  "tree_items rn root = items_below rn (node_level root) root"

definition wf_tree :: "(nat \<Rightarrow> node result) \<Rightarrow> node \<Rightarrow> bool" where
  "wf_tree rn root \<longleftrightarrow> wf_below rn (node_level root) root"

lemma upt_split: "i < m \<Longrightarrow> [0..<m] = [0..<i] @ i # [Suc i..<m]"
  using upt_add_eq_append [of 0 i "m - i"] by (simp add: upt_conv_Cons)

lemma at_node_wf:
  assumes "wf_tree rn root"
  shows "at_node rn root n up \<Longrightarrow> wf_below rn (node_level n) n"
proof (induction up arbitrary: n)
  case Nil
  then show ?case using assms by (simp add: wf_tree_def)
next
  case (Cons p up)
  obtain m i where p: "p = (m, i)" by (cases p)
  have m: "wf_below rn (node_level m) m" "\<not> is_leaf m" "i < nr_items m" "rn (child_addr m i) = Inr n"
    using Cons p by auto
  show ?case by (rule wf_child [OF m(1-3)]) (use m(4) in auto)
qed

lemma at_node_child:
  assumes "wf_tree rn root" "linked rn root ((n, i) # up)"
  obtains c where "rn (child_addr n i) = Inr c" "node_level c + 1 = node_level n" "at_node rn root c ((n, i) # up)"
    "0 < nr_items c" "wf_below rn (node_level c) c"
    "child_items rn n [0..<nr_items n] = child_items rn n [0..<i] @ items_below rn (node_level c) c @ child_items rn n [Suc i..<nr_items n]"
proof -
  have n: "\<not> is_leaf n" "i < nr_items n" "at_node rn root n up" using assms(2) by auto
  show thesis
  proof (rule wf_child [OF at_node_wf [OF assms(1) n(3)] n(1,2)])
    fix c assume c: "rn (child_addr n i) = Inr c" "node_level c + 1 = node_level n" "wf_below rn (node_level c) c" "0 < nr_items c"
    then have "node_level n - 1 = node_level c" by simp
    then show thesis using that [of c] c assms(2) by (simp add: upt_split [OF n(2)])
  qed
qed

lemma at_node_items:
  assumes "wf_tree rn root"
  shows "at_node rn root n up \<Longrightarrow> up_before rn up @ items_below rn (node_level n) n @ up_rest rn up = tree_items rn root"
proof (induction up arbitrary: n)
  case (Cons p up)
  obtain m i where p: "p = (m, i)" by (cases p)
  have l: "linked rn root ((m, i) # up)" "rn (child_addr m i) = Inr n" using Cons.prems p by auto
  then have "up_before rn up @ child_items rn m [0..<nr_items m] @ up_rest rn up = tree_items rn root"
    using Cons.IH [of m] interior_items [of m rn] by simp
  then show ?case using l(2) p by (auto intro: at_node_child [OF assms l(1)])
qed (simp add: tree_items_def)

lemma cursor_split:
  assumes "wf_tree rn root" "cursor_ok rn root c"
  shows "tree_items rn root = items_before rn c @ items_from rn c"
proof -
  obtain n i up where c: "c = (n, i) # up" "is_leaf n" "at_node rn root n up"
    using assms(2) by (auto simp: cursor_ok_def split: list.splits)
  then show ?thesis
    using at_node_items [OF assms(1) c(3)] by (simp add: items_before_def items_from_def is_leaf_def) (metis append.assoc append_take_drop_id)
qed

lemma cursor_at_end:
  "cursor_ok rn root c \<Longrightarrow> \<not> cursor_valid c \<Longrightarrow> items_from rn c = up_rest rn (tl c)"
  by (auto simp: cursor_ok_def cursor_valid_def items_from_def split: list.splits)

lemma cursor_current:
  assumes "wf_tree rn root" "cursor_ok rn root c" "cursor_valid c"
  obtains k d xs where "items_from rn c = (k, d) # xs" "cursor_key c = Inr k" "cursor_data c = Inr d"
proof -
  obtain n i up where c: "c = (n, i) # up" "is_leaf n" "at_node rn root n up" "i < nr_items n"
    using assms(2,3) by (auto simp: cursor_ok_def cursor_valid_def split: list.splits)
  have "wf_below rn (node_level n) n" using at_node_wf [OF assms(1) c(3)] .
  then have "\<not> isl (node_item_data n i)" using c(2,4) by (simp add: is_leaf_def)
  then obtain d where d: "node_item_data n i = Inr d" by (cases "node_item_data n i") auto
  have "drop i (leaf_list n) = (node_keys n ! i, d) # drop (Suc i) (leaf_list n)"
    using c(4) d by (simp add: leaf_list_nth flip: Cons_nth_drop_Suc)
  then show thesis
    using c d that by (simp add: items_from_def cursor_key_def cursor_data_def node_key_nth)
qed

section \<open>Moving the cursor\<close>

lemma descend_left_ok:
  assumes "wf_tree rn root"
  shows "linked rn root ((n, i) # up) \<Longrightarrow>
    \<exists>c. descend_left rn (child_addr n i) (node_level n) ((n, i) # up) = Inr c \<and> cursor_ok rn root c \<and> cursor_valid c
      \<and> items_from rn c = child_items rn n [i..<nr_items n] @ up_rest rn up"
proof (induction "node_level n" arbitrary: n i up rule: less_induct)
  case less
  obtain c where c: "rn (child_addr n i) = Inr c" "node_level c + 1 = node_level n" "at_node rn root c ((n, i) # up)" "0 < nr_items c"
    by (rule at_node_child [OF assms less.prems])
  have i: "i < nr_items n" using less.prems by simp
  have nl: "node_level n - 1 = node_level c" using c(2) by simp
  have items: "child_items rn n [i..<nr_items n] = items_below rn (node_level c) c @ child_items rn n [Suc i..<nr_items n]"
    using i c(1) nl by (simp add: upt_conv_Cons)
  show ?case
  proof (cases "is_leaf c")
    case True
    then have "descend_left rn (child_addr n i) (node_level n) ((n, i) # up) = Inr ((c, 0) # (n, i) # up)"
      using c by (subst descend_left.simps) simp
    then show ?thesis using True c items by (simp add: cursor_ok_def cursor_valid_def items_from_def is_leaf_def)
  next
    case False
    then obtain q where q: "node_key_ptr c 0 = Inr q" "ptr_blockptr q = child_addr c 0" using node_key_ptr_child c(4) by blast
    have "descend_left rn (child_addr n i) (node_level n) ((n, i) # up)
        = descend_left rn (child_addr c 0) (node_level c) ((c, 0) # (n, i) # up)"
      using False c q by (subst descend_left.simps) simp
    moreover have "linked rn root ((c, 0) # (n, i) # up)" using False c by simp
    ultimately show ?thesis using less.hyps [of c 0 "(n, i) # up"] c(2) items False by (simp add: interior_items)
  qed
qed

lemma descend_right_ok:
  assumes "wf_tree rn root"
  shows "linked rn root ((n, i) # up) \<Longrightarrow>
    \<exists>c y. descend_right rn (child_addr n i) (node_level n) ((n, i) # up) = Inr c \<and> cursor_ok rn root c \<and> cursor_valid c
      \<and> items_from rn c = y # up_rest rn ((n, i) # up)"
proof (induction "node_level n" arbitrary: n i up rule: less_induct)
  case less
  obtain c where c: "rn (child_addr n i) = Inr c" "node_level c + 1 = node_level n" "at_node rn root c ((n, i) # up)" "0 < nr_items c"
    by (rule at_node_child [OF assms less.prems])
  define z where "z = nr_items c - 1"
  have z: "z < nr_items c" "Suc z = nr_items c" using c(4) by (simp_all add: z_def)
  show ?case
  proof (cases "is_leaf c")
    case True
    then have "descend_right rn (child_addr n i) (node_level n) ((n, i) # up) = Inr ((c, z) # (n, i) # up)"
      using c by (subst descend_right.simps) (simp add: z_def)
    moreover have "drop z (leaf_list c) = [leaf_list c ! z]" using z by (simp flip: Cons_nth_drop_Suc)
    ultimately show ?thesis using True c z by (simp add: cursor_ok_def cursor_valid_def items_from_def is_leaf_def)
  next
    case False
    then obtain q where q: "node_key_ptr c z = Inr q" "ptr_blockptr q = child_addr c z" using node_key_ptr_child z(1) by blast
    have "descend_right rn (child_addr n i) (node_level n) ((n, i) # up)
        = descend_right rn (child_addr c z) (node_level c) ((c, z) # (n, i) # up)"
      using False c q by (subst descend_right.simps) (simp add: z_def)
    moreover have "linked rn root ((c, z) # (n, i) # up)" using False c z by simp
    moreover have "up_rest rn ((c, z) # (n, i) # up) = up_rest rn ((n, i) # up)" using z by simp
    ultimately show ?thesis using less.hyps [of c z "(n, i) # up"] c(2) by simp
  qed
qed

lemma climb_next_ok:
  "linked rn root up \<Longrightarrow> climb_next up = [] \<and> up_rest rn up = [] \<or>
    (\<exists>n i up'. climb_next up = (n, i) # up' \<and> linked rn root ((n, Suc i) # up')
      \<and> up_rest rn up = child_items rn n [Suc i..<nr_items n] @ up_rest rn up')"
proof (induction up)
  case (Cons p up)
  obtain n i where p: "p = (n, i)" by (cases p)
  have "linked rn root up" using Cons.prems p by (cases up) auto
  then show ?case using Cons p by (cases "Suc i < nr_items n") auto
qed simp

lemma advance_leaf_ok:
  assumes "wf_tree rn root" "cursor_ok rn root c" "\<not> cursor_valid c"
  shows "\<exists>c'. advance_leaf rn c = Inr c' \<and> cursor_ok rn root c' \<and> items_from rn c' = items_from rn c
    \<and> (cursor_valid c' \<longleftrightarrow> items_from rn c' \<noteq> [])"
proof -
  have "linked rn root (tl c)" using assms(2) by (cases "tl c") (auto simp: cursor_ok_def split: list.splits)
  from climb_next_ok [OF this] show ?thesis
  proof (elim disjE exE conjE)
    assume "climb_next (tl c) = []" "up_rest rn (tl c) = []"
    then show ?thesis using assms cursor_at_end [OF assms(2,3)] by (simp add: advance_leaf_def)
  next
    fix n i up assume n: "climb_next (tl c) = (n, i) # up" "linked rn root ((n, Suc i) # up)"
      "up_rest rn (tl c) = child_items rn n [Suc i..<nr_items n] @ up_rest rn up"
    obtain q where q: "node_key_ptr n (Suc i) = Inr q" "ptr_blockptr q = child_addr n (Suc i)"
      using node_key_ptr_child n(2) by auto
    obtain c' where c': "descend_left rn (child_addr n (Suc i)) (node_level n) ((n, Suc i) # up) = Inr c'" "cursor_ok rn root c'"
      "cursor_valid c'" "items_from rn c' = child_items rn n [Suc i..<nr_items n] @ up_rest rn up"
      using descend_left_ok [OF assms(1) n(2)] by auto
    moreover have "advance_leaf rn c = Inr c'" using n(1) q c'(1) by (simp add: advance_leaf_def)
    moreover have "items_from rn c' \<noteq> []" using cursor_current [OF assms(1) c'(2,3)] by (metis list.distinct(1))
    ultimately show ?thesis using n(3) cursor_at_end [OF assms(2,3)] by simp
  qed
qed

lemma advance_ok:
  assumes "wf_tree rn root" "cursor_ok rn root c" "cursor_valid c"
  shows "\<exists>c'. advance rn c = Inr c' \<and> cursor_ok rn root c' \<and> items_from rn c' = tl (items_from rn c)
    \<and> (cursor_valid c' \<longleftrightarrow> items_from rn c' \<noteq> [])"
proof -
  obtain n i up where c: "c = (n, i) # up" "is_leaf n" "at_node rn root n up" "i < nr_items n"
    using assms(2,3) by (auto simp: cursor_ok_def cursor_valid_def split: list.splits)
  let ?c = "(n, Suc i) # up"
  have ok: "cursor_ok rn root ?c" using c by (simp add: cursor_ok_def)
  have "drop i (leaf_list n) = leaf_list n ! i # drop (Suc i) (leaf_list n)" using c(4) by (simp add: Cons_nth_drop_Suc)
  then have it: "items_from rn ?c = tl (items_from rn c)" using c(1) by (simp add: items_from_def)
  show ?thesis
  proof (cases "cursor_valid ?c")
    case True
    moreover have "items_from rn ?c \<noteq> []" using cursor_current [OF assms(1) ok True] by (metis list.distinct(1))
    ultimately show ?thesis using ok it c by (simp add: advance_def)
  next
    case False
    then have "advance rn c = advance_leaf rn ?c" using c by (simp add: advance_def)
    then show ?thesis using advance_leaf_ok [OF assms(1) ok False] it by simp
  qed
qed

lemma retreat_leaf_ok:
  assumes "wf_tree rn root"
  shows "linked rn root up \<Longrightarrow> up_before rn up @ R = tree_items rn root \<Longrightarrow>
    up_before rn up \<noteq> [] \<and> (\<exists>c y. retreat_leaf rn (x # up) = Inr c \<and> cursor_ok rn root c \<and> cursor_valid c \<and> items_from rn c = y # R) \<or>
    up_before rn up = [] \<and> (\<exists>c. retreat_leaf rn (x # up) = Inr c \<and> \<not> cursor_valid c)"
proof (induction up arbitrary: x)
  case Nil
  then show ?case by (cases x) (simp add: cursor_valid_def)
next
  case (Cons p up)
  obtain n i where p: "p = (n, i)" by (cases p)
  have l: "\<not> is_leaf n" "i < nr_items n" "at_node rn root n up" using Cons.prems(1) p by auto
  have up: "linked rn root up" using l(3) by (cases up) auto
  show ?case
  proof (cases i)
    case 0
    then have "retreat_leaf rn (x # p # up) = retreat_leaf rn ((n, 0) # up)" using p by simp
    then show ?thesis using Cons.IH [OF up, of "(n, 0)"] Cons.prems(2) p 0 by simp
  next
    case (Suc j)
    have lj: "linked rn root ((n, j) # up)" using l Suc by simp
    obtain q where q: "node_key_ptr n j = Inr q" "ptr_blockptr q = child_addr n j" using node_key_ptr_child [of n j] l Suc by auto
    obtain c y where c: "descend_right rn (child_addr n j) (node_level n) ((n, j) # up) = Inr c" "cursor_ok rn root c" "cursor_valid c"
      "items_from rn c = y # up_rest rn ((n, j) # up)" using descend_right_ok [OF assms lj] by blast
    have "up_before rn up @ child_items rn n [0..<nr_items n] @ up_rest rn up = tree_items rn root"
      using at_node_items [OF assms l(3)] interior_items [OF l(1)] by simp
    moreover have "[0..<nr_items n] = [0..<i] @ [i..<nr_items n]" using l(2) upt_add_eq_append [of 0 i "nr_items n - i"] by simp
    ultimately have "tree_items rn root = up_before rn (p # up) @ up_rest rn ((n, j) # up)" using p Suc by simp
    then have R: "R = up_rest rn ((n, j) # up)" using Cons.prems(2) by (metis same_append_eq)
    have "tree_items rn root = items_before rn c @ y # R" using cursor_split [OF assms c(2)] c(4) R by simp
    then have "up_before rn (p # up) @ R = (items_before rn c @ [y]) @ R" using Cons.prems(2) by simp
    then have "up_before rn (p # up) \<noteq> []" by (metis append_same_eq snoc_eq_iff_butlast)
    moreover have "retreat_leaf rn (x # p # up) = Inr c" using p q c(1) Suc by simp
    ultimately show ?thesis using c R by blast
  qed
qed

lemma retreat_ok:
  assumes "wf_tree rn root" "cursor_ok rn root c"
  shows "items_before rn c \<noteq> [] \<and> (\<exists>c' y. retreat rn c = Inr c' \<and> cursor_ok rn root c' \<and> cursor_valid c' \<and> items_from rn c' = y # items_from rn c) \<or>
    items_before rn c = [] \<and> (\<exists>c'. retreat rn c = Inr c' \<and> \<not> cursor_valid c')"
proof -
  obtain n i up where c: "c = (n, i) # up" "is_leaf n" "at_node rn root n up" "i \<le> nr_items n"
    using assms(2) by (auto simp: cursor_ok_def split: list.splits)
  show ?thesis
  proof (cases i)
    case 0
    have "linked rn root up" using c(3) by (cases up) auto
    moreover have "up_before rn up @ items_from rn c = tree_items rn root"
      using cursor_split [OF assms] c 0 by (simp add: items_before_def)
    ultimately show ?thesis using retreat_leaf_ok [OF assms(1), of up "items_from rn c" "(n, i)"] c 0
      by (simp add: retreat_def items_before_def)
  next
    case (Suc j)
    have "drop j (leaf_list n) = leaf_list n ! j # drop i (leaf_list n)" using c(4) Suc by (simp add: Cons_nth_drop_Suc)
    moreover have "take i (leaf_list n) \<noteq> []" using c(4) Suc by (cases "leaf_list n") (auto dest: arg_cong [of _ _ length])
    ultimately show ?thesis using c Suc
      by (simp add: retreat_def items_before_def items_from_def cursor_ok_def cursor_valid_def)
  qed
qed

section \<open>Searching the tree\<close>

lemma search_descend_ok:
  assumes "wf_tree rn root"
  shows "at_node rn root n up \<Longrightarrow> (\<And>x. x \<in> set (up_before rn up) \<Longrightarrow> key_ord (fst x) < key_ord k) \<Longrightarrow>
    (\<And>x. x \<in> set (up_rest rn up) \<Longrightarrow> key_ord k \<le> key_ord (fst x)) \<Longrightarrow>
    \<exists>c. search_descend rn k n up = Inr c \<and> cursor_ok rn root c
      \<and> (\<forall>x \<in> set (items_before rn c). key_ord (fst x) < key_ord k)
      \<and> (\<forall>x \<in> set (items_from rn c). key_ord k \<le> key_ord (fst x))"
proof (induction "node_level n" arbitrary: n up rule: less_induct)
  case less
  have wf: "wf_below rn (node_level n) n" by (rule at_node_wf [OF assms less.prems(1)])
  note s = wf_below_sorted [OF wf]
  show ?case
  proof (cases "is_leaf n")
    case True
    define b where "b = partition_point (\<lambda>x. key_ord x < key_ord k) (node_keys n)"
    have r: "search_descend rn k n up = Inr ((n, b) # up)"
      using True lower_bound_eq [OF s, of k] by (subst search_descend.simps) (simp add: b_def)
    have b: "b \<le> nr_items n" using partition_point_le [of _ "node_keys n"] by (simp add: b_def)
    have nth: "j < b \<longleftrightarrow> key_ord (fst (leaf_list n ! j)) < key_ord k" if "j < nr_items n" for j
      using partition_point_nth [OF s [unfolded node_sorted_def], of j "key_ord k"] that by (simp add: b_def leaf_list_nth)
    have "key_ord (fst x) < key_ord k" if x: "x \<in> set (take b (leaf_list n))" for x
    proof -
      obtain j where "j < b" "x = leaf_list n ! j" using x by (auto simp: in_set_conv_nth)
      then show ?thesis using nth [of j] b by simp
    qed
    moreover have "key_ord k \<le> key_ord (fst x)" if "x \<in> set (drop b (leaf_list n))" for x
      using that nth [of "b + _"] b by (auto simp: in_set_conv_nth not_less)
    ultimately show ?thesis using r True b less.prems by (auto simp: items_before_def items_from_def cursor_ok_def)
  next
    case False
    have pos: "0 < nr_items n" using wf False by (cases "node_level n") (auto simp: is_leaf_def)
    obtain i where i: "i < nr_items n" "child_for n k = Inr i" "i = 0 \<or> key_ord (node_keys n ! i) \<le> key_ord k"
      "\<And>j. i < j \<Longrightarrow> j < nr_items n \<Longrightarrow> key_ord k < key_ord (node_keys n ! j)"
      using child_for_spec [OF s pos, of k] by blast
    obtain q where q: "node_key_ptr n i = Inr q" "ptr_blockptr q = child_addr n i" using node_key_ptr_child False i(1) by blast
    have l: "linked rn root ((n, i) # up)" using False i(1) less.prems(1) by simp
    obtain c where c: "rn (child_addr n i) = Inr c" "node_level c + 1 = node_level n" "at_node rn root c ((n, i) # up)"
      by (rule at_node_child [OF assms l])
    have step: "search_descend rn k n up = search_descend rn k c ((n, i) # up)"
      using False pos i(2) q c by (subst search_descend.simps) simp
    have nl: "node_level n - 1 = node_level c" using c(2) by simp
    have lo: "key_ord (fst x) < key_ord k" if x: "x \<in> set (child_items rn n [0..<i])" for x
    proof -
      obtain j where j: "j < i" "x \<in> set (items_below rn (node_level n - 1) (projr (rn (child_addr n j))))"
        using x by (auto simp: child_items_def)
      have "key_ord (fst x) < key_ord (node_keys n ! i)"
        using wf_child_range(2) [OF wf False _ j(2), of i] j(1) i(1) by simp
      then show ?thesis using i(3) j(1) by auto
    qed
    have hi: "key_ord k \<le> key_ord (fst x)" if x: "x \<in> set (child_items rn n [Suc i..<nr_items n])" for x
    proof -
      obtain j where j: "i < j" "j < nr_items n" "x \<in> set (items_below rn (node_level n - 1) (projr (rn (child_addr n j))))"
        using x by (auto simp: child_items_def Suc_le_eq)
      have "key_ord (node_keys n ! j) \<le> key_ord (fst x)"
        by (rule wf_child_range(1) [OF wf False j(2,3)])
      then show ?thesis using i(4) [OF j(1,2)] by simp
    qed
    show ?thesis unfolding step using c(2,3) lo hi less.prems by (intro less.hyps) auto
  qed
qed

text \<open>A search splits the items of the tree at the key.\<close>

lemma cursor_search_ok:
  assumes "wf_tree rn root" "rn addr = Inr root"
  shows "\<exists>c. cursor_search rn addr k = Inr c \<and> cursor_ok rn root c \<and> (cursor_valid c \<longleftrightarrow> items_from rn c \<noteq> [])
    \<and> (\<forall>x \<in> set (items_before rn c). key_ord (fst x) < key_ord k) \<and> (\<forall>x \<in> set (items_from rn c). key_ord k \<le> key_ord (fst x))"
proof -
  obtain c where c: "search_descend rn k root [] = Inr c" "cursor_ok rn root c"
    "\<forall>x \<in> set (items_before rn c). key_ord (fst x) < key_ord k" "\<forall>x \<in> set (items_from rn c). key_ord k \<le> key_ord (fst x)"
    using search_descend_ok [OF assms(1), of root "[]" k] by auto
  show ?thesis
  proof (cases "cursor_valid c")
    case True
    moreover have "items_from rn c \<noteq> []" using cursor_current [OF assms(1) c(2) True] by (metis list.distinct(1))
    ultimately show ?thesis using c assms(2) by (simp add: cursor_search_def)
  next
    case False
    obtain c' where c': "advance_leaf rn c = Inr c'" "cursor_ok rn root c'" "items_from rn c' = items_from rn c"
      "cursor_valid c' \<longleftrightarrow> items_from rn c' \<noteq> []" using advance_leaf_ok [OF assms(1) c(2) False] by blast
    have "items_before rn c' = items_before rn c"
      using cursor_split [OF assms(1) c(2)] cursor_split [OF assms(1) c'(2)] c'(3) by simp
    then show ?thesis using c c' False assms(2) by (simp add: cursor_search_def)
  qed
qed

lemma search_le_ok:
  assumes "wf_tree rn root" "rn addr = Inr root"
  shows "(\<exists>c b x r. search_le rn addr k = Inr c \<and> cursor_ok rn root c \<and> cursor_valid c \<and> tree_items rn root = b @ x # r
      \<and> items_from rn c = x # r \<and> key_ord (fst x) \<le> key_ord k \<and> (\<forall>y \<in> set r. key_ord k < key_ord (fst y)))
    \<or> (\<exists>c. search_le rn addr k = Inr c \<and> \<not> cursor_valid c \<and> (\<forall>x \<in> set (tree_items rn root). key_ord k < key_ord (fst x)))"
proof -
  obtain c where c: "cursor_search rn addr k = Inr c" "cursor_ok rn root c" "cursor_valid c \<longleftrightarrow> items_from rn c \<noteq> []"
    "\<And>x. x \<in> set (items_before rn c) \<Longrightarrow> key_ord (fst x) < key_ord k" "\<And>x. x \<in> set (items_from rn c) \<Longrightarrow> key_ord k \<le> key_ord (fst x)"
    using cursor_search_ok [OF assms, of k] by blast
  note split = cursor_split [OF assms(1) c(2)]
  have sorted: "sorted_wrt item_lt (tree_items rn root)"
    using wf_below_items_sorted assms(1) by (simp add: tree_items_def wf_tree_def)
  show ?thesis
  proof (cases "cursor_valid c \<and> cursor_key c = Inr k")
    case True
    obtain d r where d: "items_from rn c = (k, d) # r"
      by (rule cursor_current [OF assms(1) c(2)]) (use True in auto)
    have "search_le rn addr k = Inr c" using True c(1) by (simp add: search_le_def)
    moreover have "\<forall>y \<in> set r. key_ord k < key_ord (fst y)"
      using sorted split d by (simp add: sorted_wrt_append item_lt_def)
    ultimately show ?thesis using True c(2) split d by (intro disjI1 exI [of _ c] exI [of _ "items_before rn c"]) auto
  next
    case False
    have above: "key_ord k < key_ord (fst y)" if y: "y \<in> set (items_from rn c)" for y
    proof -
      have v: "cursor_valid c" using y c(3) by (cases "items_from rn c") auto
      obtain k' d r where d: "items_from rn c = (k', d) # r" "cursor_key c = Inr k'" by (rule cursor_current [OF assms(1) c(2) v])
      have "key_ord k \<le> key_ord k'" using c(5) [of "(k', d)"] d(1) by simp
      moreover have "k' \<noteq> k" using d(2) False v by simp
      ultimately have "key_ord k < key_ord k'" by (simp add: order.strict_iff_order)
      moreover have "key_ord k' < key_ord (fst z)" if "z \<in> set r" for z
        using that sorted split d(1) by (simp add: sorted_wrt_append item_lt_def)
      ultimately show ?thesis using y d(1) by fastforce
    qed
    have "\<exists>k'. cursor_key c = Inr k'" if "cursor_valid c"
      by (rule cursor_current [OF assms(1) c(2) that]) simp
    then have r: "search_le rn addr k = retreat rn c"
      using False c(1) by (cases "cursor_valid c") (auto simp: search_le_def)
    from retreat_ok [OF assms(1) c(2)] show ?thesis
    proof (elim disjE conjE exE)
      fix c' y assume c': "retreat rn c = Inr c'" "cursor_ok rn root c'" "cursor_valid c'" "items_from rn c' = y # items_from rn c"
      have sp: "tree_items rn root = items_before rn c' @ y # items_from rn c" using cursor_split [OF assms(1) c'(2)] c'(4) by simp
      then have "items_before rn c @ items_from rn c = (items_before rn c' @ [y]) @ items_from rn c" using split by simp
      then have "items_before rn c = items_before rn c' @ [y]" by (simp only: append_same_eq)
      then have "key_ord (fst y) < key_ord k" using c(4) by simp
      then show ?thesis using r c' sp above by (intro disjI1 exI [of _ c'] exI [of _ "items_before rn c'"]) auto
    next
      fix c' assume "items_before rn c = []" "retreat rn c = Inr c'" "\<not> cursor_valid c'"
      then show ?thesis using r split above by auto
    qed
  qed
qed

text \<open>The item found for a key is the one the tree holds under it.\<close>

lemma tree_items_distinct: "wf_tree rn root \<Longrightarrow> distinct (map fst (tree_items rn root))"
proof -
  assume "wf_tree rn root"
  then have "sorted_wrt (\<lambda>a b. key_ord a < key_ord b) (map fst (tree_items rn root))"
    using wf_below_items_sorted by (simp add: tree_items_def wf_tree_def sorted_wrt_map item_lt_def [abs_def])
  then have "sorted_wrt (<) (map key_ord (map fst (tree_items rn root)))" by (simp add: sorted_wrt_map)
  then show ?thesis by (metis distinct_map strict_sorted_iff)
qed

lemma find_tree_item_ok:
  assumes "wf_tree rn root" "rn addr = Inr root"
  shows "find_tree_item rn addr k = Inr (map_of (tree_items rn root) k)"
proof -
  obtain c where c: "cursor_search rn addr k = Inr c" "cursor_ok rn root c" "cursor_valid c \<longleftrightarrow> items_from rn c \<noteq> []"
    "\<And>x. x \<in> set (items_before rn c) \<Longrightarrow> key_ord (fst x) < key_ord k" "\<And>x. x \<in> set (items_from rn c) \<Longrightarrow> key_ord k \<le> key_ord (fst x)"
    using cursor_search_ok [OF assms, of k] by blast
  have "map_of (items_before rn c) k = None" using c(4) by (force simp: map_of_eq_None_iff)
  then have m: "map_of (tree_items rn root) k = map_of (items_from rn c) k"
    using cursor_split [OF assms(1) c(2)] by (simp add: map_add_def)
  show ?thesis
  proof (cases "cursor_valid c")
    case True
    obtain k' d r where d: "items_from rn c = (k', d) # r" "cursor_key c = Inr k'" "cursor_data c = Inr d"
      by (rule cursor_current [OF assms(1) c(2) True])
    have "sorted_wrt item_lt (items_from rn c)"
      using wf_below_items_sorted [OF assms(1) [unfolded wf_tree_def]] cursor_split [OF assms(1) c(2)] by (simp add: tree_items_def sorted_wrt_append)
    moreover have "key_ord k \<le> key_ord k'" using c(5) [of "(k', d)"] d(1) by simp
    ultimately have "map_of r k = None" using d(1) by (fastforce simp: map_of_eq_None_iff item_lt_def)
    then show ?thesis using m c(1) True d by (simp add: find_tree_item_def)
  next
    case False
    then show ?thesis using m c(1,3) by (simp add: find_tree_item_def)
  qed
qed

end
