(* ===== verification/Tree_Scan.thy ===== *)
theory Tree_Scan
  imports Btree_Cursor
begin

text \<open>
  What the readers rely on when they search a tree: the interface of a cursor over sorted items (the locale
  \<open>item_cursor\<close>), the scan of one object's items of one type (\<open>for_each_item\<close> of
  \<open>core/src/fs/btrfs/cursor.rs\<close>) against that interface, and the tree cursor as an instance of it.
\<close>

section \<open>The scan\<close>

text \<open>The loop of \<open>for_each_item\<close> over a cursor \<open>c\<close>: \<open>step\<close> is \<open>advance\<close>, \<open>here\<close> is \<open>valid\<close>, \<open>key_at\<close> and
  \<open>data_at\<close> read the current item, \<open>visit\<close> is the visitor with the state it captures. \<open>None\<close> would be a scan
  that does not end.\<close>

partial_function (option) scan_run ::
  "('c \<Rightarrow> 'c result) \<Rightarrow> ('c \<Rightarrow> bool) \<Rightarrow> ('c \<Rightarrow> key result) \<Rightarrow> ('c \<Rightarrow> bytes result) \<Rightarrow> nat \<Rightarrow> nat
    \<Rightarrow> ('a \<Rightarrow> key \<Rightarrow> bytes \<Rightarrow> ('a \<times> bool) result) \<Rightarrow> 'a \<Rightarrow> 'c \<Rightarrow> 'a result option" where
  "scan_run step here key_at data_at oid ty visit a c =
     (if \<not> here c then Some (Inr a)
      else case key_at c of
          Inl e \<Rightarrow> Some (Inl e)
        | Inr k \<Rightarrow>
            if objectid k \<noteq> oid \<or> item_type k \<noteq> ty then Some (Inr a)
            else case data_at c of
                Inl e \<Rightarrow> Some (Inl e)
              | Inr d \<Rightarrow>
                  (case visit a k d of
                     Inl e \<Rightarrow> Some (Inl e)
                   | Inr (a', go_on) \<Rightarrow>
                       if \<not> go_on then Some (Inr a')
                       else case step c of
                           Inl e \<Rightarrow> Some (Inl e)
                         | Inr c' \<Rightarrow> scan_run step here key_at data_at oid ty visit a' c'))"

definition for_each_item :: "(nat \<Rightarrow> node result) \<Rightarrow> nat \<Rightarrow> nat \<Rightarrow> nat \<Rightarrow> ('a \<Rightarrow> key \<Rightarrow> bytes \<Rightarrow> ('a \<times> bool) result) \<Rightarrow> 'a \<Rightarrow> 'a result option" where
  "for_each_item rn root oid ty visit a =
     (case cursor_search rn root (key_new oid ty 0) of
        Inl e \<Rightarrow> Some (Inl e)
      | Inr c \<Rightarrow> scan_run (advance rn) cursor_valid cursor_key cursor_data oid ty visit a c)"

text \<open>The reference: run the visitor over a list of items until it asks to stop.\<close>

fun visit_all :: "('a \<Rightarrow> key \<Rightarrow> bytes \<Rightarrow> ('a \<times> bool) result) \<Rightarrow> (key \<times> bytes) list \<Rightarrow> 'a \<Rightarrow> 'a result" where
  "visit_all visit [] a = Inr a"
| "visit_all visit ((k, d) # xs) a =
     rbind (visit a k d) (\<lambda>(a', go_on). if go_on then visit_all visit xs a' else Inr a')"

definition of_run :: "nat \<Rightarrow> nat \<Rightarrow> key \<times> bytes \<Rightarrow> bool" where
  "of_run oid ty x \<longleftrightarrow> objectid (fst x) = oid \<and> item_type (fst x) = ty"

lemma of_run_order:
  assumes "key_ord (key_new oid ty 0) \<le> key_ord (fst x)" "\<not> of_run oid ty x" "key_ord (fst x) < key_ord (fst y)"
  shows "\<not> of_run oid ty y"
  using assms by (auto simp: of_run_def key_ord_def key_new_def less_prod_def less_eq_prod_def split: if_splits)

text \<open>In sorted items a run is contiguous.\<close>

lemma takeWhile_run:
  "sorted_wrt item_lt xs \<Longrightarrow> \<forall>x \<in> set xs. key_ord (key_new oid ty 0) \<le> key_ord (fst x) \<Longrightarrow>
    takeWhile (of_run oid ty) xs = filter (of_run oid ty) xs"
proof (induction xs)
  case (Cons x xs)
  show ?case
  proof (cases "of_run oid ty x")
    case False
    then have "\<not> of_run oid ty y" if "y \<in> set xs" for y
      using of_run_order [of oid ty x y] Cons.prems that by (simp add: item_lt_def)
    then show ?thesis using False by (simp add: filter_empty_conv)
  qed (use Cons in simp)
qed simp

lemma run_below: "key_ord (fst x) < key_ord (key_new oid ty 0) \<Longrightarrow> \<not> of_run oid ty x"
  by (auto simp: of_run_def key_ord_def key_new_def less_prod_def)

lemma filter_dropWhile_none: "(\<And>x. x \<in> set xs \<Longrightarrow> q x \<Longrightarrow> \<not> p x) \<Longrightarrow> filter p (dropWhile q xs) = filter p xs"
  by (induction xs) auto

lemma sorted_dropWhile_all:
  "sorted_wrt item_lt xs \<Longrightarrow> x \<in> set (dropWhile (\<lambda>x. key_ord (fst x) < k) xs) \<Longrightarrow> k \<le> key_ord (fst x)"
proof (induction xs)
  case (Cons y ys)
  then show ?case by (cases "key_ord (fst y) < k") (auto simp: item_lt_def not_less intro: order.trans less_imp_le)
qed simp

lemma last_at_or_below:
  assumes "sorted_wrt item_lt xs" "\<exists>x \<in> set xs. key_ord (fst x) \<le> k"
  shows "\<exists>b y r. xs = b @ y # r \<and> key_ord (fst y) \<le> k \<and> (\<forall>z \<in> set r. k < key_ord (fst z))"
  using assms
proof (induction xs)
  case (Cons z zs)
  show ?case
  proof (cases "\<exists>x \<in> set zs. key_ord (fst x) \<le> k")
    case True
    then obtain b y r where "zs = b @ y # r" "key_ord (fst y) \<le> k" "\<forall>z \<in> set r. k < key_ord (fst z)"
      using Cons.IH Cons.prems(1) by auto
    then show ?thesis by (intro exI [of _ "z # b"]) auto
  next
    case False
    then have "key_ord (fst z) \<le> k" using Cons.prems by auto
    then show ?thesis using False by (intro exI [of _ "[]"]) (auto simp: not_le)
  qed
qed simp

section \<open>The interface\<close>

text \<open>A store \<open>s\<close> of sorted items and a cursor over it. \<open>ahead s c\<close> is the items from the cursor on.\<close>

locale item_cursor =
  fixes consistent :: "'s \<Rightarrow> bool"
    and stored :: "'s \<Rightarrow> (key \<times> bytes) list"
    and seek :: "'s \<Rightarrow> key \<Rightarrow> 'c result"
    and seek_le :: "'s \<Rightarrow> key \<Rightarrow> 'c result"
    and step :: "'s \<Rightarrow> 'c \<Rightarrow> 'c result"
    and here :: "'c \<Rightarrow> bool"
    and key_at :: "'c \<Rightarrow> key result"
    and data_at :: "'c \<Rightarrow> bytes result"
    and placed :: "'s \<Rightarrow> 'c \<Rightarrow> bool"
    and ahead :: "'s \<Rightarrow> 'c \<Rightarrow> (key \<times> bytes) list"
  assumes stored_sorted: "consistent s \<Longrightarrow> sorted_wrt item_lt (stored s)"
    and seek_law: "consistent s \<Longrightarrow> \<exists>c. seek s k = Inr c \<and> placed s c \<and> ahead s c = dropWhile (\<lambda>x. key_ord (fst x) < key_ord k) (stored s)"
    and seek_le_law: "consistent s \<Longrightarrow> stored s = b @ x # r \<Longrightarrow> key_ord (fst x) \<le> key_ord k \<Longrightarrow> \<forall>y \<in> set r. key_ord k < key_ord (fst y)
      \<Longrightarrow> \<exists>c. seek_le s k = Inr c \<and> placed s c \<and> ahead s c = x # r"
    and seek_le_none: "consistent s \<Longrightarrow> \<forall>x \<in> set (stored s). key_ord k < key_ord (fst x) \<Longrightarrow> \<exists>c. seek_le s k = Inr c \<and> \<not> here c"
    and step_law: "consistent s \<Longrightarrow> placed s c \<Longrightarrow> here c \<Longrightarrow> \<exists>c'. step s c = Inr c' \<and> placed s c' \<and> ahead s c' = tl (ahead s c)"
    and here_law: "consistent s \<Longrightarrow> placed s c \<Longrightarrow> here c \<longleftrightarrow> ahead s c \<noteq> []"
    and current_law: "consistent s \<Longrightarrow> placed s c \<Longrightarrow> ahead s c = (k, d) # r \<Longrightarrow> key_at c = Inr k \<and> data_at c = Inr d"
begin

lemma scan_run_visits:
  assumes "consistent s"
  shows "placed s c \<Longrightarrow> scan_run (step s) here key_at data_at oid ty visit a c
    = Some (visit_all visit (takeWhile (of_run oid ty) (ahead s c)) a)"
proof (induction "ahead s c" arbitrary: c a)
  case Nil
  then have "\<not> here c" using here_law [OF assms] by metis
  then show ?case using Nil(1) by (subst scan_run.simps) (simp flip: Nil(1))
next
  case (Cons x xs)
  obtain k d where x: "x = (k, d)" by (cases x)
  have h: "here c" using here_law [OF assms Cons.prems] Cons.hyps(2) by (metis list.distinct(1))
  have kd: "key_at c = Inr k" "data_at c = Inr d" using current_law [OF assms Cons.prems, of k d xs] Cons.hyps(2) x by auto
  obtain c' where c': "step s c = Inr c'" "placed s c'" "ahead s c' = xs"
    using step_law [OF assms Cons.prems h] Cons.hyps(2) by (metis list.sel(3))
  have IH: "scan_run (step s) here key_at data_at oid ty visit a' c' = Some (visit_all visit (takeWhile (of_run oid ty) xs) a')" for a'
    using Cons.hyps(1) c'(2,3) by metis
  have ah: "ahead s c = (k, d) # xs" using Cons.hyps(2) x by simp
  show ?case
    using h kd c'(1) IH unfolding ah
    by (subst scan_run.simps) (auto simp: of_run_def split: sum.split)
qed

lemma scan_from_seek:
  assumes "consistent s"
  shows "\<exists>c. seek s (key_new oid ty 0) = Inr c \<and> scan_run (step s) here key_at data_at oid ty visit a c
    = Some (visit_all visit (filter (of_run oid ty) (stored s)) a)"
proof -
  let ?k = "key_new oid ty 0"
  let ?ys = "dropWhile (\<lambda>x. key_ord (fst x) < key_ord ?k) (stored s)"
  note so = stored_sorted [OF assms]
  obtain c where c: "seek s ?k = Inr c" "placed s c" "ahead s c = ?ys" using seek_law [OF assms] by blast
  have "sorted_wrt item_lt ?ys" using so by (metis dropWhile_eq_drop sorted_wrt_drop)
  then have "takeWhile (of_run oid ty) ?ys = filter (of_run oid ty) ?ys"
    using sorted_dropWhile_all [OF so] by (intro takeWhile_run) auto
  also have "\<dots> = filter (of_run oid ty) (stored s)" by (rule filter_dropWhile_none) (simp add: run_below)
  finally show ?thesis using c scan_run_visits [OF assms c(2), of oid ty visit a] by simp
qed

end

section \<open>The tree cursor\<close>

definition tree_consistent :: "(nat \<Rightarrow> node result) \<times> nat \<Rightarrow> bool" where
  "tree_consistent = (\<lambda>(rn, addr). \<not> isl (rn addr) \<and> wf_tree rn (projr (rn addr)))"

definition tree_stored :: "(nat \<Rightarrow> node result) \<times> nat \<Rightarrow> (key \<times> bytes) list" where
  "tree_stored = (\<lambda>(rn, addr). tree_items rn (projr (rn addr)))"

definition tree_placed :: "(nat \<Rightarrow> node result) \<times> nat \<Rightarrow> path \<Rightarrow> bool" where
  "tree_placed = (\<lambda>(rn, addr) c. cursor_ok rn (projr (rn addr)) c \<and> (cursor_valid c \<longleftrightarrow> items_from rn c \<noteq> []))"

lemma dropWhile_split:
  "(\<And>x. x \<in> set b \<Longrightarrow> p x) \<Longrightarrow> (\<And>x. x \<in> set r \<Longrightarrow> \<not> p x) \<Longrightarrow> dropWhile p (b @ r) = r"
  by (cases r) (simp_all add: dropWhile_append2)

lemma sorted_split_unique:
  assumes "sorted_wrt item_lt xs" "xs = b @ x # r" "xs = b' @ x' # r'" "key_ord (fst x) \<le> k" "key_ord (fst x') \<le> k"
    "\<forall>y \<in> set r. k < key_ord (fst y)" "\<forall>y \<in> set r'. k < key_ord (fst y)"
  shows "x # r = x' # r'"
proof -
  have b: "length b = length (filter (\<lambda>z. key_ord (fst z) \<le> k) xs) - 1" if "xs = b @ x # r" "key_ord (fst x) \<le> k" "\<forall>y \<in> set r. k < key_ord (fst y)"
    for b x r
  proof -
    have "filter (\<lambda>z. key_ord (fst z) \<le> k) r = []" using that(3) by (auto simp: filter_empty_conv not_le)
    moreover have "filter (\<lambda>z. key_ord (fst z) \<le> k) b = b"
      using assms(1) that by (intro filter_True) (force simp: sorted_wrt_append item_lt_def)
    ultimately show ?thesis using that by simp
  qed
  have "length b = length b'" using b [OF assms(2,4,6)] b [OF assms(3,5,7)] by simp
  then show ?thesis using assms(2,3) by (metis append_eq_append_conv)
qed

interpretation tree: item_cursor tree_consistent tree_stored
  "\<lambda>(rn, addr). cursor_search rn addr" "\<lambda>(rn, addr). search_le rn addr" "\<lambda>(rn, addr). advance rn"
  cursor_valid cursor_key cursor_data tree_placed "\<lambda>(rn, addr). items_from rn"
proof (unfold_locales, goal_cases)
  case (1 s)
  then show ?case
    using wf_below_items_sorted by (cases s) (auto simp: tree_consistent_def tree_stored_def tree_items_def wf_tree_def)
next
  case (2 s k)
  obtain rn addr where s: "s = (rn, addr)" by (cases s)
  obtain root where r: "rn addr = Inr root" "wf_tree rn root"
    using 2 s by (cases "rn addr") (auto simp: tree_consistent_def)
  obtain c where c: "cursor_search rn addr k = Inr c" "cursor_ok rn root c" "cursor_valid c \<longleftrightarrow> items_from rn c \<noteq> []"
    "\<forall>x \<in> set (items_before rn c). key_ord (fst x) < key_ord k" "\<forall>x \<in> set (items_from rn c). key_ord k \<le> key_ord (fst x)"
    using cursor_search_ok [OF r(2,1)] by blast
  have "dropWhile (\<lambda>x. key_ord (fst x) < key_ord k) (items_before rn c @ items_from rn c) = items_from rn c"
    using c(4,5) by (intro dropWhile_split) (auto simp: not_less)
  then show ?case using c s r cursor_split [OF r(2) c(2)] by (simp add: tree_placed_def tree_stored_def)
next
  case (3 s b x r k)
  obtain rn addr where s: "s = (rn, addr)" by (cases s)
  obtain root where rt: "rn addr = Inr root" "wf_tree rn root"
    using 3 s by (cases "rn addr") (auto simp: tree_consistent_def)
  have st: "tree_items rn root = b @ x # r" using 3 s rt by (simp add: tree_stored_def)
  have so: "sorted_wrt item_lt (tree_items rn root)" using wf_below_items_sorted rt(2) by (simp add: tree_items_def wf_tree_def)
  from search_le_ok [OF rt(2,1), of k] show ?case
  proof (elim disjE exE conjE)
    fix c b' x' r' assume c: "search_le rn addr k = Inr c" "cursor_ok rn root c" "cursor_valid c" "tree_items rn root = b' @ x' # r'"
      "items_from rn c = x' # r'" "key_ord (fst x') \<le> key_ord k" "\<forall>y \<in> set r'. key_ord k < key_ord (fst y)"
    have "x # r = x' # r'" by (rule sorted_split_unique [OF so st c(4) 3(3) c(6) 3(4) c(7)])
    then show ?case using c s rt by (simp add: tree_placed_def)
  next
    assume "\<forall>x \<in> set (tree_items rn root). key_ord k < key_ord (fst x)"
    then show ?case using st 3(3) by auto
  qed
next
  case (4 s k)
  obtain rn addr where s: "s = (rn, addr)" by (cases s)
  obtain root where rt: "rn addr = Inr root" "wf_tree rn root"
    using 4 s by (cases "rn addr") (auto simp: tree_consistent_def)
  from search_le_ok [OF rt(2,1), of k] show ?case
    using 4(2) s rt by (fastforce simp: tree_stored_def)
next
  case (5 s c)
  obtain rn addr where s: "s = (rn, addr)" by (cases s)
  obtain root where rt: "rn addr = Inr root" "wf_tree rn root"
    using 5 s by (cases "rn addr") (auto simp: tree_consistent_def)
  show ?case using advance_ok [OF rt(2), of c] 5(2,3) s rt by (auto simp: tree_placed_def)
next
  case (6 s c)
  then show ?case by (cases s) (simp add: tree_placed_def)
next
  case (7 s c k d r)
  obtain rn addr where s: "s = (rn, addr)" by (cases s)
  obtain root where rt: "rn addr = Inr root" "wf_tree rn root"
    using 7 s by (cases "rn addr") (auto simp: tree_consistent_def)
  have c: "cursor_ok rn root c" "cursor_valid c" using 7 s rt by (auto simp: tree_placed_def)
  show ?case by (rule cursor_current [OF rt(2) c]) (use 7(3) s in auto)
qed

end
