(* ===== verification/Compress.thy ===== *)
theory Compress
  imports Errors
begin

text \<open>
  Decompressing an extent (\<open>core/src/fs/btrfs/compress.rs\<close>). The zlib, zstd and LZO decoders are external
  crates and stand as the record \<open>decoders\<close>; the framing of LZO extents and the handling of sizes are the
  source's own. The lemmas: decompression returns exactly the stated size, and an LZO extent cut into segments
  by the rule of the format comes back as the segments' contents.
\<close>

section \<open>Definitions\<close>

text \<open>The decoders: \<open>zlib_take\<close> and \<open>zstd_take\<close> read at most the given number of decoded bytes of a stream
  (\<open>None\<close> on a bad stream), \<open>zstd_open\<close> accepts a frame header, \<open>lzo_into\<close> decodes one segment into a buffer of
  the given size.\<close>

record decoders =
  zlib_take :: "bytes \<Rightarrow> nat \<Rightarrow> bytes option"
  zstd_open :: "bytes \<Rightarrow> bool"
  zstd_take :: "bytes \<Rightarrow> nat \<Rightarrow> bytes option"
  lzo_into :: "bytes \<Rightarrow> nat \<Rightarrow> bytes option"

definition COMPRESS_NONE :: nat where "COMPRESS_NONE = 0"
definition COMPRESS_ZLIB :: nat where "COMPRESS_ZLIB = 1"
definition COMPRESS_LZO :: nat where "COMPRESS_LZO = 2"
definition COMPRESS_ZSTD :: nat where "COMPRESS_ZSTD = 3"
definition MAX_UNCOMPRESSED :: nat where "MAX_UNCOMPRESSED = 2 ^ 20"
definition LZO_LEN :: nat where "LZO_LEN = 4"

definition inflate :: "decoders \<Rightarrow> bytes \<Rightarrow> nat \<Rightarrow> bytes result" where
  "inflate D input expected =
     ok_or (zlib_take D input (expected + 1)) (CorruptFs ''btrfs zlib extent failed to decompress'')"

definition zstd :: "decoders \<Rightarrow> bytes \<Rightarrow> nat \<Rightarrow> bytes result" where
  "zstd D input expected =
     (if \<not> zstd_open D input then Inl (CorruptFs ''btrfs zstd extent has a bad frame header'')
      else ok_or (zstd_take D input (expected + 1)) (CorruptFs ''btrfs zstd extent failed to decompress''))"

text \<open>The segment loop of \<open>lzo_extent\<close>. A segment that decodes to more than the sector-sized buffer it is
  given is refused by the decoder; slicing the buffer past its end panics.\<close>

function lzo_loop :: "decoders \<Rightarrow> nat \<Rightarrow> bytes \<Rightarrow> nat \<Rightarrow> nat \<Rightarrow> nat \<Rightarrow> bytes \<Rightarrow> bytes result" where
  "lzo_loop D sector input tot expected at out =
     (if at < tot \<and> length out < expected then
        let room = sector - at mod sector in
        if room = 0 then Inl Panic
        else if room < LZO_LEN then lzo_loop D sector input tot expected (at + room) out
        else if at + LZO_LEN > tot then Inr out
        else
          let seg_len = u32le input at in
          if seg_len = 0 \<or> at + LZO_LEN + seg_len > length input
          then Inl (CorruptFs ''btrfs lzo segment overruns the extent'')
          else case lzo_into D (slice input (at + LZO_LEN) seg_len) sector of
              None \<Rightarrow> Inl (CorruptFs ''btrfs lzo segment failed to decompress'')
            | Some chunk \<Rightarrow>
                if length chunk > sector then Inl Panic
                else lzo_loop D sector input tot expected (at + LZO_LEN + seg_len) (out @ chunk)
      else Inr out)"
  by pat_completeness auto
termination
  by (relation "measure (\<lambda>(D, sector, input, tot, expected, at, out). tot - at)") (auto simp: LZO_LEN_def)

declare lzo_loop.simps [simp del]

definition lzo_extent :: "decoders \<Rightarrow> bytes \<Rightarrow> nat \<Rightarrow> nat \<Rightarrow> bytes result" where
  "lzo_extent D input expected sector_size =
     (let sector = sector_size in
      if sector = 0 then Inl (CorruptFs ''btrfs sector size is zero'')
      else if length input < LZO_LEN then Inl (CorruptFs ''btrfs lzo extent is truncated'')
      else
        let tot = u32le input 0 in
        if tot > length input then Inl (CorruptFs ''btrfs lzo extent claims more data than it has'')
        else rbind (lzo_loop D sector input tot expected LZO_LEN []) (\<lambda>out. Inr (take expected out)))"

text \<open>\<open>Vec::resize\<close> with zero.\<close>

definition resize0 :: "bytes \<Rightarrow> nat \<Rightarrow> bytes" where
  "resize0 out n = take n out @ replicate (n - length out) 0"

definition decompress :: "decoders \<Rightarrow> nat \<Rightarrow> bytes \<Rightarrow> nat \<Rightarrow> nat \<Rightarrow> bytes result" where
  "decompress D algorithm input expected sector_size =
     (if expected > MAX_UNCOMPRESSED
      then Inl (CorruptFs ''btrfs compressed extent claims an implausible uncompressed size'')
      else
        rbind
          (if algorithm = COMPRESS_ZLIB then inflate D input expected
           else if algorithm = COMPRESS_LZO then lzo_extent D input expected sector_size
           else if algorithm = COMPRESS_ZSTD then zstd D input expected
           else Inl (UnsupportedFsFeature ''btrfs compression algorithm''))
          (\<lambda>out. Inr (resize0 out expected)))"

section \<open>The stated size\<close>

lemma length_resize0 [simp]: "length (resize0 out n) = n"
  by (simp add: resize0_def)

lemma decompress_length: "decompress D alg input expected sec = Inr out \<Longrightarrow> length out = expected \<and> expected \<le> 2 ^ 20"
  by (auto simp: decompress_def rbind_Inr MAX_UNCOMPRESSED_def split: if_splits)

section \<open>The LZO framing\<close>

text \<open>A writer's view of the format: a segment starts where it stands when its four length bytes fit into the
  current sector, and at the next sector otherwise. \<open>lzo_frame\<close> lays out compressed segments after the
  bytes \<open>acc\<close> already written.\<close>

definition lzo_pad :: "nat \<Rightarrow> nat \<Rightarrow> nat" where
  "lzo_pad sector at = (let room = sector - at mod sector in if room < LZO_LEN then room else 0)"

fun lzo_frame :: "nat \<Rightarrow> bytes \<Rightarrow> bytes list \<Rightarrow> bytes" where
  "lzo_frame sector acc [] = acc"
| "lzo_frame sector acc (seg # segs) =
     lzo_frame sector (acc @ replicate (lzo_pad sector (length acc)) 0 @ le_bytes 4 (length seg) @ seg) segs"

lemma lzo_frame_prefix: "\<exists>t. lzo_frame sector acc segs = acc @ t"
  by (induction segs arbitrary: acc) (simp, metis append.assoc lzo_frame.simps(2))

lemma lzo_frame_length: "length acc \<le> length (lzo_frame sector acc segs)"
  using lzo_frame_prefix [of sector acc segs] by auto

lemma pad_room:
  assumes "4 \<le> sector"
  shows "LZO_LEN \<le> sector - (at + lzo_pad sector at) mod sector"
proof (cases "sector - at mod sector < LZO_LEN")
  case True
  then have "lzo_pad sector at = sector - at mod sector" by (simp add: lzo_pad_def)
  then have "at + lzo_pad sector at = at div sector * sector + sector"
    using assms div_mult_mod_eq [of at sector] mod_less_divisor [of sector at] by linarith
  then show ?thesis using assms by (simp add: LZO_LEN_def)
next
  case False
  then show ?thesis by (simp add: lzo_pad_def)
qed

lemma lzo_loop_skip:
  assumes "4 \<le> sector" "at + lzo_pad sector at < tot" "length out < expected"
  shows "lzo_loop D sector input tot expected at out = lzo_loop D sector input tot expected (at + lzo_pad sector at) out"
proof (cases "lzo_pad sector at = 0")
  case False
  define r where "r = sector - at mod sector"
  have r: "lzo_pad sector at = r" "r < LZO_LEN" "r \<noteq> 0"
    using False by (simp_all add: lzo_pad_def Let_def r_def split: if_splits)
  have "at < tot" using assms(2) by simp
  then show ?thesis using r assms(3) by (subst lzo_loop.simps) (simp add: Let_def flip: r_def)
qed simp

lemma lzo_loop_frame:
  assumes "4 \<le> sector" "\<And>seg. seg \<in> set segs \<Longrightarrow> seg \<noteq> [] \<and> length seg < 2 ^ 32 \<and> lzo_into D seg sector = Some (plain seg) \<and> length (plain seg) \<le> sector"
    "input = lzo_frame sector acc segs @ rest" "tot = length (lzo_frame sector acc segs)"
    "length out + length (concat (map plain segs)) \<le> expected" "\<And>seg. seg \<in> set segs \<Longrightarrow> plain seg \<noteq> []"
  shows "lzo_loop D sector input tot expected (length acc) out = Inr (out @ concat (map plain segs))"
  using assms
proof (induction segs arbitrary: acc out)
  case Nil
  then show ?case by (subst lzo_loop.simps) simp
next
  case (Cons seg segs)
  define p where "p = lzo_pad sector (length acc)"
  define acc' where "acc' = acc @ replicate p 0 @ le_bytes 4 (length seg) @ seg"
  have la: "length acc' = length acc + p + 4 + length seg" by (simp add: acc'_def)
  have fr: "lzo_frame sector acc (seg # segs) = lzo_frame sector acc' segs" by (simp add: acc'_def p_def)
  obtain t where t: "lzo_frame sector acc' segs = acc' @ t" using lzo_frame_prefix by blast
  have inp: "input = acc' @ t @ rest" and tt: "tot = length acc' + length t" using Cons.prems(3,4) fr t by simp_all
  have seg: "seg \<noteq> []" "length seg < 2 ^ 32" "lzo_into D seg sector = Some (plain seg)" "length (plain seg) \<le> sector" "plain seg \<noteq> []"
    using Cons.prems(2) [of seg] Cons.prems(6) [of seg] by simp_all
  have out: "length out < expected" using Cons.prems(5) seg(5) by (cases "plain seg") auto
  have at: "length acc + p + 4 \<le> tot" "length acc + p < tot" using la tt by simp_all
  have "lzo_loop D sector input tot expected (length acc) out = lzo_loop D sector input tot expected (length acc + p) out"
    unfolding p_def by (rule lzo_loop_skip [OF assms(1) _ out]) (use at p_def in simp)
  also have "\<dots> = lzo_loop D sector input tot expected (length acc') (out @ plain seg)"
  proof -
    have u: "u32le input (length acc + p) = length seg" and sl: "slice input (length acc + p + 4) (length seg) = seg"
      using seg(2) by (simp_all add: inp acc'_def u32le_def slice_def)
    have "length acc + p + 4 + length seg \<le> length input" using la inp by simp
    moreover have "\<not> sector - (length acc + p) mod sector < LZO_LEN" "sector - (length acc + p) mod sector \<noteq> 0"
      using pad_room [OF assms(1), of "length acc"] by (simp_all add: p_def LZO_LEN_def)
    ultimately show ?thesis
      using at out seg u sl la by (subst lzo_loop.simps) (simp add: Let_def LZO_LEN_def add.assoc)
  qed
  also have "\<dots> = Inr ((out @ plain seg) @ concat (map plain segs))"
    by (rule Cons.IH [OF assms(1)]) (use Cons.prems fr in auto)
  finally show ?case by simp
qed

text \<open>A whole LZO extent: the total length first, then the segments.\<close>

definition lzo_encode :: "nat \<Rightarrow> bytes list \<Rightarrow> bytes" where
  "lzo_encode sector segs = lzo_frame sector (le_bytes 4 (length (lzo_frame sector (replicate 4 0) segs))) segs"

lemma length_lzo_frame_cong: "length a = length b \<Longrightarrow> length (lzo_frame sector a segs) = length (lzo_frame sector b segs)"
proof (induction segs arbitrary: a b)
  case (Cons seg segs)
  show ?case unfolding lzo_frame.simps by (rule Cons.IH) (simp add: Cons.prems)
qed simp

lemma lzo_extent_encode:
  assumes "4 \<le> sector" "\<forall>seg \<in> set segs. seg \<noteq> [] \<and> length seg < 2 ^ 32 \<and> plain seg \<noteq> [] \<and> length (plain seg) \<le> sector
      \<and> lzo_into D seg sector = Some (plain seg)"
    "length (lzo_encode sector segs) < 2 ^ 32" "length (concat (map plain segs)) \<le> expected"
  shows "lzo_extent D (lzo_encode sector segs @ rest) expected sector = Inr (concat (map plain segs))"
proof -
  define n where "n = length (lzo_frame sector (replicate 4 0) segs)"
  let ?f = "lzo_frame sector (le_bytes 4 n) segs"
  have len: "length ?f = n" unfolding n_def by (rule length_lzo_frame_cong) simp
  have enc: "lzo_encode sector segs = ?f" by (simp add: lzo_encode_def n_def)
  obtain t where t: "?f = le_bytes 4 n @ t" using lzo_frame_prefix by blast
  have n: "n < 2 ^ 32" using assms(3) enc len by simp
  have "u32le (?f @ rest) 0 = n" using n by (simp add: t u32le_def slice_def)
  moreover have "4 \<le> n" using t len by (metis length_append length_le_bytes le_add1)
  moreover have "lzo_loop D sector (?f @ rest) n expected (length (le_bytes 4 n)) [] = Inr ([] @ concat (map plain segs))"
    using assms len by (intro lzo_loop_frame) auto
  ultimately show ?thesis using assms(1,4) len unfolding enc by (simp add: lzo_extent_def LZO_LEN_def)
qed

section \<open>Properties\<close>

text \<open>C38: LZO extents. Segments laid out by the rule of the format, where a segment header never straddles a
  sector, decompress to the concatenation of what the segments decode to, padded with zeros to the stated
  size, whatever follows them in the extent's last sector.\<close>

theorem lzo_framing_roundtrip:
  assumes "4 \<le> sector" "\<forall>seg \<in> set segs. seg \<noteq> [] \<and> length seg < 2 ^ 32 \<and> plain seg \<noteq> [] \<and> length (plain seg) \<le> sector
      \<and> lzo_into D seg sector = Some (plain seg)"
    "length (lzo_encode sector segs) < 2 ^ 32" "length (concat (map plain segs)) \<le> expected" "expected \<le> 2 ^ 20"
  shows "decompress D COMPRESS_LZO (lzo_encode sector segs @ rest) expected sector
    = Inr (concat (map plain segs) @ replicate (expected - length (concat (map plain segs))) 0)"
proof -
  have "\<not> MAX_UNCOMPRESSED < expected" "COMPRESS_LZO \<noteq> COMPRESS_ZLIB"
    using assms(5) by (simp_all add: MAX_UNCOMPRESSED_def COMPRESS_LZO_def COMPRESS_ZLIB_def)
  then show ?thesis
    using lzo_extent_encode [OF assms(1-4), of rest] assms(4) by (simp only: decompress_def if_False if_True rbind_simps resize0_def) simp
qed

definition double_lzo :: decoders where
  "double_lzo = \<lparr>zlib_take = \<lambda>b n. None, zstd_open = \<lambda>b. False, zstd_take = \<lambda>b n. None,
     lzo_into = \<lambda>b n. if length b * 2 \<le> n then Some (b @ b) else None\<rparr>"

theorem lzo_framing_roundtrip_witness:
  "decompress double_lzo COMPRESS_LZO (lzo_encode 8 [[1, 2], [3], [4, 5, 6]] @ [9]) 13 8
    = Inr ([1, 2, 1, 2, 3, 3, 4, 5, 6, 4, 5, 6] @ [0])"
  using lzo_framing_roundtrip [of 8 "[[1, 2], [3], [4, 5, 6]]" "\<lambda>b. b @ b" double_lzo 13 "[9]"]
  by (simp add: double_lzo_def lzo_encode_def lzo_pad_def LZO_LEN_def)

end
