(* ===== verification/Btrfs_Data.thy ===== *)
theory Btrfs_Data
  imports Tree_Scan Btrfs_Items Compress
begin

text \<open>
  Reading file data: the mounted filesystem (\<open>Btrfs\<close> of \<open>core/src/fs/btrfs/mod.rs\<close>, without its caches),
  verification of data against the checksum tree (\<open>csum.rs\<close>) and reads by inode through the extent items
  (\<open>extent.rs\<close>). The loops take the cursor's operations as arguments and are proved once against the cursor
  interface \<open>item_cursor\<close>. A loop that would not end is \<open>None\<close>; the lemmas show it never is.
\<close>

section \<open>The filesystem\<close>

record tree_root =
  tr_objectid :: nat
  tr_bytenr :: nat
  tr_level :: nat
  tr_root_dirid :: nat
  tr_generation :: nat
  tr_flags :: nat

record btrfs =
  fs_device :: "nat \<Rightarrow> nat \<Rightarrow> bytes result"
  fs_chunks :: chunk_map
  fs_sb_root :: nat
  fs_node_size :: nat
  fs_sector_size :: nat
  fs_csum_type :: csum_type
  fs_metadata_uuid :: bytes
  fs_fs_tree :: tree_root
  fs_csum_tree :: "tree_root option"

definition fs_read_logical :: "btrfs \<Rightarrow> nat \<Rightarrow> nat \<Rightarrow> bytes result" where
  "fs_read_logical fs lg len = read_logical (fs_chunks fs) (fs_device fs) lg len []"

definition fs_read_node :: "hashes \<Rightarrow> btrfs \<Rightarrow> nat \<Rightarrow> node result" where
  "fs_read_node H fs = read_node H (fs_chunks fs) (fs_device fs) (fs_node_size fs) (fs_csum_type fs) (fs_metadata_uuid fs)"

section \<open>Data checksums\<close>

datatype verified = VerifiedAll | VerifiedPartial nat | NoChecksumTree

definition EXTENT_CSUM_KEY :: nat where "EXTENT_CSUM_KEY = 128"
definition EXTENT_CSUM_OBJECTID :: nat where "EXTENT_CSUM_OBJECTID = u64_max - 9"

text \<open>The inner loop of \<open>verify_data\<close>: step to the item that could cover \<open>target\<close>.\<close>

partial_function (option) csum_seek ::
  "('c \<Rightarrow> 'c result) \<Rightarrow> ('c \<Rightarrow> bool) \<Rightarrow> ('c \<Rightarrow> key result) \<Rightarrow> ('c \<Rightarrow> bytes result) \<Rightarrow> nat \<Rightarrow> nat \<Rightarrow> nat \<Rightarrow> 'c \<Rightarrow> 'c result option" where
  "csum_seek step here key_at data_at width sector target c =
     (if \<not> here c then Some (Inr c)
      else case key_at c of
          Inl e \<Rightarrow> Some (Inl e)
        | Inr k \<Rightarrow>
            if objectid k \<noteq> EXTENT_CSUM_OBJECTID \<or> item_type k \<noteq> EXTENT_CSUM_KEY then
              (if key_ord k < key_ord (key_new EXTENT_CSUM_OBJECTID EXTENT_CSUM_KEY 0) then
                 (case step c of
                    Inl e \<Rightarrow> Some (Inl e)
                  | Inr c' \<Rightarrow> csum_seek step here key_at data_at width sector target c')
               else Some (Inr c))
            else (case data_at c of
                Inl e \<Rightarrow> Some (Inl e)
              | Inr d \<Rightarrow>
                  if add64 (offset k) (length d div width * sector) \<le> target then
                    (case step c of
                       Inl e \<Rightarrow> Some (Inl e)
                     | Inr c' \<Rightarrow> csum_seek step here key_at data_at width sector target c')
                  else Some (Inr c)))"

definition csum_at :: "('c \<Rightarrow> bool) \<Rightarrow> ('c \<Rightarrow> key result) \<Rightarrow> ('c \<Rightarrow> bytes result) \<Rightarrow> 'c \<Rightarrow> nat \<Rightarrow> nat \<Rightarrow> nat \<Rightarrow> bytes option result" where
  "csum_at here key_at data_at c target width sector =
     (if \<not> here c then Inr None
      else rbind (key_at c) (\<lambda>k.
        if objectid k \<noteq> EXTENT_CSUM_OBJECTID \<or> item_type k \<noteq> EXTENT_CSUM_KEY \<or> offset k > target then Inr None
        else rbind (data_at c) (\<lambda>d.
          let at = (target - offset k) div sector * width in
          if at + width > length d then Inr None else Inr (Some (slice d at width)))))"

text \<open>The loop over the sectors; \<open>verify\<close> compares a stored checksum with a sector.\<close>

fun verify_loop ::
  "('c \<Rightarrow> 'c result) \<Rightarrow> ('c \<Rightarrow> bool) \<Rightarrow> ('c \<Rightarrow> key result) \<Rightarrow> ('c \<Rightarrow> bytes result) \<Rightarrow> (bytes \<Rightarrow> bytes \<Rightarrow> bool) \<Rightarrow> nat \<Rightarrow> nat \<Rightarrow> nat
    \<Rightarrow> bytes list \<Rightarrow> nat \<Rightarrow> nat \<Rightarrow> 'c \<Rightarrow> nat result option" where
  "verify_loop step here key_at data_at verify width sector lg [] i unchecked c = Some (Inr unchecked)"
| "verify_loop step here key_at data_at verify width sector lg (chunk # rest) i unchecked c =
     (let target = add64 lg (i * sector) in
      case csum_seek step here key_at data_at width sector target c of
        None \<Rightarrow> None
      | Some (Inl e) \<Rightarrow> Some (Inl e)
      | Some (Inr c') \<Rightarrow>
          (case csum_at here key_at data_at c' target width sector of
             Inl e \<Rightarrow> Some (Inl e)
           | Inr None \<Rightarrow> verify_loop step here key_at data_at verify width sector lg rest (i + 1) (unchecked + 1) c'
           | Inr (Some stored) \<Rightarrow>
               if \<not> verify stored chunk then Some (Inl (FsChecksumMismatch ''btrfs file data''))
               else verify_loop step here key_at data_at verify width sector lg rest (i + 1) unchecked c'))"

text \<open>\<open>chunks_exact\<close>.\<close>

definition sectors :: "nat \<Rightarrow> bytes \<Rightarrow> bytes list" where
  "sectors sector data = map (\<lambda>i. slice data (i * sector) sector) [0..<length data div sector]"

definition verify_data :: "hashes \<Rightarrow> btrfs \<Rightarrow> nat \<Rightarrow> bytes \<Rightarrow> verified result option" where
  "verify_data H fs lg data =
     (case fs_csum_tree fs of
        None \<Rightarrow> Some (Inr NoChecksumTree)
      | Some csum_root \<Rightarrow>
          let sector = fs_sector_size fs;
              width = csum_size (fs_csum_type fs);
              rn = fs_read_node H fs
          in if sector = 0 \<or> lg mod sector \<noteq> 0 \<or> length data mod sector \<noteq> 0
             then Some (Inl (CorruptFs ''btrfs data checksum asked for a range that is not whole sectors''))
             else case search_le rn (tr_bytenr csum_root) (key_new EXTENT_CSUM_OBJECTID EXTENT_CSUM_KEY lg) of
                 Inl e \<Rightarrow> Some (Inl e)
               | Inr c \<Rightarrow>
                   (case verify_loop (advance rn) cursor_valid cursor_key cursor_data (csum_verify H (fs_csum_type fs))
                       width sector lg (sectors sector data) 0 0 c of
                      None \<Rightarrow> None
                    | Some (Inl e) \<Rightarrow> Some (Inl e)
                    | Some (Inr n) \<Rightarrow> Some (Inr (if n = 0 then VerifiedAll else VerifiedPartial n))))"

definition read_data :: "hashes \<Rightarrow> btrfs \<Rightarrow> nat \<Rightarrow> nat \<Rightarrow> (bytes \<times> verified) result option" where
  "read_data H fs lg len =
     (let sector = fs_sector_size fs in
      if sector = 0 then Some (Inl Panic)
      else
        let aligned_start = lg - lg mod sector;
            fin = add64 lg len;
            aligned_end = mul64 (div_ceil fin sector) sector
        in if aligned_start = lg \<and> aligned_end = fin then
             (case fs_read_logical fs lg len of
                Inl e \<Rightarrow> Some (Inl e)
              | Inr b \<Rightarrow> map_option (\<lambda>r. rbind r (\<lambda>v. Inr (b, v))) (verify_data H fs lg b))
           else
             (case fs_read_logical fs aligned_start (sub64 aligned_end aligned_start) of
                Inl e \<Rightarrow> Some (Inl e)
              | Inr whole \<Rightarrow>
                  (case verify_data H fs aligned_start whole of
                     None \<Rightarrow> None
                   | Some (Inl e) \<Rightarrow> Some (Inl e)
                   | Some (Inr outcome) \<Rightarrow>
                       let from = lg - aligned_start in
                       if from + len > length whole then Some (Inl Panic)
                       else Some (Inr (slice whole from len, outcome)))))"

section \<open>File extents\<close>

definition decompress_extent :: "decoders \<Rightarrow> (nat \<Rightarrow> nat \<Rightarrow> bytes result option) \<Rightarrow> nat \<Rightarrow> file_extent \<Rightarrow> bytes result option" where
  "decompress_extent D rdata sector e =
     (case fe_inline e of
        Some payload \<Rightarrow> Some (decompress D (fe_compression e) payload (fe_ram_bytes e) sector)
      | None \<Rightarrow> map_option (\<lambda>r. rbind r (\<lambda>b. decompress D (fe_compression e) b (fe_ram_bytes e) sector))
          (rdata (fe_disk_bytenr e) (fe_disk_num_bytes e)))"

text \<open>The bytes \<open>within\<close> .. \<open>within + n\<close> of an extent item, the four cases of \<open>read_inode_data\<close>.\<close>

definition copy_out :: "bytes \<Rightarrow> nat \<Rightarrow> nat \<Rightarrow> luks_error \<Rightarrow> bytes result" where
  "copy_out plain start n err =
     (case checked_add64 start n of
        None \<Rightarrow> Inl err
      | Some fin \<Rightarrow> if fin \<le> length plain then Inr (slice plain start n) else Inl err)"

definition serve_extent :: "decoders \<Rightarrow> (nat \<Rightarrow> nat \<Rightarrow> bytes result option) \<Rightarrow> nat \<Rightarrow> file_extent \<Rightarrow> nat \<Rightarrow> nat \<Rightarrow> bytes result option" where
  "serve_extent D rdata sector e within n =
     (if is_zeros e then Some (Inr (replicate n 0))
      else if is_compressed e then
        map_option (\<lambda>r. rbind r (\<lambda>plain. copy_out plain (add64 (fe_offset e) within) n
            (CorruptFs ''btrfs compressed extent is shorter than the range it covers'')))
          (decompress_extent D rdata sector e)
      else case fe_inline e of
          Some inline \<Rightarrow> Some (copy_out inline (add64 (fe_offset e) within) n (CorruptFs ''btrfs inline extent is too short''))
        | None \<Rightarrow>
            let start = add64 (fe_offset e) within in
            if add64 start n > fe_disk_num_bytes e
            then Some (Inl (CorruptFs ''btrfs extent range falls outside the allocated extent''))
            else rdata (add64 (fe_disk_bytenr e) start) n)"

text \<open>One round of the loop of \<open>read_inode_data\<close>: \<open>acc\<close> is the part of the buffer that has been filled. The
  round extends it and says how the loop goes on: it ends, it looks at the same item again, or it advances.\<close>

datatype read_move = Finish | Stay | Advance

definition extent_round ::
  "(file_extent \<Rightarrow> nat \<Rightarrow> nat \<Rightarrow> bytes result option) \<Rightarrow> nat \<Rightarrow> nat \<Rightarrow> bytes \<Rightarrow> file_extent \<Rightarrow> (bytes \<times> read_move) result option" where
  "extent_round serve pos want acc e =
     (if fe_file_offset e > pos then Some (Inr (acc @ replicate (min (fe_file_offset e - pos) (want - length acc)) 0, Stay))
      else if extent_end e \<le> pos then Some (Inr (acc, Advance))
      else
        let within = pos - fe_file_offset e;
            n = min (fe_num_bytes e - within) (want - length acc)
        in case serve e within n of
             None \<Rightarrow> None
           | Some (Inl err) \<Rightarrow> Some (Inl err)
           | Some (Inr out) \<Rightarrow> Some (Inr (acc @ out, if extent_end e \<le> add64 pos n then Advance else Stay)))"

definition inode_read_round ::
  "('c \<Rightarrow> bool) \<Rightarrow> ('c \<Rightarrow> key result) \<Rightarrow> ('c \<Rightarrow> bytes result) \<Rightarrow> (file_extent \<Rightarrow> nat \<Rightarrow> nat \<Rightarrow> bytes result option)
    \<Rightarrow> nat \<Rightarrow> nat \<Rightarrow> nat \<Rightarrow> bytes \<Rightarrow> 'c \<Rightarrow> (bytes \<times> read_move) result option" where
  "inode_read_round here key_at data_at serve ino off want acc c =
     (let pos = add64 off (length acc);
          hole = Some (Inr (acc @ replicate (want - length acc) 0, Finish))
      in if \<not> here c then hole
         else case key_at c of
             Inl e \<Rightarrow> Some (Inl e)
           | Inr k \<Rightarrow>
               if objectid k = ino \<and> item_type k = EXTENT_DATA_KEY then
                 (case rbind (data_at c) (file_extent_parse (offset k)) of
                    Inl e \<Rightarrow> Some (Inl e)
                  | Inr e \<Rightarrow> extent_round serve pos want acc e)
               else if key_ord k < key_ord (key_new ino EXTENT_DATA_KEY 0) then Some (Inr (acc, Advance))
               else hole)"

partial_function (option) inode_read_loop ::
  "('c \<Rightarrow> 'c result) \<Rightarrow> (bytes \<Rightarrow> 'c \<Rightarrow> (bytes \<times> read_move) result option) \<Rightarrow> nat \<Rightarrow> bytes \<Rightarrow> 'c \<Rightarrow> bytes result option" where
  "inode_read_loop step round want acc c =
     (if want \<le> length acc then Some (Inr acc)
      else case round acc c of
          None \<Rightarrow> None
        | Some (Inl e) \<Rightarrow> Some (Inl e)
        | Some (Inr (acc', Finish)) \<Rightarrow> Some (Inr acc')
        | Some (Inr (acc', Stay)) \<Rightarrow> inode_read_loop step round want acc' c
        | Some (Inr (acc', Advance)) \<Rightarrow>
            (case step c of
               Inl e \<Rightarrow> Some (Inl e)
             | Inr c' \<Rightarrow> inode_read_loop step round want acc' c'))"

text \<open>\<open>read_data\<close> as \<open>read_inode_data\<close> calls it: the outcome of the verification is dropped.\<close>

definition data_bytes :: "hashes \<Rightarrow> btrfs \<Rightarrow> nat \<Rightarrow> nat \<Rightarrow> bytes result option" where
  "data_bytes H fs a n = map_option (\<lambda>r. rbind r (\<lambda>(b, v). Inr b)) (read_data H fs a n)"

definition read_inode_data :: "hashes \<Rightarrow> decoders \<Rightarrow> btrfs \<Rightarrow> nat \<Rightarrow> inode \<Rightarrow> nat \<Rightarrow> nat \<Rightarrow> bytes result option" where
  "read_inode_data H D fs tree ino off len =
     (if off \<ge> ino_size ino then Some (Inr [])
      else
        let want = min len (ino_size ino - off) in
        if want = 0 then Some (Inr [])
        else
          let rn = fs_read_node H fs
          in case search_le rn tree (key_new (ino_objectid ino) EXTENT_DATA_KEY off) of
               Inl e \<Rightarrow> Some (Inl e)
             | Inr c \<Rightarrow> inode_read_loop (advance rn)
                 (inode_read_round cursor_valid cursor_key cursor_data (serve_extent D (data_bytes H fs) (fs_sector_size fs)) (ino_objectid ino) off want)
                 want [] c)"

definition file_extents :: "hashes \<Rightarrow> btrfs \<Rightarrow> nat \<Rightarrow> nat \<Rightarrow> file_extent list result option" where
  "file_extents H fs tree oid =
     map_option (\<lambda>r. rbind r (\<lambda>(out, failure). case failure of Some e \<Rightarrow> Inl e | None \<Rightarrow> Inr out))
       (for_each_item (fs_read_node H fs) tree oid EXTENT_DATA_KEY
          (\<lambda>(out, failure) k d. case file_extent_parse (offset k) d of
             Inr e \<Rightarrow> Inr ((out @ [e], failure), True)
           | Inl e \<Rightarrow> Inr ((out, Some e), False)) ([], None))"

end
