(* ===== verification/Leaf_Tree.thy ===== *)
theory Leaf_Tree
  imports Node_Codec Btrfs_Data
begin

text \<open>
  Trees of one leaf: a leaf the writer emits is, for the reader, a consistent tree that stores exactly the
  leaf's items. \<open>leaf_fs\<close> is a volume made of such leaves, one chunk that maps every logical address to the
  same physical one; the reading operations are evaluated on it.
\<close>

section \<open>A leaf as a tree\<close>

definition leaf_pairs :: "leaf \<Rightarrow> (key \<times> bytes) list" where
  "leaf_pairs l = map (\<lambda>it. (li_key it, li_data it)) (lf_items l)"

lemma collect_Inr: "collect f ixs = Inr xs \<Longrightarrow> length xs = length ixs \<and> (\<forall>j < length ixs. f (ixs ! j) = Inr (xs ! j))"
proof (induction ixs arbitrary: xs)
  case (Cons i ixs)
  then obtain x ys where "f i = Inr x" "collect f ixs = Inr ys" "xs = x # ys" by (auto simp: rbind_Inr)
  then show ?case using Cons.IH by (auto simp: nth_Cons split: nat.split)
qed simp

lemma leaf_node_items:
  assumes "leaf_from_node nd ct = Inr l"
  shows "node_level nd = 0" "nr_items nd = length (lf_items l)"
    "i < nr_items nd \<Longrightarrow> node_item_data nd i = Inr (li_data (lf_items l ! i))"
    "i < nr_items nd \<Longrightarrow> node_keys nd ! i = li_key (lf_items l ! i)"
proof -
  let ?f = "\<lambda>i. rbind (node_key nd i) (\<lambda>k. rbind (node_item_data nd i) (\<lambda>d. Inr \<lparr>li_key = k, li_data = d\<rparr>))"
  have c: "collect ?f [0..<nr_items nd] = Inr (lf_items l)" and lv: "node_level nd = 0"
    using assms by (auto simp: leaf_from_node_def rbind_Inr is_leaf_def split: if_splits)
  note e = collect_Inr [OF c]
  show "node_level nd = 0" "nr_items nd = length (lf_items l)" using lv e by simp_all
  assume i: "i < nr_items nd"
  then have "?f i = Inr (lf_items l ! i)" using e by auto
  then obtain d where "node_item_data nd i = Inr d" "lf_items l ! i = \<lparr>li_key = node_keys nd ! i, li_data = d\<rparr>"
    using i by (auto simp: rbind_Inr node_key_nth)
  then show "node_item_data nd i = Inr (li_data (lf_items l ! i))" "node_keys nd ! i = li_key (lf_items l ! i)" by simp_all
qed

lemma leaf_node_tree:
  assumes "leaf_from_node nd ct = Inr l" "sorted_wrt item_lt (leaf_pairs l)"
  shows "wf_tree rn nd" "tree_items rn nd = leaf_pairs l"
proof -
  note n = leaf_node_items [OF assms(1)]
  have pairs: "leaf_list nd = leaf_pairs l"
    by (rule nth_equalityI) (use n in \<open>auto simp: leaf_list_nth leaf_pairs_def\<close>)
  then show "tree_items rn nd = leaf_pairs l" using n(1) by (simp add: tree_items_def)
  have "node_sorted nd"
    using assms(2) by (simp add: node_sorted_def flip: map_fst_leaf_list pairs) (simp add: sorted_wrt_map item_lt_def [abs_def])
  then show "wf_tree rn nd" using n by (simp add: wf_tree_def)
qed

section \<open>A volume of leaves\<close>

lemma read_logical_run:
  assumes "cm_map cm lg = Inr (ph, run)" "0 < len" "len \<le> run" "rd ph len = Inr b" "length b = len" "lg < 2 ^ 64"
  shows "read_logical cm rd lg len [] = Inr b"
proof -
  have "read_logical cm rd lg len [] = read_logical cm rd lg len b"
    using assms by (subst read_logical.simps) (simp add: add64_def min_absorb1)
  then show ?thesis using assms(5) by (subst (asm) (2) read_logical.simps) simp
qed

definition flat_chunk :: chunk where
  "flat_chunk = \<lparr>logical = 0, chunk_length = 2 ^ 40, owner = 2, stripe_len = 65536, chunk_type = 1, io_align = 4096, io_width = 4096,
     sector_size = 4096, sub_stripes = 0, stripes = [\<lparr>devid = 1, stripe_offset = 0, dev_uuid = replicate 16 0\<rparr>]\<rparr>"

lemma flat_map: "lg < 2 ^ 40 \<Longrightarrow> cm_map \<lparr>chunks = [flat_chunk]\<rparr> lg = Inr (lg, 2 ^ 40 - lg)"
  by (simp add: cm_map_def cm_find_def binary_search_by_key_def partition_point_def flat_chunk_def checked_add64_def Let_def)

definition leaf_root :: "nat \<Rightarrow> nat \<Rightarrow> tree_root" where
  "leaf_root oid addr = \<lparr>tr_objectid = oid, tr_bytenr = addr, tr_level = 0, tr_root_dirid = 256, tr_generation = 1, tr_flags = 0\<rparr>"

definition leaf_fs :: "hashes \<Rightarrow> leaf list \<Rightarrow> (nat \<Rightarrow> byte) \<Rightarrow> nat \<Rightarrow> btrfs" where
  "leaf_fs H ls img csum_addr = \<lparr>fs_device = (\<lambda>a n. case List.find (\<lambda>l. lf_bytenr l = a) ls of
       Some l \<Rightarrow> leaf_emit H l n | None \<Rightarrow> Inr (map img [a..<a + n])),
     fs_chunks = \<lparr>chunks = [flat_chunk]\<rparr>, fs_sb_root = 0, fs_node_size = 512, fs_sector_size = 4, fs_csum_type = Crc32c,
     fs_metadata_uuid = replicate 16 3, fs_fs_tree = leaf_root 5 4096,
     fs_csum_tree = (if csum_addr = 0 then None else Some (leaf_root 7 csum_addr))\<rparr>"

definition on_leaf_fs :: "leaf \<Rightarrow> bool" where
  "on_leaf_fs l \<longleftrightarrow> leaf_wf l 512 \<and> lf_csum_type l = Crc32c \<and> lf_metadata_uuid l = replicate 16 3 \<and> lf_bytenr l \<le> 2 ^ 32
     \<and> sorted_wrt item_lt (leaf_pairs l)"

lemma leaf_fs_tree:
  assumes "hashes_ok H" "List.find (\<lambda>l. lf_bytenr l = a) ls = Some l" "on_leaf_fs l"
  shows "tree_consistent (fs_read_node H (leaf_fs H ls img ca), a)" "tree_stored (fs_read_node H (leaf_fs H ls img ca), a) = leaf_pairs l"
proof -
  have l: "lf_bytenr l = a" using assms(2) by (auto simp: find_Some_iff)
  have w: "leaf_wf l 512" "lf_csum_type l = Crc32c" "lf_metadata_uuid l = replicate 16 3" "a \<le> 2 ^ 32" "sorted_wrt item_lt (leaf_pairs l)"
    using assms(3) l by (simp_all add: on_leaf_fs_def)
  obtain b nd where b: "leaf_emit H l 512 = Inr b" "length b = 512" "node_parse H b a Crc32c (replicate 16 3) = Inr nd"
    "leaf_from_node nd Crc32c = Inr l"
    using leaf_emit_parses [OF assms(1) w(1)] w(2,3) l by auto
  have "read_logical (fs_chunks (leaf_fs H ls img ca)) (fs_device (leaf_fs H ls img ca)) a 512 [] = Inr b"
    using flat_map [of a] w(4) b(1,2) assms(2) by (intro read_logical_run) (auto simp: leaf_fs_def)
  then have "fs_read_node H (leaf_fs H ls img ca) a = Inr nd"
    using b(3) by (simp add: fs_read_node_def read_node_def leaf_fs_def)
  then show "tree_consistent (fs_read_node H (leaf_fs H ls img ca), a)" "tree_stored (fs_read_node H (leaf_fs H ls img ca), a) = leaf_pairs l"
    using leaf_node_tree [OF b(4) w(5)] by (simp_all add: tree_consistent_def tree_stored_def)
qed

section \<open>Properties\<close>

text \<open>C10: looking up an item. On a consistent tree of any height \<open>find_item\<close> succeeds and returns exactly
  what the tree stores under the key: the item's data if there is one, nothing otherwise, also when the key
  falls on the boundary between two leaves.\<close>

theorem find_item_is_lookup:
  assumes "tree_consistent (rn, addr)"
  shows "find_tree_item rn addr k = Inr (map_of (tree_stored (rn, addr)) k)"
proof -
  obtain root where "rn addr = Inr root" "wf_tree rn root"
    using assms by (cases "rn addr") (auto simp: tree_consistent_def)
  then show ?thesis using find_tree_item_ok by (simp add: tree_stored_def)
qed

lemma two_item_on_leaf_fs: "on_leaf_fs two_item_leaf"
  by (simp add: on_leaf_fs_def two_item_leaf_def one_item_leaf_def leaf_wf_def leaf_new_def leaf_pairs_def key_wf_def key_new_def
      item_lt_def key_ord_def node_consts total_data_bytes_def HEADER_FLAG_WRITTEN_def)

lemma two_item_tree:
  "tree_consistent (fs_read_node toy_hashes (leaf_fs toy_hashes [two_item_leaf] img ca), 4096)"
  "tree_stored (fs_read_node toy_hashes (leaf_fs toy_hashes [two_item_leaf] img ca), 4096) = [(key_new 256 1 0, [1, 2]), (key_new 256 12 5, [7])]"
proof -
  have f: "List.find (\<lambda>l. lf_bytenr l = 4096) [two_item_leaf] = Some two_item_leaf"
    by (simp add: two_item_leaf_def one_item_leaf_def leaf_new_def)
  show "tree_consistent (fs_read_node toy_hashes (leaf_fs toy_hashes [two_item_leaf] img ca), 4096)"
    by (rule leaf_fs_tree [OF toy_hashes_ok f two_item_on_leaf_fs])
  show "tree_stored (fs_read_node toy_hashes (leaf_fs toy_hashes [two_item_leaf] img ca), 4096) = [(key_new 256 1 0, [1, 2]), (key_new 256 12 5, [7])]"
    unfolding leaf_fs_tree(2) [OF toy_hashes_ok f two_item_on_leaf_fs]
    by (simp add: leaf_pairs_def two_item_leaf_def one_item_leaf_def)
qed

theorem find_item_is_lookup_witness:
  "find_tree_item (fs_read_node toy_hashes (leaf_fs toy_hashes [two_item_leaf] (\<lambda>_. 0) 0)) 4096 (key_new 256 12 5) = Inr (Some [7])"
  unfolding find_item_is_lookup [OF two_item_tree(1)] two_item_tree(2) by (simp add: key_new_def)

text \<open>C11: scanning one object. On a consistent tree \<open>for_each_item\<close> ends and hands the visitor exactly the
  items of the object and type, in key order, until the visitor stops it or fails.\<close>

theorem for_each_item_visits_run:
  assumes "tree_consistent (rn, addr)"
  shows "for_each_item rn addr oid ty visit a = Some (visit_all visit (filter (of_run oid ty) (tree_stored (rn, addr))) a)"
  using tree.scan_from_seek [OF assms, of oid ty visit a] by (auto simp: for_each_item_def)

theorem for_each_item_visits_run_witness:
  "for_each_item (fs_read_node toy_hashes (leaf_fs toy_hashes [two_item_leaf] (\<lambda>_. 0) 0)) 4096 256 12
     (\<lambda>out k d. Inr (out @ [(offset k, d)], True)) [] = Some (Inr [(5, [7])])"
  unfolding for_each_item_visits_run [OF two_item_tree(1)] two_item_tree(2) by (simp add: key_new_def of_run_def)

end
