(* ===== verification/File_Read.thy ===== *)
theory File_Read
  imports Leaf_Tree
begin

text \<open>
  What a read by inode returns: the bytes of the extents that cover the range, zeros where no extent does.
  The loop of \<open>read_inode_data\<close> is proved against the cursor interface, then instantiated with the tree cursor.
\<close>

section \<open>The contents of a file\<close>

definition exts :: "nat \<Rightarrow> (key \<times> bytes) list \<Rightarrow> file_extent list" where
  "exts ino xs = map (\<lambda>x. projr (file_extent_parse (offset (fst x)) (snd x))) (filter (of_run ino EXTENT_DATA_KEY) xs)"

definition covers :: "nat \<Rightarrow> file_extent \<Rightarrow> bool" where
  "covers p e \<longleftrightarrow> fe_file_offset e \<le> p \<and> p < fe_file_offset e + fe_num_bytes e"

definition byte_at :: "(file_extent \<Rightarrow> bytes) \<Rightarrow> file_extent list \<Rightarrow> nat \<Rightarrow> byte" where
  "byte_at content es p = (case List.find (covers p) es of None \<Rightarrow> 0 | Some e \<Rightarrow> content e ! (p - fe_file_offset e))"

text \<open>An item is readable when it is not an extent of the file, or parses to an extent within the address
  range whose bytes \<open>serve\<close> returns.\<close>

definition readable :: "(file_extent \<Rightarrow> bytes) \<Rightarrow> (file_extent \<Rightarrow> nat \<Rightarrow> nat \<Rightarrow> bytes result option) \<Rightarrow> nat \<Rightarrow> key \<times> bytes \<Rightarrow> bool" where
  "readable content serve ino x \<longleftrightarrow> (of_run ino EXTENT_DATA_KEY x \<longrightarrow>
     (\<exists>e. file_extent_parse (offset (fst x)) (snd x) = Inr e \<and> fe_file_offset e + fe_num_bytes e \<le> u64_max
       \<and> length (content e) = fe_num_bytes e
       \<and> (\<forall>w n. w + n \<le> fe_num_bytes e \<longrightarrow> serve e w n = Some (Inr (slice (content e) w n)))))"

lemma parse_file_offset: "file_extent_parse fo d = Inr e \<Longrightarrow> fe_file_offset e = fo"
  by (auto simp: file_extent_parse_def Let_def split: if_splits)

lemma exts_simps:
  "exts ino [] = []"
  "\<not> of_run ino EXTENT_DATA_KEY x \<Longrightarrow> exts ino (x # xs) = exts ino xs"
  "of_run ino EXTENT_DATA_KEY x \<Longrightarrow> exts ino (x # xs) = projr (file_extent_parse (offset (fst x)) (snd x)) # exts ino xs"
  by (simp_all add: exts_def)

lemma byte_at_simps:
  "byte_at content [] p = 0"
  "\<not> covers p e \<Longrightarrow> byte_at content (e # es) p = byte_at content es p"
  "covers p e \<Longrightarrow> byte_at content (e # es) p = content e ! (p - fe_file_offset e)"
  by (simp_all add: byte_at_def)

lemma byte_at_none: "(\<And>e. e \<in> set es \<Longrightarrow> \<not> covers p e) \<Longrightarrow> byte_at content es p = 0"
  by (induction es) (auto simp: byte_at_simps)

lemma byte_at_append_skip: "(\<And>e. e \<in> set es \<Longrightarrow> \<not> covers p e) \<Longrightarrow> byte_at content (es @ fs) p = byte_at content fs p"
  by (induction es) (auto simp: byte_at_simps)

lemma exts_later:
  assumes "sorted_wrt item_lt (x # xs)" "of_run ino EXTENT_DATA_KEY x" "\<forall>y \<in> set xs. readable content serve ino y" "e \<in> set (exts ino xs)"
  shows "offset (fst x) < fe_file_offset e"
proof -
  obtain y where y: "y \<in> set xs" "of_run ino EXTENT_DATA_KEY y" "e = projr (file_extent_parse (offset (fst y)) (snd y))"
    using assms(4) by (auto simp: exts_def)
  obtain e' where e': "file_extent_parse (offset (fst y)) (snd y) = Inr e'" using assms(3) y by (auto simp: readable_def)
  have "key_ord (fst x) < key_ord (fst y)" using assms(1) y(1) by (simp add: item_lt_def)
  then have "offset (fst x) < offset (fst y)" using assms(2) y(2) by (auto simp: of_run_def key_ord_def less_prod_def)
  then show ?thesis using y(3) e' parse_file_offset [OF e'] by simp
qed

lemma map_upt_split:
  assumes "a \<le> b" "b \<le> c"
  shows "map f [a..<c] = map f [a..<b] @ map f [b..<c]"
  using upt_add_eq_append [OF assms(1), of "c - b"] assms(2) by simp

lemma map_upt_const: "(\<And>p. a \<le> p \<Longrightarrow> p < b \<Longrightarrow> f p = z) \<Longrightarrow> map f [a..<b] = replicate (b - a) z"
  by (rule nth_equalityI) auto

lemma map_upt_shift_slice:
  assumes "a \<le> p" "p - a + n \<le> length xs"
  shows "map (\<lambda>q. xs ! (q - a)) [p..<p + n] = slice xs (p - a) n"
  by (rule nth_equalityI) (use assms in \<open>auto simp: nth_slice\<close>)

text \<open>What a read from position \<open>pos\<close> up to \<open>fin\<close> has to produce.\<close>

definition tail_bytes :: "(file_extent \<Rightarrow> bytes) \<Rightarrow> nat \<Rightarrow> (key \<times> bytes) list \<Rightarrow> nat \<Rightarrow> nat \<Rightarrow> bytes" where
  "tail_bytes content ino xs pos fin = map (byte_at content (exts ino xs)) [pos..<fin]"

lemma tail_bytes_cong:
  assumes "\<And>p. pos \<le> p \<Longrightarrow> p < fin \<Longrightarrow> byte_at content (exts ino xs) p = byte_at content (exts ino ys) p"
  shows "tail_bytes content ino xs pos fin = tail_bytes content ino ys pos fin"
  unfolding tail_bytes_def by (rule map_cong) (use assms in auto)

lemma tail_bytes_step:
  assumes "pos \<le> mid" "mid \<le> fin"
    "\<And>p. pos \<le> p \<Longrightarrow> p < mid \<Longrightarrow> byte_at content (exts ino xs) p = f p"
  shows "tail_bytes content ino xs pos fin = map f [pos..<mid] @ tail_bytes content ino xs mid fin"
  unfolding tail_bytes_def map_upt_split [OF assms(1,2)] using assms(3) by auto

lemma tail_bytes_none:
  "(\<And>p. pos \<le> p \<Longrightarrow> p < fin \<Longrightarrow> byte_at content (exts ino xs) p = 0) \<Longrightarrow> tail_bytes content ino xs pos fin = replicate (fin - pos) 0"
  unfolding tail_bytes_def by (rule map_upt_const)

section \<open>One round\<close>

text \<open>A round at an extent item \<open>x\<close>: it appends the right bytes, and either fills at least one byte or moves
  past an item that covers nothing that is still wanted.\<close>

lemma extent_round_ok:
  assumes x: "of_run ino EXTENT_DATA_KEY x" "readable content serve ino x" "\<forall>y \<in> set xs. readable content serve ino y"
    and sorted: "sorted_wrt item_lt (x # xs)"
    and e: "file_extent_parse (offset (fst x)) (snd x) = Inr e"
    and want: "length acc < want" "off + want \<le> u64_max"
  shows "\<exists>out mv. extent_round serve (off + length acc) want acc e = Some (Inr (acc @ out, mv)) \<and> length (acc @ out) \<le> want
    \<and> (mv = Stay \<and> out \<noteq> [] \<and>
         tail_bytes content ino (x # xs) (off + length acc) (off + want) = out @ tail_bytes content ino (x # xs) (off + length (acc @ out)) (off + want)
      \<or> mv = Advance \<and>
         tail_bytes content ino (x # xs) (off + length acc) (off + want) = out @ tail_bytes content ino xs (off + length (acc @ out)) (off + want))"
proof -
  let ?pos = "off + length acc" and ?fo = "fe_file_offset e" and ?nb = "fe_num_bytes e"
  have fo: "?fo = offset (fst x)" by (rule parse_file_offset [OF e])
  have ex: "exts ino (x # xs) = e # exts ino xs" using exts_simps(3) [OF x(1)] e by simp
  have sv: "?fo + ?nb \<le> u64_max" "length (content e) = ?nb" "\<And>w n. w + n \<le> ?nb \<Longrightarrow> serve e w n = Some (Inr (slice (content e) w n))"
    using x(1,2) e by (auto simp: readable_def)
  have en: "extent_end e = ?fo + ?nb" using sv(1) by (simp add: extent_end_def)
  have later: "fe_file_offset e' > ?fo" if "e' \<in> set (exts ino xs)" for e'
    using exts_later [OF sorted x(1,3) that] fo by simp
  have past: "byte_at content (exts ino (x # xs)) p = byte_at content (exts ino xs) p" if "?fo + ?nb \<le> p" for p
    unfolding ex using that by (intro byte_at_simps) (simp add: covers_def)
  consider (gap) "?pos < ?fo" | (past) "?fo + ?nb \<le> ?pos" | (cover) "?fo \<le> ?pos" "?pos < ?fo + ?nb" by linarith
  then show ?thesis
  proof cases
    case gap
    define g where "g = min (?fo - ?pos) (want - length acc)"
    have g: "0 < g" "?pos + g \<le> ?fo" "length acc + g \<le> want" using gap want(1) by (simp_all add: g_def)
    have "byte_at content (exts ino (x # xs)) p = 0" if "p < ?pos + g" for p
    proof (rule byte_at_none)
      fix e' assume "e' \<in> set (exts ino (x # xs))"
      then have "?fo \<le> fe_file_offset e'" using later unfolding ex by fastforce
      then show "\<not> covers p e'" using that g(2) by (simp add: covers_def)
    qed
    then have "tail_bytes content ino (x # xs) ?pos (off + want)
        = map (\<lambda>_. 0) [?pos..<?pos + g] @ tail_bytes content ino (x # xs) (?pos + g) (off + want)"
      using g(3) by (intro tail_bytes_step) auto
    moreover have "extent_round serve ?pos want acc e = Some (Inr (acc @ replicate g 0, Stay))"
      using gap by (simp add: extent_round_def g_def)
    ultimately show ?thesis using g by (simp add: map_replicate_const add.assoc)
  next
    case past
    have "tail_bytes content ino (x # xs) ?pos (off + want) = tail_bytes content ino xs ?pos (off + want)"
      using past \<open>\<And>p. ?fo + ?nb \<le> p \<Longrightarrow> _\<close> by (intro tail_bytes_cong) auto
    moreover have "extent_round serve ?pos want acc e = Some (Inr (acc, Advance))"
      using past en by (simp add: extent_round_def)
    ultimately show ?thesis using want(1) by simp
  next
    case cover
    define w where "w = ?pos - ?fo"
    define n where "n = min (?nb - w) (want - length acc)"
    have wn: "w + n \<le> ?nb" "0 < n" "length acc + n \<le> want" "?pos = ?fo + w" using cover want(1) by (simp_all add: w_def n_def)
    have out: "serve e w n = Some (Inr (slice (content e) w n))" by (rule sv(3) [OF wn(1)])
    have "byte_at content (exts ino (x # xs)) p = content e ! (p - ?fo)" if "?pos \<le> p" "p < ?pos + n" for p
      unfolding ex using that wn by (intro byte_at_simps) (simp add: covers_def)
    then have "tail_bytes content ino (x # xs) ?pos (off + want)
        = map (\<lambda>p. content e ! (p - ?fo)) [?pos..<?pos + n] @ tail_bytes content ino (x # xs) (?pos + n) (off + want)"
      using wn(3) by (intro tail_bytes_step) auto
    also have "map (\<lambda>p. content e ! (p - ?fo)) [?pos..<?pos + n] = slice (content e) w n"
      using map_upt_shift_slice [of ?fo ?pos n "content e"] cover(1) wn(1) sv(2) w_def by simp
    finally have tb: "tail_bytes content ino (x # xs) ?pos (off + want) = slice (content e) w n @ tail_bytes content ino (x # xs) (?pos + n) (off + want)" .
    have len: "length (slice (content e) w n) = n" using wn(1) sv(2) by simp
    have a64: "add64 ?pos n = ?pos + n" using want(2) wn(3) by (simp add: add64_def u64_max_def)
    have rnd: "extent_round serve ?pos want acc e = Some (Inr (acc @ slice (content e) w n, if ?fo + ?nb \<le> ?pos + n then Advance else Stay))"
      unfolding extent_round_def Let_def w_def [symmetric] n_def [symmetric] a64 out en using cover by simp
    have adv: "tail_bytes content ino (x # xs) (?pos + n) (off + want) = tail_bytes content ino xs (?pos + n) (off + want)"
      if "?fo + ?nb \<le> ?pos + n" by (rule tail_bytes_cong) (use past that in auto)
    have ne: "slice (content e) w n \<noteq> []" using len wn(2) by (metis list.size(3) less_irrefl)
    show ?thesis unfolding rnd using tb len wn(3) ne adv
      by (intro exI [of _ "slice (content e) w n"] exI [of _ "if ?fo + ?nb \<le> ?pos + n then Advance else Stay"]) (simp add: add.assoc)
  qed
qed

section \<open>The loop\<close>

context item_cursor
begin

lemma inode_round_ok:
  assumes "consistent s" "placed s c" "\<forall>x \<in> set (ahead s c). readable content serve ino x" "sorted_wrt item_lt (ahead s c)"
    "length acc < want" "off + want \<le> u64_max"
  shows "\<exists>out mv. inode_read_round here key_at data_at serve ino off want acc c = Some (Inr (acc @ out, mv)) \<and> length (acc @ out) \<le> want
    \<and> (mv = Finish \<and> tail_bytes content ino (ahead s c) (off + length acc) (off + want) = out
      \<or> mv = Stay \<and> out \<noteq> [] \<and>
         tail_bytes content ino (ahead s c) (off + length acc) (off + want) = out @ tail_bytes content ino (ahead s c) (off + length (acc @ out)) (off + want)
      \<or> mv = Advance \<and> ahead s c \<noteq> [] \<and>
         tail_bytes content ino (ahead s c) (off + length acc) (off + want) = out @ tail_bytes content ino (tl (ahead s c)) (off + length (acc @ out)) (off + want))"
proof -
  have pos: "add64 off (length acc) = off + length acc" using assms(5,6) by (simp add: add64_def u64_max_def)
  have hole: ?thesis if "inode_read_round here key_at data_at serve ino off want acc c = Some (Inr (acc @ replicate (want - length acc) 0, Finish))"
    "exts ino (ahead s c) = []"
  proof -
    have "tail_bytes content ino (ahead s c) (off + length acc) (off + want) = replicate (want - length acc) 0"
      using that(2) assms(5) by (subst tail_bytes_none) (auto simp: byte_at_simps)
    then show ?thesis using that(1) assms(5) by (intro exI [of _ "replicate (want - length acc) 0"] exI [of _ Finish]) simp
  qed
  show ?thesis
  proof (cases "ahead s c")
    case Nil
    then have "\<not> here c" using here_law [OF assms(1,2)] by simp
    then have "inode_read_round here key_at data_at serve ino off want acc c = Some (Inr (acc @ replicate (want - length acc) 0, Finish))"
      by (simp add: inode_read_round_def)
    then show ?thesis by (rule hole) (simp add: Nil exts_simps)
  next
    case (Cons x xs)
    obtain k d where x: "x = (k, d)" by (cases x)
    have h: "here c" using here_law [OF assms(1,2)] Cons by simp
    have kd: "key_at c = Inr k" "data_at c = Inr d" using current_law [OF assms(1,2), of k d xs] Cons x by simp_all
    show ?thesis
    proof (cases "of_run ino EXTENT_DATA_KEY x")
      case True
      obtain e where e: "file_extent_parse (offset k) d = Inr e" using assms(3) True Cons x by (auto simp: readable_def)
      have "inode_read_round here key_at data_at serve ino off want acc c = extent_round serve (off + length acc) want acc e"
        using h kd e True x by (simp add: inode_read_round_def pos of_run_def)
      moreover have "\<forall>y \<in> set xs. readable content serve ino y" "readable content serve ino x" "sorted_wrt item_lt (x # xs)"
        using assms(3,4) Cons by simp_all
      ultimately show ?thesis
        using extent_round_ok [OF True, of content serve xs e acc want off] e x assms(5,6) Cons by auto
    next
      case False
      have kf: "\<not> (objectid k = ino \<and> item_type k = EXTENT_DATA_KEY)" using False x by (simp add: of_run_def)
      show ?thesis
      proof (cases "key_ord k < key_ord (key_new ino EXTENT_DATA_KEY 0)")
        case True
        then have "inode_read_round here key_at data_at serve ino off want acc c = Some (Inr (acc @ [], Advance))"
          using h kd kf by (auto simp add: inode_read_round_def)
        moreover have "exts ino (ahead s c) = exts ino xs" using exts_simps(2) [OF False] Cons by simp
        ultimately show ?thesis using assms(5) Cons
          by (intro exI [of _ "[]"] exI [of _ Advance]) (simp add: tail_bytes_def)
      next
        case after: False
        then have "inode_read_round here key_at data_at serve ino off want acc c = Some (Inr (acc @ replicate (want - length acc) 0, Finish))"
          using h kd kf by (auto simp add: inode_read_round_def)
        moreover have "\<not> of_run ino EXTENT_DATA_KEY y" if "y \<in> set (x # xs)" for y
          using that of_run_order [of ino EXTENT_DATA_KEY x y] False after assms(4) Cons x by (auto simp: item_lt_def not_less)
        then have "exts ino (ahead s c) = []" using Cons by (simp add: exts_def filter_empty_conv)
        ultimately show ?thesis by (rule hole)
      qed
    qed
  qed
qed

lemma inode_read_loop_ok:
  assumes "consistent s" "off + want \<le> u64_max"
  shows "placed s c \<Longrightarrow> \<forall>x \<in> set (ahead s c). readable content serve ino x \<Longrightarrow> sorted_wrt item_lt (ahead s c) \<Longrightarrow> length acc \<le> want \<Longrightarrow>
    inode_read_loop (step s) (inode_read_round here key_at data_at serve ino off want) want acc c
      = Some (Inr (acc @ tail_bytes content ino (ahead s c) (off + length acc) (off + want)))"
proof (induction "length (ahead s c) + (want - length acc)" arbitrary: c acc rule: less_induct)
  case less
  let ?loop = "inode_read_loop (step s) (inode_read_round here key_at data_at serve ino off want) want"
  show ?case
  proof (cases "want \<le> length acc")
    case True
    then show ?thesis using less.prems(4) by (subst inode_read_loop.simps) (simp add: tail_bytes_def)
  next
    case False
    then have lt: "length acc < want" by simp
    obtain out mv where r: "inode_read_round here key_at data_at serve ino off want acc c = Some (Inr (acc @ out, mv))"
      "length (acc @ out) \<le> want"
      "mv = Finish \<and> tail_bytes content ino (ahead s c) (off + length acc) (off + want) = out
      \<or> mv = Stay \<and> out \<noteq> [] \<and>
         tail_bytes content ino (ahead s c) (off + length acc) (off + want) = out @ tail_bytes content ino (ahead s c) (off + length (acc @ out)) (off + want)
      \<or> mv = Advance \<and> ahead s c \<noteq> [] \<and>
         tail_bytes content ino (ahead s c) (off + length acc) (off + want) = out @ tail_bytes content ino (tl (ahead s c)) (off + length (acc @ out)) (off + want)"
      using inode_round_ok [OF assms(1) less.prems(1-3) lt assms(2)] by blast
    from r(3) show ?thesis
    proof (elim disjE conjE)
      assume "mv = Finish" "tail_bytes content ino (ahead s c) (off + length acc) (off + want) = out"
      then show ?thesis using False r(1) by (subst inode_read_loop.simps) simp
    next
      assume m: "mv = Stay" "out \<noteq> []"
        "tail_bytes content ino (ahead s c) (off + length acc) (off + want) = out @ tail_bytes content ino (ahead s c) (off + length (acc @ out)) (off + want)"
      have "?loop acc c = ?loop (acc @ out) c" using False r(1) m(1) by (subst inode_read_loop.simps) simp
      also have "\<dots> = Some (Inr ((acc @ out) @ tail_bytes content ino (ahead s c) (off + length (acc @ out)) (off + want)))"
        using less.prems r(2) m(2) lt by (intro less.hyps) (auto simp: length_greater_0_conv [symmetric] simp del: length_greater_0_conv)
      finally show ?thesis using m(3) by simp
    next
      assume m: "mv = Advance" "ahead s c \<noteq> []"
        "tail_bytes content ino (ahead s c) (off + length acc) (off + want) = out @ tail_bytes content ino (tl (ahead s c)) (off + length (acc @ out)) (off + want)"
      have "here c" using here_law [OF assms(1) less.prems(1)] m(2) by simp
      then obtain c' where c': "step s c = Inr c'" "placed s c'" "ahead s c' = tl (ahead s c)" using step_law [OF assms(1) less.prems(1)] by blast
      have "?loop acc c = ?loop (acc @ out) c'" using False r(1) m(1) c'(1) by (subst inode_read_loop.simps) simp
      also have "\<dots> = Some (Inr ((acc @ out) @ tail_bytes content ino (ahead s c') (off + length (acc @ out)) (off + want)))"
      proof (rule less.hyps)
        show "length (ahead s c') + (want - length (acc @ out)) < length (ahead s c) + (want - length acc)"
          using m(2) c'(3) by (cases "ahead s c") auto
        show "\<forall>x \<in> set (ahead s c'). readable content serve ino x" using less.prems(2) c'(3) m(2) by (auto dest: list.set_sel(2))
        show "sorted_wrt item_lt (ahead s c')" using less.prems(3) c'(3) m(2) by (cases "ahead s c") auto
      qed (use c' r(2) in auto)
      finally show ?thesis using m(3) c'(3) by simp
    qed
  qed
qed

end

section \<open>Serving an extent\<close>

text \<open>The bytes an extent item stands for, where \<open>img\<close> is the logical address space.\<close>

definition extent_content :: "hashes \<Rightarrow> decoders \<Rightarrow> btrfs \<Rightarrow> (nat \<Rightarrow> byte) \<Rightarrow> file_extent \<Rightarrow> bytes" where
  "extent_content H D fs img e =
     (if is_zeros e then replicate (fe_num_bytes e) 0
      else if is_compressed e then
        slice (projr (the (decompress_extent D (data_bytes H fs) (fs_sector_size fs) e))) (fe_offset e) (fe_num_bytes e)
      else case fe_inline e of
          Some b \<Rightarrow> slice b (fe_offset e) (fe_num_bytes e)
        | None \<Rightarrow> map img [fe_disk_bytenr e + fe_offset e..<fe_disk_bytenr e + fe_offset e + fe_num_bytes e])"

text \<open>A sound extent item: its range lies within what it points at, and that can be read.\<close>

definition extent_sound :: "hashes \<Rightarrow> decoders \<Rightarrow> btrfs \<Rightarrow> (nat \<Rightarrow> byte) \<Rightarrow> file_extent \<Rightarrow> bool" where
  "extent_sound H D fs img e \<longleftrightarrow> fe_file_offset e + fe_num_bytes e \<le> u64_max \<and> fe_offset e + fe_num_bytes e \<le> u64_max
     \<and> (is_zeros e
        \<or> (is_compressed e \<and> (\<exists>plain. decompress_extent D (data_bytes H fs) (fs_sector_size fs) e = Some (Inr plain)
              \<and> fe_offset e + fe_num_bytes e \<le> length plain))
        \<or> (\<not> is_compressed e \<and> (\<exists>b. fe_inline e = Some b \<and> fe_offset e + fe_num_bytes e \<le> length b))
        \<or> (\<not> is_compressed e \<and> fe_inline e = None \<and> fe_offset e + fe_num_bytes e \<le> fe_disk_num_bytes e
            \<and> fe_disk_bytenr e + fe_disk_num_bytes e \<le> u64_max
            \<and> (\<forall>a n. fe_disk_bytenr e \<le> a \<longrightarrow> a + n \<le> fe_disk_bytenr e + fe_disk_num_bytes e
                 \<longrightarrow> data_bytes H fs a n = Some (Inr (map img [a..<a + n])))))"

lemma copy_out_slice:
  assumes "o' + m \<le> length plain" "w + n \<le> m" "o' + m \<le> u64_max"
  shows "copy_out plain (add64 o' w) n err = Inr (slice (slice plain o' m) w n)"
proof -
  have "add64 o' w = o' + w" "checked_add64 (o' + w) n = Some (o' + w + n)"
    using assms by (simp_all add: add64_def checked_add64_def u64_max_def)
  moreover have "slice (slice plain o' m) w n = slice plain (o' + w) n"
    using assms by (simp add: slice_def drop_take add.commute min_def)
  ultimately show ?thesis using assms by (simp add: copy_out_def)
qed

lemma slice_map_upt: "w + n \<le> m \<Longrightarrow> slice (map f [a..<a + m]) w n = map f [a + w..<a + w + n]"
  by (rule nth_equalityI) (auto simp: nth_slice add.assoc)

lemma serve_content:
  assumes "extent_sound H D fs img e" "w + n \<le> fe_num_bytes e"
  shows "serve_extent D (data_bytes H fs) (fs_sector_size fs) e w n = Some (Inr (slice (extent_content H D fs img e) w n))"
proof -
  have b: "fe_offset e + fe_num_bytes e \<le> u64_max" using assms(1) by (simp add: extent_sound_def)
  have a64: "add64 (fe_offset e) w = fe_offset e + w" "add64 (fe_offset e + w) n = fe_offset e + w + n"
    using b assms(2) by (simp_all add: add64_def u64_max_def)
  consider (zeros) "is_zeros e"
    | (compressed) plain where "\<not> is_zeros e" "is_compressed e" "decompress_extent D (data_bytes H fs) (fs_sector_size fs) e = Some (Inr plain)"
        "fe_offset e + fe_num_bytes e \<le> length plain"
    | (inline) b where "\<not> is_zeros e" "\<not> is_compressed e" "fe_inline e = Some b" "fe_offset e + fe_num_bytes e \<le> length b"
    | (regular) "\<not> is_zeros e" "\<not> is_compressed e" "fe_inline e = None" "fe_offset e + fe_num_bytes e \<le> fe_disk_num_bytes e"
        "fe_disk_bytenr e + fe_disk_num_bytes e \<le> u64_max"
        "\<forall>a n. fe_disk_bytenr e \<le> a \<longrightarrow> a + n \<le> fe_disk_bytenr e + fe_disk_num_bytes e \<longrightarrow> data_bytes H fs a n = Some (Inr (map img [a..<a + n]))"
    using assms(1) unfolding extent_sound_def by auto
  then show ?thesis
  proof cases
    case zeros
    then show ?thesis using assms(2) by (simp add: serve_extent_def extent_content_def slice_def min_def)
  next
    case compressed
    then show ?thesis using copy_out_slice [OF compressed(4) assms(2) b] by (simp add: serve_extent_def extent_content_def)
  next
    case inline
    then show ?thesis using copy_out_slice [OF inline(4) assms(2) b] by (simp add: serve_extent_def extent_content_def)
  next
    case regular
    have a: "add64 (fe_disk_bytenr e) (fe_offset e + w) = fe_disk_bytenr e + fe_offset e + w"
      using regular(4,5) assms(2) by (simp add: add64_def u64_max_def)
    have "data_bytes H fs (fe_disk_bytenr e + fe_offset e + w) n = Some (Inr (map img [fe_disk_bytenr e + fe_offset e + w..<fe_disk_bytenr e + fe_offset e + w + n]))"
      using regular(4) assms(2) by (intro regular(6) [rule_format]) auto
    then show ?thesis using regular(1-4) assms(2)
      by (simp add: serve_extent_def extent_content_def a64 a slice_map_upt)
  qed
qed

lemma length_extent_content: "extent_sound H D fs img e \<Longrightarrow> length (extent_content H D fs img e) = fe_num_bytes e"
  by (auto simp: extent_sound_def extent_content_def)

section \<open>Reading by inode\<close>

text \<open>In sorted extents that do not overlap, those filed before the last one at or below \<open>off\<close> end there.\<close>

lemma exts_append: "exts ino (xs @ ys) = exts ino xs @ exts ino ys"
  by (simp add: exts_def)

lemma exts_before_skip:
  assumes "sorted_wrt (\<lambda>e e'. fe_file_offset e + fe_num_bytes e \<le> fe_file_offset e') (exts ino (b @ x # r))"
    "sorted_wrt item_lt (b @ x # r)" "key_ord (fst x) \<le> key_ord (key_new ino EXTENT_DATA_KEY off)" "off \<le> p"
    "\<forall>y \<in> set (b @ x # r). readable content serve ino y"
  shows "byte_at content (exts ino (b @ x # r)) p = byte_at content (exts ino (x # r)) p"
proof -
  have "\<not> covers p e" if e: "e \<in> set (exts ino b)" for e
  proof -
    obtain y where y: "y \<in> set b" "of_run ino EXTENT_DATA_KEY y" using e by (auto simp: exts_def)
    have yx: "key_ord (fst y) < key_ord (fst x)" using assms(2) y(1) by (simp add: sorted_wrt_append item_lt_def)
    then have x: "of_run ino EXTENT_DATA_KEY x"
      using y(2) assms(3) by (auto simp: of_run_def key_ord_def key_new_def less_prod_def less_eq_prod_def split: if_splits)
    obtain ex where ex: "file_extent_parse (offset (fst x)) (snd x) = Inr ex" using assms(5) x by (auto simp: readable_def)
    have "offset (fst x) \<le> off" using x assms(3) by (auto simp: of_run_def key_ord_def key_new_def less_eq_prod_def less_prod_def)
    then have "fe_file_offset ex \<le> p" using parse_file_offset [OF ex] assms(4) by simp
    moreover have "fe_file_offset e + fe_num_bytes e \<le> fe_file_offset ex"
      using assms(1) e exts_simps(3) [OF x, of r] ex by (simp add: exts_append sorted_wrt_append)
    ultimately show ?thesis by (simp add: covers_def)
  qed
  then show ?thesis unfolding exts_append by (rule byte_at_append_skip)
qed

context item_cursor
begin

lemma inode_read_from_seek_le:
  assumes "consistent s" "off + want \<le> u64_max" "\<forall>x \<in> set (stored s). readable content serve ino x"
    "sorted_wrt (\<lambda>e e'. fe_file_offset e + fe_num_bytes e \<le> fe_file_offset e') (exts ino (stored s))"
    "\<exists>x \<in> set (stored s). key_ord (fst x) \<le> key_ord (key_new ino EXTENT_DATA_KEY off)"
  shows "\<exists>c. seek_le s (key_new ino EXTENT_DATA_KEY off) = Inr c \<and>
    inode_read_loop (step s) (inode_read_round here key_at data_at serve ino off want) want [] c
      = Some (Inr (map (byte_at content (exts ino (stored s))) [off..<off + want]))"
proof -
  let ?k = "key_new ino EXTENT_DATA_KEY off"
  note so = stored_sorted [OF assms(1)]
  obtain b x r where x: "stored s = b @ x # r" "key_ord (fst x) \<le> key_ord ?k" "\<forall>z \<in> set r. key_ord ?k < key_ord (fst z)"
    using last_at_or_below [OF so assms(5)] by blast
  obtain c where c: "seek_le s ?k = Inr c" "placed s c" "ahead s c = x # r" using seek_le_law [OF assms(1) x] by blast
  have "inode_read_loop (step s) (inode_read_round here key_at data_at serve ino off want) want [] c
      = Some (Inr ([] @ tail_bytes content ino (ahead s c) (off + length ([] :: bytes)) (off + want)))"
    using assms(3) so x(1) c by (intro inode_read_loop_ok [OF assms(1,2)]) (auto simp: sorted_wrt_append)
  moreover have "byte_at content (exts ino (stored s)) p = byte_at content (exts ino (x # r)) p" if "off \<le> p" for p
    unfolding x(1) using assms(3,4) so x that by (intro exts_before_skip) auto
  then have "map (byte_at content (exts ino (stored s))) [off..<off + want] = tail_bytes content ino (x # r) off (off + want)"
    by (auto simp: tail_bytes_def)
  ultimately show ?thesis using c by simp
qed

end

text \<open>C2: reading a file of a btrfs volume. On a consistent fs tree that holds an item at or below the
  inode's first wanted extent key (its inode item, say), whose extent items for the inode are sound and do not
  overlap, \<open>read_inode_data\<close> ends and returns exactly the requested range, cut at the end of the file: each byte
  is the byte of the extent that covers its position, through decompression where the extent is compressed,
  and zero where no extent does or where the extent is a hole or preallocated.\<close>

theorem read_inode_data_correct:
  assumes "tree_consistent (fs_read_node H fs, tree)"
    and "\<forall>x \<in> set (tree_stored (fs_read_node H fs, tree)). of_run (ino_objectid ino) EXTENT_DATA_KEY x \<longrightarrow>
      (\<exists>e. file_extent_parse (offset (fst x)) (snd x) = Inr e \<and> extent_sound H D fs img e)"
    and "sorted_wrt (\<lambda>e e'. fe_file_offset e + fe_num_bytes e \<le> fe_file_offset e') (exts (ino_objectid ino) (tree_stored (fs_read_node H fs, tree)))"
    and "\<exists>x \<in> set (tree_stored (fs_read_node H fs, tree)). key_ord (fst x) \<le> key_ord (key_new (ino_objectid ino) EXTENT_DATA_KEY off)"
    and "ino_size ino \<le> u64_max"
  shows "read_inode_data H D fs tree ino off len = Some (Inr
    (map (byte_at (extent_content H D fs img) (exts (ino_objectid ino) (tree_stored (fs_read_node H fs, tree)))) [off..<min (off + len) (ino_size ino)]))"
proof (cases "ino_size ino \<le> off \<or> len = 0")
  case True
  then show ?thesis by (auto simp: read_inode_data_def)
next
  case False
  define want where "want = min len (ino_size ino - off)"
  have w: "want \<noteq> 0" "off + want = min (off + len) (ino_size ino)" "off + want \<le> u64_max" using False assms(5) by (auto simp: want_def)
  have r: "\<forall>x \<in> set (tree_stored (fs_read_node H fs, tree)).
      readable (extent_content H D fs img) (serve_extent D (data_bytes H fs) (fs_sector_size fs)) (ino_objectid ino) x"
    using assms(2) serve_content length_extent_content by (fastforce simp: readable_def extent_sound_def)
  obtain c where "search_le (fs_read_node H fs) tree (key_new (ino_objectid ino) EXTENT_DATA_KEY off) = Inr c"
    "inode_read_loop (advance (fs_read_node H fs)) (inode_read_round cursor_valid cursor_key cursor_data
       (serve_extent D (data_bytes H fs) (fs_sector_size fs)) (ino_objectid ino) off want) want [] c
     = Some (Inr (map (byte_at (extent_content H D fs img) (exts (ino_objectid ino) (tree_stored (fs_read_node H fs, tree)))) [off..<off + want]))"
    using tree.inode_read_from_seek_le [OF assms(1) w(3) r assms(3,4)] by auto
  moreover have "\<not> ino_size ino \<le> off" using False by simp
  ultimately show ?thesis
    using w(1,2) unfolding read_inode_data_def Let_def want_def [symmetric] by simp
qed

text \<open>A file of seven bytes with an inline extent of three and nothing after it.\<close>

definition abc_leaf :: leaf where
  "abc_leaf = (leaf_new 4096 7 5 (replicate 16 3) Crc32c)\<lparr>lf_items :=
     [\<lparr>li_key = key_new 256 1 0, li_data = []\<rparr>,
      \<lparr>li_key = key_new 256 108 0, li_data = replicate 8 0 @ le_bytes 8 3 @ replicate 5 0 @ [97, 98, 99]\<rparr>]\<rparr>"

definition abc_extent :: file_extent where
  "abc_extent = \<lparr>fe_file_offset = 0, fe_kind = ExtInline, fe_ram_bytes = 3, fe_compression = 0, fe_disk_bytenr = 0,
     fe_disk_num_bytes = 3, fe_offset = 0, fe_num_bytes = 3, fe_inline = Some [97, 98, 99]\<rparr>"

lemma abc_on_leaf_fs: "on_leaf_fs abc_leaf"
  by (simp add: on_leaf_fs_def abc_leaf_def leaf_wf_def leaf_new_def leaf_pairs_def key_wf_def key_new_def item_lt_def key_ord_def
      node_consts total_data_bytes_def HEADER_FLAG_WRITTEN_def)

lemma abc_parse: "file_extent_parse 0 (replicate 8 0 @ le_bytes 8 3 @ replicate 5 0 @ [97, 98, 99]) = Inr abc_extent"
  by (simp add: file_extent_parse_def Let_def INLINE_HEADER_def abc_extent_def u64le_def slice_def bytes_simps nth_append)

definition abc_inode :: inode where
  "abc_inode = \<lparr>ino_objectid = 256, ino_size = 7, ino_nbytes = 3, ino_nlink = 1, ino_uid = 0, ino_gid = 0, ino_mode = 0,
     ino_rdev = 0, ino_flags = 0, ino_atime = 0, ino_ctime = 0, ino_mtime = 0\<rparr>"

theorem read_inode_data_correct_witness:
  "read_inode_data toy_hashes double_lzo (leaf_fs toy_hashes [abc_leaf] (\<lambda>_. 0) 0) 4096 abc_inode 1 100 = Some (Inr [98, 99, 0, 0, 0, 0])"
proof -
  let ?fs = "leaf_fs toy_hashes [abc_leaf] (\<lambda>_. 0) 0"
  have t: "tree_consistent (fs_read_node toy_hashes ?fs, 4096)"
    "tree_stored (fs_read_node toy_hashes ?fs, 4096) = leaf_pairs abc_leaf"
    by (rule leaf_fs_tree [OF toy_hashes_ok _ abc_on_leaf_fs]; simp add: abc_leaf_def leaf_new_def)+
  have lp: "leaf_pairs abc_leaf = [(key_new 256 1 0, []), (key_new 256 108 0, replicate 8 0 @ le_bytes 8 3 @ replicate 5 0 @ [97, 98, 99])]"
    by (simp add: leaf_pairs_def abc_leaf_def)
  have ex: "exts 256 (leaf_pairs abc_leaf) = [abc_extent]"
    unfolding lp exts_def of_run_def using abc_parse by (simp add: key_new_def EXTENT_DATA_KEY_def)
  have sound: "extent_sound toy_hashes double_lzo ?fs (\<lambda>_. 0) abc_extent"
    by (simp add: extent_sound_def abc_extent_def u64_max_def is_compressed_def is_zeros_def)
  have content: "extent_content toy_hashes double_lzo ?fs (\<lambda>_. 0) abc_extent = [97, 98, 99]"
    by (simp add: extent_content_def abc_extent_def is_zeros_def is_compressed_def slice_def)
  have ino: "ino_objectid abc_inode = 256" "ino_size abc_inode = 7" by (simp_all add: abc_inode_def)
  have "read_inode_data toy_hashes double_lzo ?fs 4096 abc_inode 1 100 = Some (Inr
      (map (byte_at (extent_content toy_hashes double_lzo ?fs (\<lambda>_. 0)) (exts (ino_objectid abc_inode) (tree_stored (fs_read_node toy_hashes ?fs, 4096))))
        [1..<min (1 + 100) (ino_size abc_inode)]))"
  proof (rule read_inode_data_correct [OF t(1)])
    show "\<forall>x \<in> set (tree_stored (fs_read_node toy_hashes ?fs, 4096)). of_run (ino_objectid abc_inode) EXTENT_DATA_KEY x \<longrightarrow>
        (\<exists>e. file_extent_parse (offset (fst x)) (snd x) = Inr e \<and> extent_sound toy_hashes double_lzo ?fs (\<lambda>_. 0) e)"
      unfolding t(2) lp using abc_parse sound by (auto simp: of_run_def key_new_def EXTENT_DATA_KEY_def)
    show "\<exists>x \<in> set (tree_stored (fs_read_node toy_hashes ?fs, 4096)). key_ord (fst x) \<le> key_ord (key_new (ino_objectid abc_inode) EXTENT_DATA_KEY 1)"
      unfolding t(2) lp ino by (simp add: key_ord_def key_new_def EXTENT_DATA_KEY_def)
  qed (simp_all add: t(2) ex ino u64_max_def)
  also have "[1..<min (1 + 100) (ino_size abc_inode)] = [1, 2, 3, 4, 5, 6]" by (simp add: ino upt_rec)
  finally show ?thesis
    unfolding t(2) ino ex by (simp add: byte_at_def covers_def content) (simp add: abc_extent_def)
qed

end
