(* ===== verification/Data_Verify.thy ===== *)
theory Data_Verify
  imports Leaf_Tree
begin

text \<open>
  What verifying file data against the checksum tree establishes (\<open>verify_data\<close> of
  \<open>core/src/fs/btrfs/csum.rs\<close>): the sector loop with its forward moving cursor agrees with looking every
  sector up among the stored checksum items.
\<close>

section \<open>The reference\<close>

abbreviation csum_run :: "key \<times> bytes \<Rightarrow> bool" where
  "csum_run \<equiv> of_run EXTENT_CSUM_OBJECTID EXTENT_CSUM_KEY"

abbreviation first_csum :: key where
  "first_csum \<equiv> key_new EXTENT_CSUM_OBJECTID EXTENT_CSUM_KEY 0"

definition csum_end :: "nat \<Rightarrow> nat \<Rightarrow> key \<times> bytes \<Rightarrow> nat" where
  "csum_end width sector x = offset (fst x) + length (snd x) div width * sector"

definition covers_sector :: "nat \<Rightarrow> nat \<Rightarrow> nat \<Rightarrow> key \<times> bytes \<Rightarrow> bool" where
  "covers_sector width sector t x \<longleftrightarrow> csum_run x \<and> offset (fst x) \<le> t \<and> t < csum_end width sector x"

text \<open>The checksum stored for the sector at \<open>t\<close>, if an item covers it.\<close>

definition stored_csum :: "nat \<Rightarrow> nat \<Rightarrow> (key \<times> bytes) list \<Rightarrow> nat \<Rightarrow> bytes option" where
  "stored_csum width sector xs t =
     map_option (\<lambda>x. slice (snd x) ((t - offset (fst x)) div sector * width) width) (List.find (covers_sector width sector t) xs)"

fun check_sectors :: "(bytes \<Rightarrow> bytes \<Rightarrow> bool) \<Rightarrow> (nat \<Rightarrow> bytes option) \<Rightarrow> nat \<Rightarrow> nat \<Rightarrow> bytes list \<Rightarrow> nat \<Rightarrow> nat result" where
  "check_sectors verify lookup sector t [] u = Inr u"
| "check_sectors verify lookup sector t (chunk # rest) u =
     (case lookup t of
        None \<Rightarrow> check_sectors verify lookup sector (t + sector) rest (u + 1)
      | Some stored \<Rightarrow>
          if verify stored chunk then check_sectors verify lookup sector (t + sector) rest u
          else Inl (FsChecksumMismatch ''btrfs file data''))"

lemma check_sectors_cong:
  "(\<And>t'. t \<le> t' \<Longrightarrow> lookup t' = lookup' t') \<Longrightarrow> check_sectors verify lookup sector t cs u = check_sectors verify lookup' sector t cs u"
proof (induction cs arbitrary: t u)
  case (Cons c cs)
  have "check_sectors verify lookup sector (t + sector) cs u = check_sectors verify lookup' sector (t + sector) cs u" for u
    by (rule Cons.IH) (simp add: Cons.prems)
  then show ?case using Cons.prems [of t] by (simp split: option.split)
qed simp

lemma find_dropWhile_cong: "(\<And>x. x \<in> set xs \<Longrightarrow> q x \<Longrightarrow> \<not> p x) \<Longrightarrow> List.find p (dropWhile q xs) = List.find p xs"
  by (induction xs) auto

lemma find_none: "(\<And>x. x \<in> set xs \<Longrightarrow> \<not> p x) \<Longrightarrow> List.find p xs = None"
  by (simp add: find_None_iff)

section \<open>The cursor\<close>

text \<open>What the inner loop steps over.\<close>

definition csum_skip :: "nat \<Rightarrow> nat \<Rightarrow> nat \<Rightarrow> key \<times> bytes \<Rightarrow> bool" where
  "csum_skip width sector t x \<longleftrightarrow>
     (\<not> csum_run x \<and> key_ord (fst x) < key_ord first_csum) \<or> (csum_run x \<and> csum_end width sector x \<le> t)"

lemma skip_not_covers: "csum_skip width sector t x \<Longrightarrow> t \<le> t' \<Longrightarrow> \<not> covers_sector width sector t' x"
  by (auto simp: csum_skip_def covers_sector_def)

lemma stored_csum_skip:
  "t \<le> t' \<Longrightarrow> stored_csum width sector (dropWhile (csum_skip width sector t) xs) t' = stored_csum width sector xs t'"
  unfolding stored_csum_def by (subst find_dropWhile_cong) (use skip_not_covers in auto)

context item_cursor
begin

lemma csum_seek_ok:
  assumes "consistent s"
  shows "placed s c \<Longrightarrow> \<forall>x \<in> set (ahead s c). csum_run x \<longrightarrow> csum_end width sector x < 2 ^ 64 \<Longrightarrow>
    \<exists>c'. csum_seek (step s) here key_at data_at width sector t c = Some (Inr c') \<and> placed s c'
      \<and> ahead s c' = dropWhile (csum_skip width sector t) (ahead s c)"
proof (induction "ahead s c" arbitrary: c)
  case Nil
  then have "\<not> here c" using here_law [OF assms] by metis
  then show ?case using Nil by (subst csum_seek.simps) auto
next
  case (Cons x xs)
  obtain k d where x: "x = (k, d)" by (cases x)
  note ah = Cons.hyps(2) [symmetric]
  have h: "here c" using here_law [OF assms Cons.prems(1)] ah by simp
  have kd: "key_at c = Inr k" "data_at c = Inr d" using current_law [OF assms Cons.prems(1)] ah x by simp_all
  obtain c' where c': "step s c = Inr c'" "placed s c'" "ahead s c' = xs"
    using step_law [OF assms Cons.prems(1) h] ah by auto
  have IH: "\<exists>c''. csum_seek (step s) here key_at data_at width sector t c' = Some (Inr c'') \<and> placed s c''
      \<and> ahead s c'' = dropWhile (csum_skip width sector t) xs"
    using Cons.hyps(1) [of c'] c' Cons.prems(2) ah by simp
  have a64: "add64 (offset k) (length d div width * sector) = csum_end width sector x" if "csum_run x"
    using Cons.prems(2) ah that x by (simp add: csum_end_def add64_def)
  show ?case
  proof (cases "csum_skip width sector t x")
    case True
    have "csum_seek (step s) here key_at data_at width sector t c = csum_seek (step s) here key_at data_at width sector t c'"
    proof (cases "csum_run x")
      case run: True
      then have "csum_end width sector x \<le> t" using True by (simp add: csum_skip_def)
      then show ?thesis using h kd c'(1) run x a64 [OF run]
        by (subst csum_seek.simps) (simp add: of_run_def)
    next
      case run: False
      then have "key_ord k < key_ord first_csum" using True x by (simp add: csum_skip_def)
      then show ?thesis using h kd c'(1) run x by (subst csum_seek.simps) (auto simp: of_run_def)
    qed
    then show ?thesis using IH True ah by simp
  next
    case False
    have "csum_seek (step s) here key_at data_at width sector t c = Some (Inr c)"
    proof (cases "csum_run x")
      case run: True
      then have "\<not> csum_end width sector x \<le> t" using False by (simp add: csum_skip_def)
      then show ?thesis using h kd run x a64 [OF run] by (subst csum_seek.simps) (simp add: of_run_def)
    next
      case run: False
      then have "\<not> key_ord k < key_ord first_csum" using False x by (simp add: csum_skip_def)
      then show ?thesis using h kd run x by (subst csum_seek.simps) (auto simp: of_run_def)
    qed
    then show ?thesis using False ah Cons.prems(1) by simp
  qed
qed

lemma csum_at_ok:
  assumes "consistent s" "placed s c" "0 < sector" "0 < width" "sorted_wrt item_lt (ahead s c)"
    "\<And>x r. ahead s c = x # r \<Longrightarrow> \<not> csum_skip width sector t x"
  shows "csum_at here key_at data_at c t width sector = Inr (stored_csum width sector (ahead s c) t)"
proof (cases "ahead s c")
  case Nil
  then show ?thesis using here_law [OF assms(1,2)] by (simp add: csum_at_def stored_csum_def)
next
  case (Cons x r)
  obtain k d where x: "x = (k, d)" by (cases x)
  have h: "here c" using here_law [OF assms(1,2)] Cons by simp
  have kd: "key_at c = Inr k" "data_at c = Inr d" using current_law [OF assms(1,2)] Cons x by simp_all
  have lt: "key_ord k < key_ord (fst y)" if "y \<in> set r" for y using assms(5) Cons that x by (simp add: item_lt_def)
  have ns: "\<not> csum_skip width sector t x" by (rule assms(6) [OF Cons])
  show ?thesis
  proof (cases "csum_run x")
    case False
    then have "key_ord first_csum \<le> key_ord k" using ns x by (simp add: csum_skip_def not_less)
    then have "\<not> csum_run y" if "y \<in> set (x # r)" for y
      using that of_run_order [of EXTENT_CSUM_OBJECTID EXTENT_CSUM_KEY x y] False lt [of y] x by (cases "y = x") simp_all
    then have "List.find (covers_sector width sector t) (x # r) = None" by (intro find_none) (simp add: covers_sector_def)
    then show ?thesis using h kd False x Cons by (auto simp: csum_at_def stored_csum_def of_run_def)
  next
    case True
    then have en: "t < offset k + length d div width * sector" using ns x by (simp add: csum_skip_def csum_end_def)
    show ?thesis
    proof (cases "offset k \<le> t")
      case T: True
      define q where "q = (t - offset k) div sector"
      have "q < length d div width" using en T assms(3) by (simp add: q_def div_less_iff_less_mult)
      then have "(q + 1) * width \<le> length d div width * width" by (intro mult_le_mono1) simp
      also have "\<dots> \<le> length d" by (rule div_times_less_eq_dividend)
      finally have at: "q * width + width \<le> length d" by simp
      have "covers_sector width sector t x" using True T en x by (simp add: covers_sector_def csum_end_def)
      then show ?thesis using h kd True T x Cons at by (simp add: csum_at_def stored_csum_def of_run_def Let_def q_def)
    next
      case F: False
      have "\<not> covers_sector width sector t y" if "y \<in> set (x # r)" for y
      proof -
        have "offset k \<le> offset (fst y)" if "csum_run y"
          using \<open>y \<in> set (x # r)\<close> lt [of y] True that x by (auto simp: of_run_def key_ord_def less_prod_def)
        then show ?thesis using F by (auto simp: covers_sector_def)
      qed
      then have "List.find (covers_sector width sector t) (x # r) = None" by (rule find_none)
      then show ?thesis using h kd True F x Cons by (simp add: csum_at_def stored_csum_def of_run_def)
    qed
  qed
qed

lemma sorted_dropWhile: "sorted_wrt item_lt xs \<Longrightarrow> sorted_wrt item_lt (dropWhile p xs)"
  by (metis dropWhile_eq_drop sorted_wrt_drop)

lemma verify_loop_ok:
  assumes "consistent s" "0 < sector" "0 < width"
  shows "placed s c \<Longrightarrow> \<forall>x \<in> set (ahead s c). csum_run x \<longrightarrow> csum_end width sector x < 2 ^ 64 \<Longrightarrow> sorted_wrt item_lt (ahead s c) \<Longrightarrow>
    lg + (i + length cs) * sector < 2 ^ 64 \<Longrightarrow>
    verify_loop (step s) here key_at data_at verify width sector lg cs i u c
      = Some (check_sectors verify (stored_csum width sector (ahead s c)) sector (lg + i * sector) cs u)"
proof (induction cs arbitrary: i u c)
  case (Cons chunk cs)
  let ?t = "lg + i * sector"
  have t: "add64 lg (i * sector) = ?t" using Cons.prems(4) by (simp add: add64_def algebra_simps)
  obtain c' where c': "csum_seek (step s) here key_at data_at width sector ?t c = Some (Inr c')" "placed s c'"
    "ahead s c' = dropWhile (csum_skip width sector ?t) (ahead s c)"
    using csum_seek_ok [OF assms(1) Cons.prems(1,2)] by blast
  have so: "sorted_wrt item_lt (ahead s c')" unfolding c'(3) using Cons.prems(3) by (rule sorted_dropWhile)
  have at: "csum_at here key_at data_at c' ?t width sector = Inr (stored_csum width sector (ahead s c) ?t)"
    using csum_at_ok [OF assms(1) c'(2) assms(2,3) so] stored_csum_skip [of ?t ?t width sector "ahead s c"]
    unfolding c'(3) by (simp add: dropWhile_eq_Cons_conv)
  have IH: "verify_loop (step s) here key_at data_at verify width sector lg cs (i + 1) u c'
      = Some (check_sectors verify (stored_csum width sector (ahead s c)) sector (?t + sector) cs u)" for u
  proof -
    have "verify_loop (step s) here key_at data_at verify width sector lg cs (i + 1) u c'
        = Some (check_sectors verify (stored_csum width sector (ahead s c')) sector (lg + (i + 1) * sector) cs u)"
      using Cons.prems(2,4) c'(2,3) so by (intro Cons.IH) (auto simp: algebra_simps dest: set_dropWhileD)
    also have "check_sectors verify (stored_csum width sector (ahead s c')) sector (lg + (i + 1) * sector) cs u
        = check_sectors verify (stored_csum width sector (ahead s c)) sector (lg + (i + 1) * sector) cs u"
      by (rule check_sectors_cong) (simp add: c'(3) stored_csum_skip)
    finally show ?thesis by (simp add: algebra_simps)
  qed
  show ?case using IH by (simp add: t c'(1) at split: option.split)
qed simp

end

section \<open>The outcome\<close>

lemma check_sectors_mismatch:
  "(\<exists>e. check_sectors verify lookup sector t cs u = Inl e)
    \<longleftrightarrow> (\<exists>i < length cs. \<exists>st. lookup (t + i * sector) = Some st \<and> \<not> verify st (cs ! i))"
proof (induction cs arbitrary: t u)
  case (Cons c cs)
  show ?case
    unfolding check_sectors.simps length_Cons Ex_less_Suc2 by (auto simp: Cons.IH add.assoc split: option.split)
qed simp

lemma check_sectors_error: "check_sectors verify lookup sector t cs u = Inl e \<Longrightarrow> e = FsChecksumMismatch ''btrfs file data''"
  by (induction cs arbitrary: t u) (auto split: option.splits if_splits)

lemma check_sectors_count:
  "check_sectors verify lookup sector t cs u = Inr n \<Longrightarrow> n = u + card {i. i < length cs \<and> lookup (t + i * sector) = None}"
proof (induction cs arbitrary: t u)
  case (Cons c cs)
  let ?A = "{i. i < length cs \<and> lookup (t + sector + i * sector) = None}"
  have "{i. i < length (c # cs) \<and> lookup (t + i * sector) = None} = (if lookup t = None then {0} else {}) \<union> Suc ` ?A"
    by (auto simp: image_iff less_Suc_eq_0_disj add.assoc)
  then have "card {i. i < length (c # cs) \<and> lookup (t + i * sector) = None} = (if lookup t = None then 1 else 0) + card ?A"
    by (simp add: card_image card_insert_if image_iff)
  then show ?case using Cons.prems Cons.IH [of "t + sector" u] Cons.IH [of "t + sector" "Suc u"] by (auto split: option.splits if_splits)
qed simp

lemma stored_csum_suffix:
  assumes "sorted_wrt item_lt (b @ x # r)" "key_ord (fst x) \<le> key_ord (key_new EXTENT_CSUM_OBJECTID EXTENT_CSUM_KEY lg)" "lg \<le> t"
    "sorted_wrt (\<lambda>x y. csum_run x \<longrightarrow> csum_run y \<longrightarrow> csum_end width sector x \<le> offset (fst y)) (b @ x # r)"
  shows "stored_csum width sector (b @ x # r) t = stored_csum width sector (x # r) t"
proof -
  have "\<not> covers_sector width sector t y" if y: "y \<in> set b" for y
  proof
    assume c: "covers_sector width sector t y"
    then have run: "csum_run y" by (simp add: covers_sector_def)
    have "key_ord (fst y) < key_ord (fst x)" using assms(1) y by (simp add: sorted_wrt_append item_lt_def)
    then have x: "csum_run x" "offset (fst x) \<le> lg"
      using run assms(2) by (auto simp: of_run_def key_ord_def key_new_def less_prod_def less_eq_prod_def split: if_splits)
    then have "csum_end width sector y \<le> lg" using assms(4) y run by (auto simp: sorted_wrt_append)
    then show False using c assms(3) by (simp add: covers_sector_def)
  qed
  then have "List.find (covers_sector width sector t) (b @ x # r) = List.find (covers_sector width sector t) (x # r)"
    by (induction b) auto
  then show ?thesis by (simp add: stored_csum_def)
qed

text \<open>The stored checksums of a volume.\<close>

abbreviation csum_items :: "hashes \<Rightarrow> btrfs \<Rightarrow> tree_root \<Rightarrow> (key \<times> bytes) list" where
  "csum_items H fs root \<equiv> tree_stored (fs_read_node H fs, tr_bytenr root)"

definition sector_stored :: "hashes \<Rightarrow> btrfs \<Rightarrow> tree_root \<Rightarrow> nat \<Rightarrow> bytes option" where
  "sector_stored H fs root = stored_csum (csum_size (fs_csum_type fs)) (fs_sector_size fs) (csum_items H fs root)"

lemma csum_width_pos: "0 < csum_size ct"
  by (cases ct) (simp_all add: csum_size_def)

lemma verify_data_check:
  assumes root: "fs_csum_tree fs = Some root" "tree_consistent (fs_read_node H fs, tr_bytenr root)"
    and items: "\<forall>x \<in> set (csum_items H fs root). csum_run x \<longrightarrow> csum_end (csum_size (fs_csum_type fs)) (fs_sector_size fs) x < 2 ^ 64"
      "sorted_wrt (\<lambda>x y. csum_run x \<longrightarrow> csum_run y \<longrightarrow> csum_end (csum_size (fs_csum_type fs)) (fs_sector_size fs) x \<le> offset (fst y)) (csum_items H fs root)"
    and below: "\<exists>x \<in> set (csum_items H fs root). key_ord (fst x) \<le> key_ord (key_new EXTENT_CSUM_OBJECTID EXTENT_CSUM_KEY lg)"
    and range: "0 < fs_sector_size fs" "fs_sector_size fs dvd lg" "fs_sector_size fs dvd length data" "lg + length data < 2 ^ 64"
  shows "verify_data H fs lg data = Some (rbind (check_sectors (csum_verify H (fs_csum_type fs)) (sector_stored H fs root) (fs_sector_size fs) lg
      (sectors (fs_sector_size fs) data) 0) (\<lambda>n. Inr (if n = 0 then VerifiedAll else VerifiedPartial n)))"
proof -
  let ?w = "csum_size (fs_csum_type fs)" and ?s = "fs_sector_size fs" and ?rn = "fs_read_node H fs"
  let ?k = "key_new EXTENT_CSUM_OBJECTID EXTENT_CSUM_KEY lg"
  note so = tree.stored_sorted [OF root(2)]
  obtain b x r where x: "csum_items H fs root = b @ x # r" "key_ord (fst x) \<le> key_ord ?k" "\<forall>z \<in> set r. key_ord ?k < key_ord (fst z)"
    using last_at_or_below [OF so below] by blast
  obtain c where c: "search_le ?rn (tr_bytenr root) ?k = Inr c" "tree_placed (?rn, tr_bytenr root) c" "items_from ?rn c = x # r"
    using tree.seek_le_law [OF root(2) x] by auto
  have "verify_loop (advance ?rn) cursor_valid cursor_key cursor_data (csum_verify H (fs_csum_type fs)) ?w ?s lg (sectors ?s data) 0 0 c
      = Some (check_sectors (csum_verify H (fs_csum_type fs)) (stored_csum ?w ?s (x # r)) ?s (lg + 0 * ?s) (sectors ?s data) 0)"
  proof -
    have "lg + (0 + length (sectors ?s data)) * ?s < 2 ^ 64" using range(3,4) by (simp add: sectors_def)
    then show ?thesis
      using tree.verify_loop_ok [OF root(2) range(1) csum_width_pos, of c "fs_csum_type fs" lg 0 "sectors ?s data" "csum_verify H (fs_csum_type fs)" 0]
        c(2,3) items(1) so x(1) by (simp add: sorted_wrt_append)
  qed
  also have "check_sectors (csum_verify H (fs_csum_type fs)) (stored_csum ?w ?s (x # r)) ?s (lg + 0 * ?s) (sectors ?s data) 0
      = check_sectors (csum_verify H (fs_csum_type fs)) (sector_stored H fs root) ?s lg (sectors ?s data) 0"
    using stored_csum_suffix [OF so [unfolded x(1)] x(2) _ items(2) [unfolded x(1)]] x(1)
    by (auto simp: sector_stored_def intro: check_sectors_cong)
  finally have loop: "verify_loop (advance ?rn) cursor_valid cursor_key cursor_data (csum_verify H (fs_csum_type fs)) ?w ?s lg (sectors ?s data) 0 0 c
      = Some (check_sectors (csum_verify H (fs_csum_type fs)) (sector_stored H fs root) ?s lg (sectors ?s data) 0)" .
  have "lg mod ?s = 0" "length data mod ?s = 0" "?s \<noteq> 0" using range by auto
  then show ?thesis using root(1) c(1) loop by (simp add: verify_data_def rbind_def split: sum.split)
qed

section \<open>Properties\<close>

text \<open>C9: verifying file data. On a consistent checksum tree whose checksum items do not overlap or wrap, and that has an item (of any
  kind) at or below the start of the range, the outcome of \<open>verify_data\<close> on whole sectors is determined sector by
  sector: it fails with a checksum mismatch exactly when some sector has a stored checksum that does not match,
  and otherwise reports exactly the number of sectors for which no checksum is stored. In particular it
  reports full verification only when every sector has a checksum and every checksum matches. A range that starts below
  every item of the tree is excluded; what happens there is the last property of this theory.\<close>

theorem verify_data_exact:
  assumes "fs_csum_tree fs = Some root" "tree_consistent (fs_read_node H fs, tr_bytenr root)"
    and "\<forall>x \<in> set (csum_items H fs root). csum_run x \<longrightarrow> csum_end (csum_size (fs_csum_type fs)) (fs_sector_size fs) x < 2 ^ 64"
    and "sorted_wrt (\<lambda>x y. csum_run x \<longrightarrow> csum_run y \<longrightarrow> csum_end (csum_size (fs_csum_type fs)) (fs_sector_size fs) x \<le> offset (fst y)) (csum_items H fs root)"
    and "\<exists>x \<in> set (csum_items H fs root). key_ord (fst x) \<le> key_ord (key_new EXTENT_CSUM_OBJECTID EXTENT_CSUM_KEY lg)"
    and "0 < fs_sector_size fs" "fs_sector_size fs dvd lg" "fs_sector_size fs dvd length data" "lg + length data < 2 ^ 64"
  shows "verify_data H fs lg data =
    (let s = fs_sector_size fs; n = length data div s in
     if \<exists>i < n. \<exists>st. sector_stored H fs root (lg + i * s) = Some st \<and> \<not> csum_verify H (fs_csum_type fs) st (slice data (i * s) s)
     then Some (Inl (FsChecksumMismatch ''btrfs file data''))
     else let u = card {i. i < n \<and> sector_stored H fs root (lg + i * s) = None}
          in Some (Inr (if u = 0 then VerifiedAll else VerifiedPartial u)))"
proof -
  let ?s = "fs_sector_size fs" and ?v = "csum_verify H (fs_csum_type fs)" and ?l = "sector_stored H fs root"
  let ?cs = "sectors ?s data"
  have len: "length ?cs = length data div ?s" and nth: "i < length data div ?s \<Longrightarrow> ?cs ! i = slice data (i * ?s) ?s" for i
    by (simp_all add: sectors_def)
  note v = verify_data_check [OF assms]
  show ?thesis
  proof (cases "check_sectors ?v ?l ?s lg ?cs 0")
    case (Inl e)
    then have "\<exists>i < length data div ?s. \<exists>st. ?l (lg + i * ?s) = Some st \<and> \<not> ?v st (slice data (i * ?s) ?s)"
      using check_sectors_mismatch [of ?v ?l ?s lg ?cs 0] len nth by auto
    then show ?thesis using v Inl check_sectors_error [OF Inl] by simp
  next
    case (Inr n)
    then have "\<not> (\<exists>i < length data div ?s. \<exists>st. ?l (lg + i * ?s) = Some st \<and> \<not> ?v st (slice data (i * ?s) ?s))"
      using check_sectors_mismatch [of ?v ?l ?s lg ?cs 0] len nth by auto
    then show ?thesis using v Inr check_sectors_count [OF Inr] len by (simp add: Let_def)
  qed
qed

text \<open>A checksum tree of one item: the checksum of one sector of four bytes at 16384.\<close>

definition csum_leaf :: leaf where
  "csum_leaf = (leaf_new 8192 7 7 (replicate 16 3) Crc32c)\<lparr>lf_items :=
     [\<lparr>li_key = key_new EXTENT_CSUM_OBJECTID EXTENT_CSUM_KEY 16384, li_data = le_bytes 4 (crc32c toy_hashes [1, 2, 3, 4])\<rparr>]\<rparr>"

abbreviation csum_fs :: btrfs where
  "csum_fs \<equiv> leaf_fs toy_hashes [csum_leaf] (\<lambda>_. 0) 8192"

lemma csum_leaf_on_fs: "on_leaf_fs csum_leaf"
  by (simp add: on_leaf_fs_def csum_leaf_def leaf_wf_def leaf_new_def leaf_pairs_def key_wf_def key_new_def
      EXTENT_CSUM_OBJECTID_def EXTENT_CSUM_KEY_def u64_max_def node_consts total_data_bytes_def HEADER_FLAG_WRITTEN_def)

lemma csum_fs_tree:
  "tree_consistent (fs_read_node toy_hashes csum_fs, 8192)"
  "tree_stored (fs_read_node toy_hashes csum_fs, 8192)
    = [(key_new EXTENT_CSUM_OBJECTID EXTENT_CSUM_KEY 16384, le_bytes 4 (crc32c toy_hashes [1, 2, 3, 4]))]"
proof -
  have f: "List.find (\<lambda>l. lf_bytenr l = 8192) [csum_leaf] = Some csum_leaf" by (simp add: csum_leaf_def leaf_new_def)
  show "tree_consistent (fs_read_node toy_hashes csum_fs, 8192)" by (rule leaf_fs_tree [OF toy_hashes_ok f csum_leaf_on_fs])
  show "tree_stored (fs_read_node toy_hashes csum_fs, 8192)
      = [(key_new EXTENT_CSUM_OBJECTID EXTENT_CSUM_KEY 16384, le_bytes 4 (crc32c toy_hashes [1, 2, 3, 4]))]"
    unfolding leaf_fs_tree(2) [OF toy_hashes_ok f csum_leaf_on_fs] by (simp add: leaf_pairs_def csum_leaf_def)
qed

lemma csum_fs_fields [simp]:
  "fs_csum_tree csum_fs = Some (leaf_root 7 8192)" "tr_bytenr (leaf_root 7 8192) = 8192" "fs_sector_size csum_fs = 4" "fs_csum_type csum_fs = Crc32c"
  by (simp_all add: leaf_fs_def leaf_root_def)

lemma two_sectors: "4 dvd Suc (Suc (Suc (Suc (Suc (Suc (Suc (Suc 0)))))))"
  by presburger

lemma csum_fs_stored:
  "sector_stored toy_hashes csum_fs (leaf_root 7 8192) t =
    (if 16384 \<le> t \<and> t < 16388 then Some (le_bytes 4 (crc32c toy_hashes [1, 2, 3, 4])) else None)"
proof -
  have "16384 \<le> t \<and> t < 16388 \<Longrightarrow> (t - 16384) div 4 = 0" by (simp add: div_eq_0_iff less_diff_conv2)
  then show ?thesis
    unfolding sector_stored_def csum_fs_fields csum_fs_tree(2) stored_csum_def
    by (auto simp: covers_sector_def csum_end_def of_run_def key_new_def csum_size_def slice_def)
qed

theorem verify_data_exact_witness:
  "verify_data toy_hashes csum_fs 16384 [1, 2, 3, 4, 9, 9, 9, 9] = Some (Inr (VerifiedPartial 1))"
proof -
  have verify: "csum_verify toy_hashes Crc32c (le_bytes 4 (crc32c toy_hashes [1, 2, 3, 4])) [1, 2, 3, 4]"
    using crc32c_bound [of toy_hashes "[1, 2, 3, 4]"] by (simp add: csum_verify_def slice_def bytes_simps)
  have no: "\<not> (\<exists>i < 2. \<exists>st. sector_stored toy_hashes csum_fs (leaf_root 7 8192) (16384 + i * 4) = Some st
      \<and> \<not> csum_verify toy_hashes Crc32c st (slice [1, 2, 3, 4, 9, 9, 9, 9] (i * 4) 4))"
    using verify by (auto simp: csum_fs_stored less_2_cases_iff slice_def split: if_splits)
  have un: "{i. i < 2 \<and> sector_stored toy_hashes csum_fs (leaf_root 7 8192) (16384 + i * 4) = None} = {1}"
    by (auto simp: csum_fs_stored less_2_cases_iff)
  have "verify_data toy_hashes csum_fs 16384 [1, 2, 3, 4, 9, 9, 9, 9] =
    (let s = fs_sector_size csum_fs; n = length [1, 2, 3, 4, 9, 9, 9, 9 :: byte] div s in
     if \<exists>i < n. \<exists>st. sector_stored toy_hashes csum_fs (leaf_root 7 8192) (16384 + i * s) = Some st
         \<and> \<not> csum_verify toy_hashes (fs_csum_type csum_fs) st (slice [1, 2, 3, 4, 9, 9, 9, 9] (i * s) s)
     then Some (Inl (FsChecksumMismatch ''btrfs file data''))
     else let u = card {i. i < n \<and> sector_stored toy_hashes csum_fs (leaf_root 7 8192) (16384 + i * s) = None}
          in Some (Inr (if u = 0 then VerifiedAll else VerifiedPartial u)))"
    by (rule verify_data_exact) (simp_all add: csum_fs_tree csum_end_def csum_size_def key_new_def two_sectors)
  then show ?thesis using no un by (simp add: Let_def)
qed

text \<open>C39: where verification does not look. When every item of the checksum tree lies above the start of the
  range, \<open>search_le\<close> leaves its cursor past the end and it is never moved: every sector is counted as
  unchecked and no stored checksum is compared, also for the sectors of the range that have one.\<close>

theorem verify_data_parked:
  assumes "fs_csum_tree fs = Some root" "tree_consistent (fs_read_node H fs, tr_bytenr root)"
    and "\<forall>x \<in> set (csum_items H fs root). key_ord (key_new EXTENT_CSUM_OBJECTID EXTENT_CSUM_KEY lg) < key_ord (fst x)"
    and "0 < fs_sector_size fs" "fs_sector_size fs dvd lg" "fs_sector_size fs dvd length data" "data \<noteq> []"
  shows "verify_data H fs lg data = Some (Inr (VerifiedPartial (length data div fs_sector_size fs)))"
proof -
  let ?s = "fs_sector_size fs" and ?rn = "fs_read_node H fs"
  obtain c where c: "search_le ?rn (tr_bytenr root) (key_new EXTENT_CSUM_OBJECTID EXTENT_CSUM_KEY lg) = Inr c" "\<not> cursor_valid c"
    using tree.seek_le_none [OF assms(2,3)] by auto
  have seek: "csum_seek (advance ?rn) cursor_valid cursor_key cursor_data w ?s t c = Some (Inr c)" for w t
    using c(2) by (subst csum_seek.simps) simp
  have loop: "verify_loop (advance ?rn) cursor_valid cursor_key cursor_data v w ?s lg cs i u c = Some (Inr (u + length cs))" for v w cs i u
    by (induction cs arbitrary: i u) (simp_all add: Let_def seek csum_at_def c(2))
  have "?s \<le> length data" using assms(6,7) by (simp add: dvd_imp_le)
  then have "0 < length data div ?s" using assms(4) by (simp add: div_greater_zero_iff)
  then show ?thesis using assms(1,4-6) c(1) loop by (simp add: verify_data_def sectors_def dvd_eq_mod_eq_0)
qed

theorem verify_data_parked_witness:
  "verify_data toy_hashes csum_fs 16380 [0, 0, 0, 0, 9, 9, 9, 9] = Some (Inr (VerifiedPartial 2))
    \<and> sector_stored toy_hashes csum_fs (leaf_root 7 8192) 16384 = Some (le_bytes 4 (crc32c toy_hashes [1, 2, 3, 4]))"
proof -
  have "verify_data toy_hashes csum_fs 16380 [0, 0, 0, 0, 9, 9, 9, 9]
      = Some (Inr (VerifiedPartial (length [0, 0, 0, 0, 9, 9, 9, 9 :: byte] div fs_sector_size csum_fs)))"
    by (rule verify_data_parked [where root = "leaf_root 7 8192"]) (simp_all add: csum_fs_tree key_ord_def key_new_def two_sectors)
  then show ?thesis by (simp add: csum_fs_stored)
qed

end
