(* ===== verification/Node_Cache.thy ===== *)
theory Node_Cache
  imports Data_Verify
begin

text \<open>
  The cache of parsed tree nodes (\<open>core/src/fs/btrfs/cache.rs\<close>) and the reads it serves: \<open>Btrfs::read_node\<close> with the node cache and
  the pending blocks of an open batch, and what the write path does to both: a batch is opened, taken out of the mount, filled, rolled back,
  re-armed, put back, dropped or discarded, data is written, and a commit updates the mount (\<open>btrfs/mod.rs\<close>, \<open>write/batch.rs\<close>,
  \<open>write/file.rs\<close>, \<open>write/commit.rs\<close>, \<open>write/mod.rs\<close>). The result: over any sequence of these steps a read gives what it would
  give without the caches.
\<close>

section \<open>The cache\<close>

definition BUDGET_BYTES :: nat where "BUDGET_BYTES = 2 * 1024 * 1024"
definition MIN_ENTRIES :: nat where "MIN_ENTRIES = 16"

record node_cache =
  nc_nodes :: "nat \<rightharpoonup> node"
  nc_order :: "nat list"
  nc_hits :: nat
  nc_misses :: nat
  nc_capacity :: nat

definition cache_new :: "nat \<Rightarrow> node_cache" where
  "cache_new node_size =
     \<lparr>nc_nodes = Map.empty, nc_order = [], nc_hits = 0, nc_misses = 0, nc_capacity = max (BUDGET_BYTES div max node_size 1) MIN_ENTRIES\<rparr>"

definition cache_get :: "node_cache \<Rightarrow> nat \<Rightarrow> node option \<times> node_cache" where
  "cache_get c b =
     (case nc_nodes c b of
        Some n \<Rightarrow> (Some n, c\<lparr>nc_hits := add64 (nc_hits c) 1\<rparr>)
      | None \<Rightarrow> (None, c\<lparr>nc_misses := add64 (nc_misses c) 1\<rparr>))"

fun evict :: "nat \<Rightarrow> nat list \<Rightarrow> (nat \<rightharpoonup> node) \<Rightarrow> nat list \<times> (nat \<rightharpoonup> node)" where
  "evict cap [] ns = ([], ns)"
| "evict cap (old # order) ns = (if length (old # order) \<ge> cap then evict cap order (ns(old := None)) else (old # order, ns))"

definition cache_insert :: "node_cache \<Rightarrow> nat \<Rightarrow> node \<Rightarrow> node_cache" where
  "cache_insert c b n =
     (if nc_nodes c b \<noteq> None then c
      else case evict (nc_capacity c) (nc_order c) (nc_nodes c) of
          (order, ns) \<Rightarrow> c\<lparr>nc_order := order @ [b], nc_nodes := ns(b \<mapsto> n)\<rparr>)"

definition cache_stats :: "node_cache \<Rightarrow> nat \<times> nat" where
  "cache_stats c = (nc_hits c, nc_misses c)"

definition cache_clear :: "node_cache \<Rightarrow> node_cache" where
  "cache_clear c = c\<lparr>nc_nodes := Map.empty, nc_order := []\<rparr>"

definition cache_wf :: "node_cache \<Rightarrow> bool" where
  "cache_wf c \<longleftrightarrow> distinct (nc_order c) \<and> set (nc_order c) = dom (nc_nodes c) \<and> length (nc_order c) \<le> nc_capacity c \<and> MIN_ENTRIES \<le> nc_capacity c"

lemma evict_keeps:
  assumes "evict cap order ns = (order', ns')" "distinct order" "set order = dom ns"
  shows "distinct order'" "set order' = dom ns'" "length order' < cap \<or> order' = []" "ns' \<subseteq>\<^sub>m ns" "\<exists>old. order = old @ order'"
proof -
  have "distinct order' \<and> set order' = dom ns' \<and> (length order' < cap \<or> order' = []) \<and> ns' \<subseteq>\<^sub>m ns \<and> (\<exists>old. order = old @ order')"
    using assms
  proof (induction order arbitrary: ns)
    case (Cons a order)
    show ?case
    proof (cases "length (a # order) \<ge> cap")
      case True
      then have e: "evict cap order (ns(a := None)) = (order', ns')" "set order = dom (ns(a := None))" using Cons.prems by auto
      then have *: "distinct order' \<and> set order' = dom ns' \<and> (length order' < cap \<or> order' = []) \<and> ns' \<subseteq>\<^sub>m ns(a := None) \<and> (\<exists>old. order = old @ order')"
        by (intro Cons.IH [OF e(1) _ e(2)]) (use Cons.prems(2) in simp)
      then have "ns' \<subseteq>\<^sub>m ns" by (auto simp: map_le_def fun_upd_apply split: if_split_asm)
      then show ?thesis using * by (metis append_Cons)
    next
      case False
      then show ?thesis using Cons.prems by auto
    qed
  qed auto
  then show "distinct order'" "set order' = dom ns'" "length order' < cap \<or> order' = []" "ns' \<subseteq>\<^sub>m ns" "\<exists>old. order = old @ order'" by auto
qed

text \<open>Every operation keeps the cache well formed; what it holds was held before or is the node just inserted.\<close>

lemma cache_new_wf [simp]: "cache_wf (cache_new n)" "nc_nodes (cache_new n) = Map.empty"
  by (simp_all add: cache_wf_def cache_new_def)

lemma cache_clear_wf: "cache_wf c \<Longrightarrow> cache_wf (cache_clear c)" "nc_nodes (cache_clear c) = Map.empty"
  by (simp_all add: cache_wf_def cache_clear_def)

lemma cache_get_wf:
  "cache_wf (snd (cache_get c b)) = cache_wf c" "nc_nodes (snd (cache_get c b)) = nc_nodes c" "fst (cache_get c b) = nc_nodes c b"
  by (simp_all add: cache_get_def cache_wf_def split: option.split)

lemma cache_insert_wf:
  assumes "cache_wf c"
  shows "cache_wf (cache_insert c b n)" "nc_nodes (cache_insert c b n) x = Some m \<Longrightarrow> nc_nodes c x = Some m \<or> x = b \<and> m = n"
proof -
  obtain order ns where e: "evict (nc_capacity c) (nc_order c) (nc_nodes c) = (order, ns)" by fastforce
  note k = evict_keeps [OF e]
  have w: "distinct (nc_order c)" "set (nc_order c) = dom (nc_nodes c)" "MIN_ENTRIES \<le> nc_capacity c" using assms by (auto simp: cache_wf_def)
  have cap: "length order < nc_capacity c" using k(3) [OF w(1,2)] w(3) by (auto simp: MIN_ENTRIES_def)
  have fresh: "b \<notin> set order" if "nc_nodes c b = None" using k(5) [OF w(1,2)] w(2) that by (metis UnI2 domIff set_append)
  show "cache_wf (cache_insert c b n)"
    using assms cap fresh k(1,2) [OF w(1,2)] w(3) by (auto simp: cache_insert_def e cache_wf_def)
  show "nc_nodes c x = Some m \<or> x = b \<and> m = n" if "nc_nodes (cache_insert c b n) x = Some m"
    using that k(4) [OF w(1,2)] by (auto simp: cache_insert_def e map_le_def dom_def split: if_split_asm)
qed

section \<open>Reading nodes\<close>

record pending_batch =
  pb_blocks :: "nat \<rightharpoonup> bytes"
  pb_nodes :: "nat \<rightharpoonup> nat \<times> node"

text \<open>\<open>cf_batch\<close> is the field \<open>active_batch\<close> of the mount. \<open>cf_held\<close> is the batch that \<open>finish_file\<close>, \<open>abandon_file\<close> or
  \<open>commit_active_batch\<close> has taken out of that field into its local variable: reads do not see it until it is put back.\<close>

record cached_fs =
  cf_fs :: btrfs
  cf_nodes :: node_cache
  cf_batch :: "pending_batch option"
  cf_held :: "pending_batch option"

definition block_csum :: "bytes \<Rightarrow> nat" where
  "block_csum blk = (if length blk \<ge> 4 then u32le blk 0 else 0)"

definition pending_read :: "hashes \<Rightarrow> cached_fs \<Rightarrow> pending_batch \<Rightarrow> bytes \<Rightarrow> nat \<Rightarrow> node result \<times> cached_fs" where
  "pending_read H cf b blk lg =
     (let csum = block_csum blk;
          parsed = (case node_parse H blk lg (fs_csum_type (cf_fs cf)) (fs_metadata_uuid (cf_fs cf)) of
             Inl e \<Rightarrow> (Inl e, cf)
           | Inr n \<Rightarrow> (Inr n, cf\<lparr>cf_batch := Some (b\<lparr>pb_nodes := (pb_nodes b)(lg \<mapsto> (csum, n))\<rparr>)\<rparr>))
      in case pb_nodes b lg of
           Some (c, n) \<Rightarrow> if c = csum then (Inr n, cf) else parsed
         | None \<Rightarrow> parsed)"

definition stored_read :: "hashes \<Rightarrow> cached_fs \<Rightarrow> nat \<Rightarrow> node result \<times> cached_fs" where
  "stored_read H cf lg =
     (case cache_get (cf_nodes cf) lg of
        (Some n, c) \<Rightarrow> (Inr n, cf\<lparr>cf_nodes := c\<rparr>)
      | (None, c) \<Rightarrow>
          (case fs_read_node H (cf_fs cf) lg of
             Inl e \<Rightarrow> (Inl e, cf\<lparr>cf_nodes := c\<rparr>)
           | Inr n \<Rightarrow> (Inr n, cf\<lparr>cf_nodes := cache_insert c lg n\<rparr>)))"

definition cached_read_node :: "hashes \<Rightarrow> cached_fs \<Rightarrow> nat \<Rightarrow> node result \<times> cached_fs" where
  "cached_read_node H cf lg =
     (case cf_batch cf of
        None \<Rightarrow> stored_read H cf lg
      | Some b \<Rightarrow> (case pb_blocks b lg of Some blk \<Rightarrow> pending_read H cf b blk lg | None \<Rightarrow> stored_read H cf lg))"

section \<open>Tree roots\<close>

definition ROOT_ITEM_KEY :: nat where "ROOT_ITEM_KEY = 132"
definition FS_TREE_OBJECTID :: nat where "FS_TREE_OBJECTID = 5"
definition CSUM_TREE_OBJECTID :: nat where "CSUM_TREE_OBJECTID = 7"

text \<open>\<open>Btrfs::tree_root\<close>: the last root item of a tree, searched backwards from the largest offset.\<close>

definition tree_root_of :: "(nat \<Rightarrow> node result) \<Rightarrow> nat \<Rightarrow> nat \<Rightarrow> tree_root result" where
  "tree_root_of rn sb_root oid =
     rbind (search_le rn sb_root (key_new oid ROOT_ITEM_KEY u64_max)) (\<lambda>c.
       if \<not> cursor_valid c then Inl (CorruptFs ''btrfs root item is missing'')
       else rbind (cursor_key c) (\<lambda>found.
         if objectid found \<noteq> oid \<or> item_type found \<noteq> ROOT_ITEM_KEY then Inl (CorruptFs ''btrfs root item is missing'')
         else rbind (cursor_data c) (\<lambda>data.
           if length data < 239 then Inl (CorruptFs ''btrfs root item truncated'')
           else Inr \<lparr>tr_objectid = oid, tr_bytenr = u64le data 176, tr_level = unat (data ! 238), tr_root_dirid = u64le data 168,
                     tr_generation = u64le data 160, tr_flags = u64le data 208\<rparr>)))"

section \<open>Batches and commits\<close>

definition cached_mount :: "btrfs \<Rightarrow> cached_fs" where
  "cached_mount fs = \<lparr>cf_fs = fs, cf_nodes = cache_new (fs_node_size fs), cf_batch = None, cf_held = None\<rparr>"

definition batch_new :: pending_batch where
  "batch_new = \<lparr>pb_blocks = Map.empty, pb_nodes = Map.empty\<rparr>"

definition batch_rollback :: "pending_batch \<Rightarrow> (nat \<rightharpoonup> bytes) \<Rightarrow> pending_batch" where
  "batch_rollback b mark = b\<lparr>pb_blocks := mark, pb_nodes := Map.empty\<rparr>"

text \<open>What \<open>commit_and_rearm\<close> leaves of the pending blocks: they move into the transaction; the parsed nodes stay where they are.\<close>

definition batch_rearm :: "pending_batch \<Rightarrow> pending_batch" where
  "batch_rearm b = b\<lparr>pb_blocks := Map.empty\<rparr>"

text \<open>The fields of the superblock that the mount uses (\<open>self.sb\<close>), and \<open>update_mount_state\<close>: the superblock is replaced, the filesystem
  tree only when the committed tree is the top-level one, the node cache is emptied and the checksum tree is looked up anew, through the
  reads of the mount itself. The active batch is not touched. The nodes that this lookup leaves in the cache are those of \<open>ReadNode\<close>
  steps right after the commit.\<close>

record sb_view =
  sbv_root :: nat
  sbv_node_size :: nat
  sbv_sector_size :: nat
  sbv_csum_type :: csum_type
  sbv_metadata_uuid :: bytes

definition sb_of :: "btrfs \<Rightarrow> sb_view" where
  "sb_of fs = \<lparr>sbv_root = fs_sb_root fs, sbv_node_size = fs_node_size fs, sbv_sector_size = fs_sector_size fs,
     sbv_csum_type = fs_csum_type fs, sbv_metadata_uuid = fs_metadata_uuid fs\<rparr>"

definition set_sb :: "btrfs \<Rightarrow> sb_view \<Rightarrow> btrfs" where
  "set_sb fs sb = fs\<lparr>fs_sb_root := sbv_root sb, fs_node_size := sbv_node_size sb, fs_sector_size := sbv_sector_size sb,
     fs_csum_type := sbv_csum_type sb, fs_metadata_uuid := sbv_metadata_uuid sb\<rparr>"

definition ok_of :: "'a result \<Rightarrow> 'a option" where
  "ok_of r = (case r of Inl _ \<Rightarrow> None | Inr x \<Rightarrow> Some x)"

definition set_roots :: "btrfs \<Rightarrow> sb_view \<Rightarrow> tree_root \<Rightarrow> btrfs" where
  "set_roots fs sb ft = (if tr_objectid ft = FS_TREE_OBJECTID then (set_sb fs sb)\<lparr>fs_fs_tree := ft\<rparr> else set_sb fs sb)"

definition update_mount_state :: "hashes \<Rightarrow> cached_fs \<Rightarrow> sb_view \<Rightarrow> tree_root \<Rightarrow> cached_fs" where
  "update_mount_state H cf sb ft =
     (let cf = cf\<lparr>cf_fs := set_roots (cf_fs cf) sb ft, cf_nodes := cache_clear (cf_nodes cf)\<rparr>;
          csum = ok_of (tree_root_of (\<lambda>lg. fst (cached_read_node H cf lg)) (fs_sb_root (cf_fs cf)) CSUM_TREE_OBJECTID)
      in cf\<lparr>cf_fs := (cf_fs cf)\<lparr>fs_csum_tree := csum\<rparr>\<rparr>)"

text \<open>The end of a successful \<open>commit_transaction\<close>: \<open>dev\<close> is what the device reads once the blocks of the transaction and the superblocks
  are written; the new superblock is the old one with the new root of the root tree.\<close>

definition commit_mount :: "hashes \<Rightarrow> cached_fs \<Rightarrow> (nat \<Rightarrow> nat \<Rightarrow> bytes result) \<Rightarrow> nat \<Rightarrow> tree_root \<Rightarrow> cached_fs" where
  "commit_mount H cf dev root ft =
     update_mount_state H (cf\<lparr>cf_fs := (cf_fs cf)\<lparr>fs_device := dev\<rparr>\<rparr>) ((sb_of (cf_fs cf))\<lparr>sbv_root := root\<rparr>) ft"

text \<open>The steps of the write path, in the terms of \<open>finish_file\<close>, \<open>abandon_file\<close>, \<open>commit_active_batch\<close> and \<open>discard_active_batch\<close>.
  A file that is added and then committed with re-arming is \<open>TakeBatch\<close>, the staged blocks, \<open>RearmBatch\<close>, the reads of
  \<open>converge_and_finalize\<close>, \<open>Commit\<close> and \<open>PutBatch\<close>; \<open>commit_active_batch\<close> is \<open>TakeBatch\<close>, \<open>DropBatch\<close> (the batch is consumed), reads and
  \<open>Commit\<close>. \<open>WriteDevice\<close> is a write to the device that is not a completed commit: the data of a file, or the part of a
  commit that was written before it failed; the failed commit's batch goes with \<open>DropBatch\<close>.\<close>

datatype fs_step =
    ReadNode nat
  | OpenBatch
  | TakeBatch
  | PutBatch
  | DropBatch
  | DiscardBatch
  | StageBlock nat bytes
  | UnstageBlock nat
  | Rollback "nat \<rightharpoonup> bytes"
  | RearmBatch
  | WriteDevice "nat \<Rightarrow> nat \<Rightarrow> bytes result"
  | Commit "nat \<Rightarrow> nat \<Rightarrow> bytes result" nat tree_root

definition on_held :: "(pending_batch \<Rightarrow> pending_batch) \<Rightarrow> cached_fs \<Rightarrow> cached_fs" where
  "on_held f cf = cf\<lparr>cf_held := map_option f (cf_held cf)\<rparr>"

definition cached_step :: "hashes \<Rightarrow> cached_fs \<Rightarrow> fs_step \<Rightarrow> node result option \<times> cached_fs" where
  "cached_step H cf s =
     (case s of
        ReadNode lg \<Rightarrow> (case cached_read_node H cf lg of (r, cf) \<Rightarrow> (Some r, cf))
      | OpenBatch \<Rightarrow> (None, cf\<lparr>cf_batch := Some batch_new\<rparr>)
      | TakeBatch \<Rightarrow> (None, cf\<lparr>cf_held := cf_batch cf, cf_batch := None\<rparr>)
      | PutBatch \<Rightarrow> (None, cf\<lparr>cf_batch := cf_held cf, cf_held := None\<rparr>)
      | DropBatch \<Rightarrow> (None, cf\<lparr>cf_held := None\<rparr>)
      | DiscardBatch \<Rightarrow> (None, cf\<lparr>cf_batch := None\<rparr>)
      | StageBlock lg blk \<Rightarrow> (None, on_held (\<lambda>b. b\<lparr>pb_blocks := (pb_blocks b)(lg \<mapsto> blk)\<rparr>) cf)
      | UnstageBlock lg \<Rightarrow> (None, on_held (\<lambda>b. b\<lparr>pb_blocks := (pb_blocks b)(lg := None)\<rparr>) cf)
      | Rollback mark \<Rightarrow> (None, on_held (\<lambda>b. batch_rollback b mark) cf)
      | RearmBatch \<Rightarrow> (None, on_held batch_rearm cf)
      | WriteDevice dev \<Rightarrow> (None, cf\<lparr>cf_fs := (cf_fs cf)\<lparr>fs_device := dev\<rparr>\<rparr>)
      | Commit dev root ft \<Rightarrow> (None, commit_mount H cf dev root ft))"

fun cached_run :: "hashes \<Rightarrow> cached_fs \<Rightarrow> fs_step list \<Rightarrow> node result option list \<times> cached_fs" where
  "cached_run H cf [] = ([], cf)"
| "cached_run H cf (s # ss) = (case cached_step H cf s of (r, cf) \<Rightarrow> (case cached_run H cf ss of (rs, cf) \<Rightarrow> (r # rs, cf)))"

section \<open>The specification\<close>

text \<open>A mount without caches: the filesystem, the blocks staged in the active batch, and those of the batch that was taken out.\<close>

record plain_fs =
  pf_fs :: btrfs
  pf_active :: "(nat \<rightharpoonup> bytes) option"
  pf_taken :: "(nat \<rightharpoonup> bytes) option"

definition uncached_read :: "hashes \<Rightarrow> plain_fs \<Rightarrow> nat \<Rightarrow> node result" where
  "uncached_read H p lg =
     (case Option.bind (pf_active p) (\<lambda>m. m lg) of
        Some blk \<Rightarrow> node_parse H blk lg (fs_csum_type (pf_fs p)) (fs_metadata_uuid (pf_fs p))
      | None \<Rightarrow> fs_read_node H (pf_fs p) lg)"

definition plain_commit :: "hashes \<Rightarrow> plain_fs \<Rightarrow> (nat \<Rightarrow> nat \<Rightarrow> bytes result) \<Rightarrow> nat \<Rightarrow> tree_root \<Rightarrow> plain_fs" where
  "plain_commit H p dev root ft =
     (let fs = (pf_fs p)\<lparr>fs_device := dev, fs_sb_root := root, fs_fs_tree := if tr_objectid ft = 5 then ft else fs_fs_tree (pf_fs p)\<rparr>
      in p\<lparr>pf_fs := fs\<lparr>fs_csum_tree := ok_of (tree_root_of (uncached_read H (p\<lparr>pf_fs := fs\<rparr>)) root 7)\<rparr>\<rparr>)"

fun plain_step :: "hashes \<Rightarrow> plain_fs \<Rightarrow> fs_step \<Rightarrow> node result option \<times> plain_fs" where
  "plain_step H p (ReadNode lg) = (Some (uncached_read H p lg), p)"
| "plain_step H p OpenBatch = (None, p\<lparr>pf_active := Some Map.empty\<rparr>)"
| "plain_step H p TakeBatch = (None, p\<lparr>pf_active := None, pf_taken := pf_active p\<rparr>)"
| "plain_step H p PutBatch = (None, p\<lparr>pf_active := pf_taken p, pf_taken := None\<rparr>)"
| "plain_step H p DropBatch = (None, p\<lparr>pf_taken := None\<rparr>)"
| "plain_step H p DiscardBatch = (None, p\<lparr>pf_active := None\<rparr>)"
| "plain_step H p (StageBlock lg blk) = (None, p\<lparr>pf_taken := map_option (\<lambda>m. m(lg \<mapsto> blk)) (pf_taken p)\<rparr>)"
| "plain_step H p (UnstageBlock lg) = (None, p\<lparr>pf_taken := map_option (\<lambda>m. m(lg := None)) (pf_taken p)\<rparr>)"
| "plain_step H p (Rollback mark) = (None, p\<lparr>pf_taken := map_option (\<lambda>_. mark) (pf_taken p)\<rparr>)"
| "plain_step H p RearmBatch = (None, p\<lparr>pf_taken := map_option (\<lambda>_. Map.empty) (pf_taken p)\<rparr>)"
| "plain_step H p (WriteDevice dev) = (None, p\<lparr>pf_fs := (pf_fs p)\<lparr>fs_device := dev\<rparr>\<rparr>)"
| "plain_step H p (Commit dev root ft) = (None, plain_commit H p dev root ft)"

fun plain_run :: "hashes \<Rightarrow> plain_fs \<Rightarrow> fs_step list \<Rightarrow> node result option list \<times> plain_fs" where
  "plain_run H p [] = ([], p)"
| "plain_run H p (s # ss) = (case plain_step H p s of (r, p) \<Rightarrow> (case plain_run H p ss of (rs, p) \<Rightarrow> (r # rs, p)))"

definition plain_mount :: "btrfs \<Rightarrow> plain_fs" where
  "plain_mount fs = \<lparr>pf_fs = fs, pf_active = None, pf_taken = None\<rparr>"

definition plain_of :: "cached_fs \<Rightarrow> plain_fs" where
  "plain_of cf = \<lparr>pf_fs = cf_fs cf, pf_active = map_option pb_blocks (cf_batch cf), pf_taken = map_option pb_blocks (cf_held cf)\<rparr>"

text \<open>\<open>S\<close> is the set of blocks that are ever staged, with their addresses: two versions of a block at one address are told apart by
  the first four bytes of their checksum. \<open>N\<close> is the set of addresses that nodes are read from: a write outside a commit
  leaves every node that could be read there as it was (copy on write: such writes go to free space).\<close>

definition csums_distinct :: "(nat \<times> bytes) set \<Rightarrow> bool" where
  "csums_distinct S \<longleftrightarrow> (\<forall>lg a b. (lg, a) \<in> S \<longrightarrow> (lg, b) \<in> S \<longrightarrow> block_csum a = block_csum b \<longrightarrow> a = b)"

definition nodes_kept :: "hashes \<Rightarrow> nat set \<Rightarrow> btrfs \<Rightarrow> (nat \<Rightarrow> nat \<Rightarrow> bytes result) \<Rightarrow> bool" where
  "nodes_kept H N fs dev \<longleftrightarrow> (\<forall>lg \<in> N. \<forall>n. fs_read_node H fs lg = Inr n \<longrightarrow> fs_read_node H (fs\<lparr>fs_device := dev\<rparr>) lg = Inr n)"

fun step_within :: "hashes \<Rightarrow> nat set \<Rightarrow> (nat \<times> bytes) set \<Rightarrow> btrfs \<Rightarrow> fs_step \<Rightarrow> bool" where
  "step_within H N S fs (ReadNode lg) \<longleftrightarrow> lg \<in> N"
| "step_within H N S fs (StageBlock lg blk) \<longleftrightarrow> (lg, blk) \<in> S"
| "step_within H N S fs (Rollback mark) \<longleftrightarrow> (\<forall>lg blk. mark lg = Some blk \<longrightarrow> (lg, blk) \<in> S)"
| "step_within H N S fs (WriteDevice dev) \<longleftrightarrow> nodes_kept H N fs dev"
| "step_within H N S fs _ \<longleftrightarrow> True"

fun run_within :: "hashes \<Rightarrow> nat set \<Rightarrow> (nat \<times> bytes) set \<Rightarrow> plain_fs \<Rightarrow> fs_step list \<Rightarrow> bool" where
  "run_within H N S p [] \<longleftrightarrow> True"
| "run_within H N S p (s # ss) \<longleftrightarrow> step_within H N S (pf_fs p) s \<and> run_within H N S (snd (plain_step H p s)) ss"

definition batch_sound :: "hashes \<Rightarrow> (nat \<times> bytes) set \<Rightarrow> btrfs \<Rightarrow> pending_batch \<Rightarrow> bool" where
  "batch_sound H S fs b \<longleftrightarrow> (\<forall>lg blk. pb_blocks b lg = Some blk \<longrightarrow> (lg, blk) \<in> S)
     \<and> (\<forall>lg c n. pb_nodes b lg = Some (c, n) \<longrightarrow>
          (\<exists>blk. (lg, blk) \<in> S \<and> block_csum blk = c \<and> node_parse H blk lg (fs_csum_type fs) (fs_metadata_uuid fs) = Inr n))"

definition nodes_sound :: "hashes \<Rightarrow> nat set \<Rightarrow> btrfs \<Rightarrow> node_cache \<Rightarrow> bool" where
  "nodes_sound H N fs c \<longleftrightarrow> cache_wf c \<and> (\<forall>lg n. nc_nodes c lg = Some n \<longrightarrow> lg \<in> N \<and> fs_read_node H fs lg = Inr n)"

definition cache_sound :: "hashes \<Rightarrow> nat set \<Rightarrow> (nat \<times> bytes) set \<Rightarrow> cached_fs \<Rightarrow> bool" where
  "cache_sound H N S cf \<longleftrightarrow> nodes_sound H N (cf_fs cf) (cf_nodes cf)
     \<and> pred_option (batch_sound H S (cf_fs cf)) (cf_batch cf) \<and> pred_option (batch_sound H S (cf_fs cf)) (cf_held cf)"

section \<open>Simulation\<close>

lemma batch_sound_cong:
  "fs_csum_type fs' = fs_csum_type fs \<Longrightarrow> fs_metadata_uuid fs' = fs_metadata_uuid fs \<Longrightarrow> batch_sound H S fs' = batch_sound H S fs"
  by (simp add: batch_sound_def fun_eq_iff)

lemma stored_read_sound:
  assumes "nodes_sound H N (cf_fs cf) (cf_nodes cf)"
  shows "fst (stored_read H cf lg) = fs_read_node H (cf_fs cf) lg" "\<exists>c. snd (stored_read H cf lg) = cf\<lparr>cf_nodes := c\<rparr> \<and> (lg \<in> N \<longrightarrow> nodes_sound H N (cf_fs cf) c)"
proof -
  obtain c where g: "cache_get (cf_nodes cf) lg = (nc_nodes (cf_nodes cf) lg, c)" by (metis cache_get_wf(3) prod.collapse)
  have w: "cache_wf c" "nc_nodes c = nc_nodes (cf_nodes cf)"
    using assms cache_get_wf [of "cf_nodes cf" lg] by (auto simp: nodes_sound_def g)
  then have c: "nodes_sound H N (cf_fs cf) c" using assms by (simp add: nodes_sound_def)
  have ins: "nodes_sound H N (cf_fs cf) (cache_insert c lg n)" if "lg \<in> N" "fs_read_node H (cf_fs cf) lg = Inr n" for n
    using cache_insert_wf [OF w(1), of lg n] c that by (auto simp: nodes_sound_def)
  have hit: "fs_read_node H (cf_fs cf) lg = Inr n" if "nc_nodes (cf_nodes cf) lg = Some n" for n using that assms by (simp add: nodes_sound_def)
  show "fst (stored_read H cf lg) = fs_read_node H (cf_fs cf) lg"
    unfolding stored_read_def g using hit by (auto split: option.split sum.split)
  show "\<exists>c. snd (stored_read H cf lg) = cf\<lparr>cf_nodes := c\<rparr> \<and> (lg \<in> N \<longrightarrow> nodes_sound H N (cf_fs cf) c)"
    unfolding stored_read_def g using c ins
    by (cases "nc_nodes (cf_nodes cf) lg"; cases "fs_read_node H (cf_fs cf) lg") auto
qed

lemma pending_read_sound:
  assumes S: "csums_distinct S" and bs: "batch_sound H S (cf_fs cf) b" and b: "cf_batch cf = Some b" "pb_blocks b lg = Some blk"
  shows "fst (pending_read H cf b blk lg) = node_parse H blk lg (fs_csum_type (cf_fs cf)) (fs_metadata_uuid (cf_fs cf))"
    "\<exists>b'. snd (pending_read H cf b blk lg) = cf\<lparr>cf_batch := Some b'\<rparr> \<and> batch_sound H S (cf_fs cf) b' \<and> pb_blocks b' = pb_blocks b"
proof -
  let ?parse = "\<lambda>blk. node_parse H blk lg (fs_csum_type (cf_fs cf)) (fs_metadata_uuid (cf_fs cf))"
  have blk: "(lg, blk) \<in> S" using bs b(2) by (simp add: batch_sound_def)
  have hit: "?parse blk = Inr n" if "pb_nodes b lg = Some (block_csum blk, n)" for n
    using bs that blk S by (metis (no_types, lifting) batch_sound_def csums_distinct_def)
  have new: "batch_sound H S (cf_fs cf) (b\<lparr>pb_nodes := (pb_nodes b)(lg \<mapsto> (block_csum blk, n))\<rparr>)" if "?parse blk = Inr n" for n
    using bs that blk by (auto simp: batch_sound_def)
  show "fst (pending_read H cf b blk lg) = ?parse blk"
    using hit by (auto simp: pending_read_def Let_def split: option.split sum.split)
  have same: "cf = cf\<lparr>cf_batch := Some b\<rparr>" using b(1) by simp
  have "snd (pending_read H cf b blk lg) = cf
      \<or> (\<exists>n. ?parse blk = Inr n \<and> snd (pending_read H cf b blk lg) = cf\<lparr>cf_batch := Some (b\<lparr>pb_nodes := (pb_nodes b)(lg \<mapsto> (block_csum blk, n))\<rparr>)\<rparr>)"
    by (auto simp: pending_read_def Let_def split: option.split sum.split)
  then show "\<exists>b'. snd (pending_read H cf b blk lg) = cf\<lparr>cf_batch := Some b'\<rparr> \<and> batch_sound H S (cf_fs cf) b' \<and> pb_blocks b' = pb_blocks b"
  proof (elim disjE exE conjE)
    assume "snd (pending_read H cf b blk lg) = cf"
    then show ?thesis using same bs by (intro exI [of _ b]) simp
  next
    fix n assume "?parse blk = Inr n" "snd (pending_read H cf b blk lg) = cf\<lparr>cf_batch := Some (b\<lparr>pb_nodes := (pb_nodes b)(lg \<mapsto> (block_csum blk, n))\<rparr>)\<rparr>"
    then show ?thesis using new [of n] by (intro exI [of _ "b\<lparr>pb_nodes := (pb_nodes b)(lg \<mapsto> (block_csum blk, n))\<rparr>"]) simp
  qed
qed

lemma cached_read_sound:
  assumes "csums_distinct S" "cache_sound H N S cf"
  shows "fst (cached_read_node H cf lg) = uncached_read H (plain_of cf) lg" "plain_of (snd (cached_read_node H cf lg)) = plain_of cf"
    "lg \<in> N \<Longrightarrow> cache_sound H N S (snd (cached_read_node H cf lg))"
proof -
  have s: "nodes_sound H N (cf_fs cf) (cf_nodes cf)" "pred_option (batch_sound H S (cf_fs cf)) (cf_held cf)"
    using assms(2) by (simp_all add: cache_sound_def)
  have "fst (cached_read_node H cf lg) = uncached_read H (plain_of cf) lg \<and> plain_of (snd (cached_read_node H cf lg)) = plain_of cf
      \<and> (lg \<in> N \<longrightarrow> cache_sound H N S (snd (cached_read_node H cf lg)))"
  proof (cases "\<exists>b blk. cf_batch cf = Some b \<and> pb_blocks b lg = Some blk")
    case True
    then obtain b blk where b: "cf_batch cf = Some b" "pb_blocks b lg = Some blk" by blast
    have bs: "batch_sound H S (cf_fs cf) b" using assms(2) b(1) by (simp add: cache_sound_def)
    obtain b' where b': "snd (pending_read H cf b blk lg) = cf\<lparr>cf_batch := Some b'\<rparr>" "batch_sound H S (cf_fs cf) b'" "pb_blocks b' = pb_blocks b"
      using pending_read_sound(2) [OF assms(1) bs b] by blast
    then show ?thesis using pending_read_sound(1) [OF assms(1) bs b] s b
      by (simp add: cached_read_node_def uncached_read_def plain_of_def cache_sound_def)
  next
    case False
    then have e: "cached_read_node H cf lg = stored_read H cf lg" "uncached_read H (plain_of cf) lg = fs_read_node H (cf_fs cf) lg"
      by (auto simp: cached_read_node_def uncached_read_def plain_of_def split: option.split bind_split)
    obtain c where "snd (stored_read H cf lg) = cf\<lparr>cf_nodes := c\<rparr>" "lg \<in> N \<longrightarrow> nodes_sound H N (cf_fs cf) c"
      using stored_read_sound(2) [OF s(1)] by blast
    then show ?thesis using stored_read_sound(1) [OF s(1)] assms(2) unfolding e by (simp add: plain_of_def cache_sound_def)
  qed
  then show "fst (cached_read_node H cf lg) = uncached_read H (plain_of cf) lg" "plain_of (snd (cached_read_node H cf lg)) = plain_of cf"
    "lg \<in> N \<Longrightarrow> cache_sound H N S (snd (cached_read_node H cf lg))" by auto
qed

text \<open>A commit: the emptied cache is sound for the new state, and both batches stay sound because the checksum type and the
  metadata UUID are those of the old superblock.\<close>

lemma commit_simulates:
  assumes S: "csums_distinct S" and cf: "cache_sound H N S cf"
  shows "plain_of (commit_mount H cf dev root ft) = plain_commit H (plain_of cf) dev root ft" "cache_sound H N S (commit_mount H cf dev root ft)"
proof -
  define fs where "fs = set_roots ((cf_fs cf)\<lparr>fs_device := dev\<rparr>) ((sb_of (cf_fs cf))\<lparr>sbv_root := root\<rparr>) ft"
  define cf1 where "cf1 = cf\<lparr>cf_fs := fs, cf_nodes := cache_clear (cf_nodes cf)\<rparr>"
  have fs: "fs = (cf_fs cf)\<lparr>fs_device := dev, fs_sb_root := root, fs_fs_tree := if tr_objectid ft = 5 then ft else fs_fs_tree (cf_fs cf)\<rparr>"
    by (simp add: fs_def set_roots_def set_sb_def sb_of_def FS_TREE_OBJECTID_def)
  have b: "batch_sound H S fs = batch_sound H S (cf_fs cf)" by (rule batch_sound_cong) (simp_all add: fs)
  have c: "cache_sound H N S cf1"
    using cf by (simp add: cf1_def cache_sound_def nodes_sound_def cache_clear_wf b)
  have r: "(\<lambda>lg. fst (cached_read_node H cf1 lg)) = uncached_read H (plain_of cf1)" using cached_read_sound(1) [OF S c] by auto
  have m: "commit_mount H cf dev root ft = cf1\<lparr>cf_fs := fs\<lparr>fs_csum_tree := ok_of (tree_root_of (uncached_read H (plain_of cf1)) root 7)\<rparr>\<rparr>"
    unfolding r [symmetric] by (simp add: commit_mount_def update_mount_state_def Let_def cf1_def fs_def CSUM_TREE_OBJECTID_def set_roots_def set_sb_def)
  have p: "plain_of cf1 = (plain_of cf)\<lparr>pf_fs := fs\<rparr>" by (simp add: plain_of_def cf1_def)
  show "plain_of (commit_mount H cf dev root ft) = plain_commit H (plain_of cf) dev root ft"
    unfolding m p by (simp add: plain_commit_def Let_def plain_of_def cf1_def fs)
  show "cache_sound H N S (commit_mount H cf dev root ft)"
    using c unfolding m by (simp add: cache_sound_def nodes_sound_def cf1_def cache_clear_wf batch_sound_cong [of "fs\<lparr>fs_csum_tree := _\<rparr>" fs])
qed

lemma write_device_sound:
  assumes "cache_sound H N S cf" "nodes_kept H N (cf_fs cf) dev"
  shows "cache_sound H N S (cf\<lparr>cf_fs := (cf_fs cf)\<lparr>fs_device := dev\<rparr>\<rparr>)"
  using assms by (simp add: cache_sound_def nodes_sound_def nodes_kept_def batch_sound_cong [of "(cf_fs cf)\<lparr>fs_device := dev\<rparr>" "cf_fs cf"])

lemma batch_steps_sound:
  assumes "batch_sound H S fs b"
  shows "batch_sound H S fs (batch_rearm b)" "(lg, blk) \<in> S \<Longrightarrow> batch_sound H S fs (b\<lparr>pb_blocks := (pb_blocks b)(lg \<mapsto> blk)\<rparr>)"
    "batch_sound H S fs (b\<lparr>pb_blocks := (pb_blocks b)(lg := None)\<rparr>)"
    "\<forall>lg blk. mark lg = Some blk \<longrightarrow> (lg, blk) \<in> S \<Longrightarrow> batch_sound H S fs (batch_rollback b mark)" "batch_sound H S fs batch_new"
  using assms by (auto simp: batch_sound_def batch_rearm_def batch_rollback_def batch_new_def split: if_split_asm)

lemma on_held_sound:
  assumes "cache_sound H N S cf" "\<And>b. batch_sound H S (cf_fs cf) b \<Longrightarrow> batch_sound H S (cf_fs cf) (f b)" "\<And>b. pb_blocks (f b) = g (pb_blocks b)"
  shows "cache_sound H N S (on_held f cf)" "plain_of (on_held f cf) = (plain_of cf)\<lparr>pf_taken := map_option g (pf_taken (plain_of cf))\<rparr>"
  using assms by (cases "cf_held cf"; simp add: on_held_def cache_sound_def plain_of_def)+

lemma cached_step_simulates:
  assumes "csums_distinct S" "cache_sound H N S cf" "step_within H N S (cf_fs cf) s" "cached_step H cf s = (r, cf')"
  shows "plain_step H (plain_of cf) s = (r, plain_of cf')" "cache_sound H N S cf'"
proof -
  have "plain_step H (plain_of cf) s = (r, plain_of cf') \<and> cache_sound H N S cf'"
  proof (cases s)
    case (ReadNode lg)
    then show ?thesis using assms(3,4) cached_read_sound [OF assms(1,2), of lg]
      by (cases "cached_read_node H cf lg") (simp add: cached_step_def)
  next
    case (Commit dev root ft)
    then show ?thesis using assms(4) commit_simulates [OF assms(1,2)] by (auto simp: cached_step_def)
  next
    case (WriteDevice dev)
    then show ?thesis using assms(3,4) write_device_sound [OF assms(2)] by (auto simp: cached_step_def plain_of_def)
  next
    case (StageBlock lg blk)
    then show ?thesis using assms(3,4) on_held_sound [where f = "\<lambda>b. b\<lparr>pb_blocks := (pb_blocks b)(lg \<mapsto> blk)\<rparr>" and g = "\<lambda>m. m(lg \<mapsto> blk)", OF assms(2) batch_steps_sound(2)]
      by (auto simp: cached_step_def)
  next
    case (UnstageBlock lg)
    then show ?thesis using assms(4) on_held_sound [where f = "\<lambda>b. b\<lparr>pb_blocks := (pb_blocks b)(lg := None)\<rparr>" and g = "\<lambda>m. m(lg := None)", OF assms(2) batch_steps_sound(3)]
      by (auto simp: cached_step_def)
  next
    case (Rollback mark)
    then show ?thesis using assms(3,4) on_held_sound [where f = "\<lambda>b. batch_rollback b mark" and g = "\<lambda>_. mark", OF assms(2) batch_steps_sound(4)]
      by (auto simp: cached_step_def batch_rollback_def)
  next
    case RearmBatch
    then show ?thesis using assms(4) on_held_sound [where f = batch_rearm and g = "\<lambda>_. Map.empty", OF assms(2) batch_steps_sound(1)]
      by (auto simp: cached_step_def batch_rearm_def)
  qed (use assms(2,4) in \<open>auto simp: cached_step_def plain_of_def cache_sound_def batch_new_def batch_sound_def\<close>)
  then show "plain_step H (plain_of cf) s = (r, plain_of cf')" "cache_sound H N S cf'" by auto
qed

lemma cached_run_simulates:
  assumes "csums_distinct S" "cache_sound H N S cf" "run_within H N S (plain_of cf) ss" "cached_run H cf ss = (rs, cf')"
  shows "plain_run H (plain_of cf) ss = (rs, plain_of cf') \<and> cache_sound H N S cf'"
  using assms(2-4)
proof (induction ss arbitrary: cf rs)
  case (Cons s ss)
  obtain r cf1 where s: "cached_step H cf s = (r, cf1)" by fastforce
  obtain rs1 where ss: "cached_run H cf1 ss = (rs1, cf')" "rs = r # rs1" using Cons.prems(3) s by (auto split: prod.splits)
  have w: "step_within H N S (cf_fs cf) s" using Cons.prems(2) by (simp add: plain_of_def)
  note st = cached_step_simulates [OF assms(1) Cons.prems(1) w s]
  show ?case using Cons.IH [OF st(2) _ ss(1)] st(1) Cons.prems(2) ss(2) by simp
qed simp

section \<open>Properties\<close>

text \<open>C8: The node caches are transparent. Starting from a mount with an empty cache, over any sequence of node reads, opened, taken, re-armed,
  put back, dropped and discarded batches, staged and removed blocks, rollbacks, data writes and successful commits, every read returns
  exactly what reading and parsing the block anew would return, and the mount ends with the same roots. In particular the parsed nodes
  that a re-armed batch keeps across a commit are never served for other contents. Two hypotheses: two versions of a pending block
  at one address differ in the first four bytes of their checksum (\<open>csums_distinct\<close>), and a write to the device outside a completed
  commit leaves the nodes that are read intact (\<open>nodes_kept\<close>). The cache never holds more nodes than its capacity.\<close>

theorem node_cache_transparent:
  assumes "csums_distinct S" "run_within H N S (plain_mount fs) ss" "cached_run H (cached_mount fs) ss = (rs, cf)"
  shows "plain_run H (plain_mount fs) ss = (rs, plain_of cf)
    \<and> card (dom (nc_nodes (cf_nodes cf))) \<le> nc_capacity (cf_nodes cf)"
proof -
  have m: "cache_sound H N S (cached_mount fs)" "plain_of (cached_mount fs) = plain_mount fs"
    by (simp_all add: cached_mount_def cache_sound_def nodes_sound_def plain_of_def plain_mount_def)
  then have r: "plain_run H (plain_mount fs) ss = (rs, plain_of cf)" "cache_sound H N S cf"
    using cached_run_simulates [OF assms(1) m(1) _ assms(3)] assms(2) by auto
  then have w: "cache_wf (cf_nodes cf)" by (simp add: cache_sound_def nodes_sound_def)
  then have "card (dom (nc_nodes (cf_nodes cf))) = length (nc_order (cf_nodes cf))" by (metis cache_wf_def distinct_card)
  then show ?thesis using r w by (simp add: cache_wf_def)
qed

text \<open>The witness follows one batch through an addition, a read of the pending block, a re-arming commit that moves the root tree, a data write
  and a second version of the block, and then a closing commit.\<close>

abbreviation moved_device :: "nat \<Rightarrow> nat \<Rightarrow> bytes result" where
  "moved_device \<equiv> \<lambda>a n. if 16384 \<le> a then Inr (replicate n 9) else fs_device csum_fs a n"

abbreviation session_steps :: "fs_step list" where
  "session_steps \<equiv>
    [ReadNode 8192, ReadNode 8192, OpenBatch, TakeBatch, StageBlock 4096 [1, 2, 3, 4], PutBatch, ReadNode 4096, ReadNode 8192,
     TakeBatch, RearmBatch, ReadNode 8192, Commit (fs_device csum_fs) 8192 (leaf_root 5 4096), PutBatch, ReadNode 4096, WriteDevice moved_device,
     TakeBatch, StageBlock 4096 [5, 2, 3, 4], PutBatch, ReadNode 4096, ReadNode 8192, TakeBatch, DropBatch, Commit moved_device 8192 (leaf_root 256 4096), ReadNode 8192]"

lemma moved_device_kept:
  assumes "fs_chunks fs = fs_chunks csum_fs" "fs_device fs = fs_device csum_fs" "fs_node_size fs = 512"
  shows "nodes_kept H {4096, 8192} fs moved_device"
proof -
  have "fs_read_node H (fs\<lparr>fs_device := moved_device\<rparr>) lg = fs_read_node H fs lg" if lg: "lg \<in> {4096, 8192}" for lg
  proof -
    obtain b where b: "fs_device csum_fs lg 512 = Inr b" "length b = 512"
    proof (cases "lg = 8192")
      case True
      have "leaf_wf csum_leaf 512" using csum_leaf_on_fs by (simp add: on_leaf_fs_def)
      then obtain b where "leaf_emit toy_hashes csum_leaf 512 = Inr b" "length b = 512" using leaf_emit_parses [OF toy_hashes_ok] by blast
      then show ?thesis using True that by (simp add: leaf_fs_def csum_leaf_def leaf_new_def)
    next
      case False
      then show ?thesis using lg that by (simp add: leaf_fs_def csum_leaf_def leaf_new_def)
    qed
    have m: "cm_map (fs_chunks csum_fs) lg = Inr (lg, 2 ^ 40 - lg)" using lg flat_map [of lg] by (auto simp: leaf_fs_def)
    have "read_logical (fs_chunks csum_fs) (fs_device csum_fs) lg 512 [] = Inr b"
      by (rule read_logical_run [OF m]) (use lg b in auto)
    moreover have "read_logical (fs_chunks csum_fs) moved_device lg 512 [] = Inr b"
      by (rule read_logical_run [OF m]) (use lg b in auto)
    ultimately show ?thesis by (simp add: fs_read_node_def read_node_def assms)
  qed
  then show ?thesis by (simp add: nodes_kept_def)
qed

theorem node_cache_transparent_witness:
  "fst (cached_run toy_hashes (cached_mount csum_fs) session_steps) = fst (plain_run toy_hashes (plain_mount csum_fs) session_steps)"
proof -
  let ?S = "{(4096, [1, 2, 3, 4]), (4096, [5, 2, 3, 4])} :: (nat \<times> bytes) set"
  have "block_csum [1, 2, 3, 4] \<noteq> block_csum [5, 2, 3, 4]" by (simp add: block_csum_def u32le_def slice_def)
  then have "csums_distinct ?S" by (auto simp: csums_distinct_def)
  moreover have "fs_node_size csum_fs = 512" by (simp add: leaf_fs_def)
  then have "run_within toy_hashes {4096, 8192} ?S (plain_mount csum_fs) session_steps"
    by (simp add: plain_commit_def Let_def plain_mount_def moved_device_kept)
  moreover obtain rs cf where run: "cached_run toy_hashes (cached_mount csum_fs) session_steps = (rs, cf)" by (meson prod.exhaust)
  ultimately have "plain_run toy_hashes (plain_mount csum_fs) session_steps = (rs, plain_of cf)"
    using node_cache_transparent [of ?S toy_hashes "{4096, 8192}" csum_fs session_steps rs cf] by blast
  then show ?thesis using run by (simp only: fst_conv)
qed

end
