(* ===== verification/Devices.thy ===== *)
theory Devices
  imports Errors
begin

text \<open>
  Random-access byte devices: the traits \<open>ReadAt\<close> and \<open>WriteAt\<close> of \<open>core/src/device.rs\<close> as a record of functions,
  the byte slice, the growing in-memory device of the test suite, and the plain partition volume of
  \<open>core/src/volume.rs\<close>, which confines a client to a window of a device. The locale \<open>byte_store\<close> states what a
  client of the traits relies on; a window of a store is a store again.
\<close>

section \<open>The traits\<close>

record 'd block_dev =
  dev_read :: "'d \<Rightarrow> nat \<Rightarrow> nat \<Rightarrow> bytes result"
  dev_write :: "'d \<Rightarrow> nat \<Rightarrow> bytes \<Rightarrow> unit result \<times> 'd"
  dev_len :: "'d \<Rightarrow> nat option"

text \<open>A read fills the caller's buffer.\<close>

definition fetch :: "'d block_dev \<Rightarrow> 'd \<Rightarrow> nat \<Rightarrow> nat \<Rightarrow> bytes result" where
  "fetch B d off n = rbind (dev_read B d off n) (\<lambda>b. if length b = n then Inr b else Inl Panic)"

section \<open>Memory\<close>

definition slice_read_at :: "bytes \<Rightarrow> nat \<Rightarrow> nat \<Rightarrow> bytes result" where
  "slice_read_at d off n =
     (case checked_add64 off n of
        None \<Rightarrow> Inl (Truncated u64_max (length d))
      | Some fin \<Rightarrow> if fin > length d then Inl (Truncated fin (length d)) else Inr (slice d off n))"

definition mem_write_at :: "bytes \<Rightarrow> nat \<Rightarrow> bytes \<Rightarrow> unit result \<times> bytes" where
  "mem_write_at d off b =
     (if b = [] then (Inr (), d)
      else case checked_add64 off (length b) of
          None \<Rightarrow> (Inl OutOfBounds, d)
        | Some fin \<Rightarrow>
            let d = (if fin > length d then d @ replicate (fin - length d) 0 else d) in (Inr (), put d off b))"

definition mem_device :: "bytes block_dev" where
  "mem_device = \<lparr>dev_read = slice_read_at, dev_write = mem_write_at, dev_len = (\<lambda>d. Some (length d))\<rparr>"

section \<open>Plain volumes\<close>

record 'd plain_volume =
  pv_device :: 'd
  pv_offset :: nat
  pv_len :: nat

definition plain_new :: "'d block_dev \<Rightarrow> 'd \<Rightarrow> nat \<Rightarrow> nat \<Rightarrow> 'd plain_volume result" where
  "plain_new B d off n =
     (if n = 0 then Inl OutOfBounds
      else case checked_add64 off n of
          None \<Rightarrow> Inl OutOfBounds
        | Some fin \<Rightarrow>
            if (case dev_len B d of Some l \<Rightarrow> fin > l | None \<Rightarrow> False) then Inl OutOfBounds
            else Inr \<lparr>pv_device = d, pv_offset = off, pv_len = n\<rparr>)"

definition plain_read_at :: "'d block_dev \<Rightarrow> 'd plain_volume \<Rightarrow> nat \<Rightarrow> nat \<Rightarrow> bytes result" where
  "plain_read_at B v off n =
     (case checked_add64 off n of
        None \<Rightarrow> Inl OutOfBounds
      | Some fin \<Rightarrow>
          if fin > pv_len v then Inl OutOfBounds
          else if n = 0 then Inr []
          else case checked_add64 (pv_offset v) off of
              None \<Rightarrow> Inl OutOfBounds
            | Some o' \<Rightarrow> dev_read B (pv_device v) o' n)"

definition plain_write_at :: "'d block_dev \<Rightarrow> 'd plain_volume \<Rightarrow> nat \<Rightarrow> bytes \<Rightarrow> unit result \<times> 'd plain_volume" where
  "plain_write_at B v off b =
     (if b = [] then (Inr (), v)
      else case checked_add64 off (length b) of
          None \<Rightarrow> (Inl OutOfBounds, v)
        | Some fin \<Rightarrow>
            if fin > pv_len v then (Inl OutOfBounds, v)
            else case checked_add64 (pv_offset v) off of
                None \<Rightarrow> (Inl OutOfBounds, v)
              | Some o' \<Rightarrow> (case dev_write B (pv_device v) o' b of (r, d) \<Rightarrow> (r, v\<lparr>pv_device := d\<rparr>)))"

definition plain_dev :: "'d block_dev \<Rightarrow> 'd plain_volume block_dev" where
  "plain_dev B = \<lparr>dev_read = plain_read_at B, dev_write = plain_write_at B, dev_len = (\<lambda>v. Some (pv_len v))\<rparr>"

section \<open>What clients rely on\<close>

text \<open>\<open>content\<close> is what the device holds, \<open>ok\<close> the states in which it answers: reads inside the content return it,
  writes inside it replace exactly the bytes named.\<close>

locale byte_store =
  fixes B :: "'d block_dev" and content :: "'d \<Rightarrow> bytes" and ok :: "'d \<Rightarrow> bool"
  assumes content_len: "ok d \<Longrightarrow> length (content d) < 2 ^ 64"
    and read_ok: "ok d \<Longrightarrow> off + n \<le> length (content d) \<Longrightarrow> dev_read B d off n = Inr (slice (content d) off n)"
    and write_ok: "ok d \<Longrightarrow> off + length b \<le> length (content d) \<Longrightarrow>
      \<exists>d'. dev_write B d off b = (Inr (), d') \<and> ok d' \<and> content d' = put (content d) off b"
begin

lemma fetch_ok: "ok d \<Longrightarrow> off + n \<le> length (content d) \<Longrightarrow> fetch B d off n = Inr (slice (content d) off n)"
  by (simp add: fetch_def read_ok)

end

lemma put_nothing [simp]: "put xs i [] = xs"
  by (simp add: put_def)

interpretation mem: byte_store mem_device "\<lambda>d. d" "\<lambda>d. length d < 2 ^ 64"
proof
  fix d :: bytes and off n :: nat
  assume "length d < 2 ^ 64" "off + n \<le> length d"
  then show "dev_read mem_device d off n = Inr (slice d off n)"
    by (simp add: mem_device_def slice_read_at_def width_simps)
next
  fix d b :: bytes and off :: nat
  assume "length d < 2 ^ 64" "off + length b \<le> length d"
  then show "\<exists>d'. dev_write mem_device d off b = (Inr (), d') \<and> length d' < 2 ^ 64 \<and> d' = put d off b"
    by (auto simp: mem_device_def mem_write_at_def width_simps)
qed

text \<open>The window a plain volume gives on a store.\<close>

definition plain_content :: "('d \<Rightarrow> bytes) \<Rightarrow> 'd plain_volume \<Rightarrow> bytes" where
  "plain_content content v = slice (content (pv_device v)) (pv_offset v) (pv_len v)"

definition plain_ok :: "('d \<Rightarrow> bytes) \<Rightarrow> ('d \<Rightarrow> bool) \<Rightarrow> 'd plain_volume \<Rightarrow> bool" where
  "plain_ok content ok v \<longleftrightarrow> ok (pv_device v) \<and> pv_offset v + pv_len v \<le> length (content (pv_device v))"

locale plain_store = under: byte_store B content ok
  for B :: "'d block_dev" and content :: "'d \<Rightarrow> bytes" and ok :: "'d \<Rightarrow> bool"
begin

lemma plain_len: "plain_ok content ok v \<Longrightarrow> length (plain_content content v) = pv_len v"
  by (auto simp: plain_ok_def plain_content_def)

lemma plain_read:
  assumes "plain_ok content ok v" "off + n \<le> pv_len v"
  shows "plain_read_at B v off n = Inr (slice (plain_content content v) off n)"
proof -
  have "ok (pv_device v)" "pv_offset v + pv_len v \<le> length (content (pv_device v))" "length (content (pv_device v)) < 2 ^ 64"
    using assms(1) under.content_len by (auto simp: plain_ok_def)
  then show ?thesis using assms(2)
    by (simp add: plain_read_at_def plain_content_def width_simps under.read_ok slice_slice)
       (simp add: slice_def)
qed

lemma plain_write:
  assumes "plain_ok content ok v" "off + length b \<le> pv_len v"
  shows "\<exists>v'. plain_write_at B v off b = (Inr (), v') \<and> plain_ok content ok v' \<and> plain_content content v' = put (plain_content content v) off b"
proof (cases "b = []")
  case True
  then show ?thesis using assms(1) by (simp add: plain_write_at_def)
next
  case False
  have ok: "ok (pv_device v)" and len: "pv_offset v + pv_len v \<le> length (content (pv_device v))" "length (content (pv_device v)) < 2 ^ 64"
    using assms(1) under.content_len by (auto simp: plain_ok_def)
  have fit: "pv_offset v + off + length b \<le> length (content (pv_device v))" using assms(2) len(1) by simp
  obtain d' where d': "dev_write B (pv_device v) (pv_offset v + off) b = (Inr (), d')" "ok d'"
    "content d' = put (content (pv_device v)) (pv_offset v + off) b" using under.write_ok [OF ok fit] by blast
  have "slice (put (content (pv_device v)) (pv_offset v + off) b) (pv_offset v) (pv_len v) =
      put (slice (content (pv_device v)) (pv_offset v) (pv_len v)) off b"
    using assms(2) len(1) fit by (intro slice_eqI) (auto simp: nth_put nth_slice)
  then show ?thesis using False assms(2) len fit d'
    by (auto simp: plain_write_at_def width_simps plain_ok_def plain_content_def)
qed

end

sublocale plain_store < byte_store "plain_dev B" "plain_content content" "plain_ok content ok"
proof
  show "length (plain_content content v) < 2 ^ 64" if "plain_ok content ok v" for v
    using that under.content_len [of "pv_device v"] plain_len [OF that] by (simp add: plain_ok_def)
qed (auto simp: plain_dev_def plain_len plain_read intro: plain_write)

interpretation disk: plain_store mem_device "\<lambda>d. d" "\<lambda>d. length d < 2 ^ 64"
  by unfold_locales

text \<open>A volume that \<open>plain_new\<close> hands out over a device of known length is a window of it.\<close>

lemma plain_new_ok:
  assumes "plain_new B d off n = Inr v" "dev_len B d = Some (length (content d))" "ok d"
  shows "plain_ok content ok v" "plain_content content v = slice (content d) off n" "0 < n"
  using assms by (auto simp: plain_new_def plain_ok_def plain_content_def width_simps split: if_splits option.splits)

text \<open>Nothing a client does through a volume changes the device outside the window.\<close>

lemma plain_write_confined:
  assumes "plain_write_at mem_device v off b = (r, v')" "plain_ok (\<lambda>d. d) (\<lambda>d. length d < 2 ^ 64) v"
  shows "length (pv_device v') = length (pv_device v)"
    "take (pv_offset v) (pv_device v') = take (pv_offset v) (pv_device v)"
    "drop (pv_offset v + pv_len v) (pv_device v') = drop (pv_offset v + pv_len v) (pv_device v)"
proof -
  have len: "pv_offset v + pv_len v \<le> length (pv_device v)" using assms(2) by (simp add: plain_ok_def)
  have "v' = v \<or> (\<exists>o'. o' = pv_offset v + off \<and> off + length b \<le> pv_len v \<and> v' = v\<lparr>pv_device := put (pv_device v) o' b\<rparr>)"
    using assms(1) len by (auto simp: plain_write_at_def mem_device_def mem_write_at_def width_simps Let_def split: if_splits option.splits)
  then show "length (pv_device v') = length (pv_device v)"
    "take (pv_offset v) (pv_device v') = take (pv_offset v) (pv_device v)"
    "drop (pv_offset v + pv_len v) (pv_device v') = drop (pv_offset v + pv_len v) (pv_device v)"
    using len by (auto simp: put_def add.commute)
qed

end
