(* ===== verification/Luks_Volume.thy ===== *)
theory Luks_Volume
  imports Devices
begin

text \<open>
  The unlocked LUKS volume (\<open>core/src/luks/volume.rs\<close>, the sector cipher loop of \<open>keyslot.rs\<close>): arbitrary reads and
  writes of plaintext over a device that holds ciphertext in whole cipher sectors. The block cipher is the external
  crates \<open>aes\<close> and \<open>xts_mode\<close>; it is the argument \<open>X\<close>, and what the code relies on is \<open>xts_ok\<close>: a sector keeps its length
  and decrypting what was encrypted under the same key and tweak gives it back. The result: a LUKS volume over a
  byte store is a byte store, whose content is the decrypted segment.
\<close>

section \<open>The cipher\<close>

record xts_crate =
  decrypt_sector :: "bytes \<Rightarrow> nat \<Rightarrow> bytes \<Rightarrow> bytes"
  encrypt_sector :: "bytes \<Rightarrow> nat \<Rightarrow> bytes \<Rightarrow> bytes"

definition xts_ok :: "xts_crate \<Rightarrow> bool" where
  "xts_ok X \<longleftrightarrow> (\<forall>key tweak b. 16 \<le> length b \<longrightarrow>
     length (decrypt_sector X key tweak b) = length b \<and> length (encrypt_sector X key tweak b) = length b
     \<and> decrypt_sector X key tweak (encrypt_sector X key tweak b) = b)"

text \<open>The loop over \<open>chunks_mut\<close> of a buffer that is a whole number of sectors.\<close>

definition sector_map :: "(nat \<Rightarrow> bytes \<Rightarrow> bytes) \<Rightarrow> bytes \<Rightarrow> nat \<Rightarrow> nat \<Rightarrow> nat \<Rightarrow> bytes" where
  "sector_map f buf ss first_tweak tweak_step =
     concat (map (\<lambda>i. f (first_tweak + i * tweak_step) (slice buf (i * ss) ss)) [0..<length buf div ss])"

definition xts_run :: "(bytes \<Rightarrow> nat \<Rightarrow> bytes \<Rightarrow> bytes) \<Rightarrow> bytes \<Rightarrow> bytes \<Rightarrow> nat \<Rightarrow> nat \<Rightarrow> nat \<Rightarrow> bytes result" where
  "xts_run f key buf ss first_tweak tweak_step =
     (if ss = 0 \<or> length buf mod ss \<noteq> 0 then Inl (CorruptFs ''XTS length is not a whole number of cipher sectors'')
      else if length key = 64 \<or> length key = 32 then Inr (sector_map (f key) buf ss first_tweak tweak_step)
      else Inl (BadKeyLength (length key)))"

definition xts_decrypt :: "xts_crate \<Rightarrow> bytes \<Rightarrow> bytes \<Rightarrow> nat \<Rightarrow> nat \<Rightarrow> nat \<Rightarrow> bytes result" where
  "xts_decrypt X = xts_run (decrypt_sector X)"

definition xts_encrypt :: "xts_crate \<Rightarrow> bytes \<Rightarrow> bytes \<Rightarrow> nat \<Rightarrow> nat \<Rightarrow> nat \<Rightarrow> bytes result" where
  "xts_encrypt X = xts_run (encrypt_sector X)"

section \<open>Opening\<close>

datatype segment_size = Dynamic | Fixed nat

record segment =
  seg_offset :: nat
  seg_size :: segment_size
  seg_iv_tweak :: nat
  seg_encryption :: string
  seg_sector_size :: nat
  seg_flags :: "string list"

definition tweak_step :: "segment \<Rightarrow> nat" where
  "tweak_step seg = (if ''iv-large-sectors'' \<in> set (seg_flags seg) then 1 else max (seg_sector_size seg div 512) 1)"

record 'd luks_volume =
  lv_device :: 'd
  lv_partition_offset :: nat
  lv_segment_offset :: nat
  lv_segment_len :: "nat option"
  lv_sector_size :: nat
  lv_iv_tweak :: nat
  lv_tweak_step :: nat
  lv_master_key :: bytes

text \<open>\<open>primary_segment\<close>: the first segment of the header's map.\<close>

definition primary_segment :: "segment list \<Rightarrow> segment result" where
  "primary_segment segs = (case segs of [] \<Rightarrow> Inl (Missing ''segments'') | s # _ \<Rightarrow> Inr s)"

definition checked_sub :: "nat \<Rightarrow> nat \<Rightarrow> nat option" where
  "checked_sub a b = (if b \<le> a then Some (a - b) else None)"

definition with_master_key :: "'d block_dev \<Rightarrow> 'd \<Rightarrow> nat \<Rightarrow> nat option \<Rightarrow> segment list \<Rightarrow> bytes \<Rightarrow> 'd luks_volume result" where
  "with_master_key B d poff plen segs key =
     rbind (primary_segment segs) (\<lambda>seg.
       if seg_encryption seg \<noteq> ''aes-xts-plain64'' then Inl (UnsupportedCipher (seg_encryption seg))
       else if seg_sector_size seg \<notin> {512, 1024, 2048, 4096} then Inl (BadSectorSize (seg_sector_size seg))
       else
         let space = (case plen of Some p \<Rightarrow> Some p | None \<Rightarrow> Option.bind (dev_len B d) (\<lambda>l. checked_sub l poff));
             room = Option.bind space (\<lambda>p. checked_sub p (seg_offset seg));
             len = (case (seg_size seg, room) of (Fixed n, Some r) \<Rightarrow> Some (min n r) | (Fixed n, None) \<Rightarrow> Some n | (Dynamic, r) \<Rightarrow> r)
         in Inr \<lparr>lv_device = d, lv_partition_offset = poff, lv_segment_offset = seg_offset seg, lv_segment_len = len,
              lv_sector_size = seg_sector_size seg, lv_iv_tweak = seg_iv_tweak seg, lv_tweak_step = tweak_step seg, lv_master_key = key\<rparr>)"

section \<open>Reading and writing\<close>

definition sector_offset :: "'d luks_volume \<Rightarrow> nat \<Rightarrow> nat option" where
  "sector_offset v i =
     Option.bind (checked_add64 (lv_partition_offset v) (lv_segment_offset v)) (\<lambda>o'. checked_add64 o' (i * lv_sector_size v))"

definition past_end :: "'d luks_volume \<Rightarrow> nat \<Rightarrow> bool" where
  "past_end v fin = (case lv_segment_len v of Some len \<Rightarrow> fin > len | None \<Rightarrow> False)"

definition decrypted :: "xts_crate \<Rightarrow> 'd block_dev \<Rightarrow> 'd luks_volume \<Rightarrow> nat \<Rightarrow> nat \<Rightarrow> nat \<Rightarrow> bytes result" where
  "decrypted X B v o' first span =
     rbind (fetch B (lv_device v) o' span) (\<lambda>s.
       xts_decrypt X (lv_master_key v) s (lv_sector_size v) (lv_iv_tweak v + first * lv_tweak_step v) (lv_tweak_step v))"

definition luks_read_at :: "xts_crate \<Rightarrow> 'd block_dev \<Rightarrow> 'd luks_volume \<Rightarrow> nat \<Rightarrow> nat \<Rightarrow> bytes result" where
  "luks_read_at X B v off n =
     (if n = 0 then Inr []
      else case checked_add64 off n of
          None \<Rightarrow> Inl OutOfBounds
        | Some fin \<Rightarrow>
            if past_end v fin then Inl OutOfBounds
            else if lv_sector_size v = 0 then Inl Panic
            else
              let ss = lv_sector_size v; first = off div ss; span = (div_ceil fin ss - first) * ss in
              case sector_offset v first of
                None \<Rightarrow> Inl OutOfBounds
              | Some o' \<Rightarrow> rbind (decrypted X B v o' first span) (\<lambda>p. Inr (slice p (off - first * ss) n)))"

definition WRITE_CHUNK_BYTES :: nat where "WRITE_CHUNK_BYTES = 128 * 1024"

definition write_at_chunk :: "xts_crate \<Rightarrow> 'd block_dev \<Rightarrow> 'd luks_volume \<Rightarrow> nat \<Rightarrow> bytes \<Rightarrow> unit result \<times> 'd luks_volume" where
  "write_at_chunk X B v off b =
     (case checked_add64 off (length b) of
        None \<Rightarrow> (Inl OutOfBounds, v)
      | Some fin \<Rightarrow>
          if lv_sector_size v = 0 then (Inl Panic, v)
          else
            let ss = lv_sector_size v; first = off div ss; span = (div_ceil fin ss - first) * ss;
                skip = off - first * ss; aligned = (skip = 0 \<and> span = length b)
            in case sector_offset v first of
                 None \<Rightarrow> (Inl OutOfBounds, v)
               | Some o' \<Rightarrow>
                   (case (if aligned then Inr b else rbind (decrypted X B v o' first span) (\<lambda>p. Inr (put p skip b))) of
                      Inl err \<Rightarrow> (Inl err, v)
                    | Inr p \<Rightarrow>
                        (case xts_encrypt X (lv_master_key v) p ss (lv_iv_tweak v + first * lv_tweak_step v) (lv_tweak_step v) of
                           Inl err \<Rightarrow> (Inl err, v)
                         | Inr c \<Rightarrow> (case dev_write B (lv_device v) o' c of (r, d) \<Rightarrow> (r, v\<lparr>lv_device := d\<rparr>)))))"

lemma chunk_progress:
  fixes n w ss :: nat
  assumes "0 < ss" "ss \<le> w" "ss \<le> n"
  shows "n - min (n div ss * ss) (w div ss * ss) < n"
proof -
  have "0 < n div ss" "0 < w div ss" using assms by (simp_all add: div_greater_zero_iff)
  then show ?thesis using assms by simp
qed

text \<open>The loop over the whole sectors of a long request; the constructor admits sector sizes up to 4096, so a chunk
  is never empty. What is left is returned with its offset.\<close>

function write_whole :: "xts_crate \<Rightarrow> 'd block_dev \<Rightarrow> 'd luks_volume \<Rightarrow> nat \<Rightarrow> bytes \<Rightarrow> (nat \<times> bytes) result \<times> 'd luks_volume" where
  "write_whole X B v at b =
     (let ss = lv_sector_size v in
      if 0 < ss \<and> ss \<le> WRITE_CHUNK_BYTES \<and> ss \<le> length b then
        let n = min (length b div ss * ss) (WRITE_CHUNK_BYTES div ss * ss) in
        case write_at_chunk X B v at (take n b) of
          (Inl err, v) \<Rightarrow> (Inl err, v)
        | (Inr _, v) \<Rightarrow> write_whole X B v (at + n) (drop n b)
      else (Inr (at, b), v))"
  by pat_completeness auto
termination
  by (relation "measure (\<lambda>(X, B, v, at, b). length b)") (auto simp: chunk_progress)

declare write_whole.simps [simp del]

definition luks_write_at :: "xts_crate \<Rightarrow> 'd block_dev \<Rightarrow> 'd luks_volume \<Rightarrow> nat \<Rightarrow> bytes \<Rightarrow> unit result \<times> 'd luks_volume" where
  "luks_write_at X B v off b =
     (if b = [] then (Inr (), v)
      else case checked_add64 off (length b) of
          None \<Rightarrow> (Inl OutOfBounds, v)
        | Some fin \<Rightarrow>
            if past_end v fin then (Inl OutOfBounds, v)
            else if length b \<le> WRITE_CHUNK_BYTES then write_at_chunk X B v off b
            else if lv_sector_size v = 0 then (Inl Panic, v)
            else
              let ss = lv_sector_size v; head = (if off mod ss = 0 then 0 else min (ss - off mod ss) (length b)) in
              case (if head = 0 then (Inr (), v) else write_at_chunk X B v off (take head b)) of
                (Inl err, v) \<Rightarrow> (Inl err, v)
              | (Inr _, v) \<Rightarrow>
                  (case write_whole X B v (off + head) (drop head b) of
                     (Inl err, v) \<Rightarrow> (Inl err, v)
                   | (Inr (at, rest), v) \<Rightarrow> if rest = [] then (Inr (), v) else write_at_chunk X B v at rest))"

definition luks_dev :: "xts_crate \<Rightarrow> 'd block_dev \<Rightarrow> 'd luks_volume block_dev" where
  "luks_dev X B = \<lparr>dev_read = luks_read_at X B, dev_write = luks_write_at X B, dev_len = lv_segment_len\<rparr>"

section \<open>Sectors\<close>

lemma div_ceil_range:
  assumes "0 < ss" "off + n \<le> K * ss" "0 < n"
  shows "off div ss < div_ceil (off + n) ss" "div_ceil (off + n) ss \<le> K" "off + n \<le> div_ceil (off + n) ss * ss"
proof -
  show up: "off + n \<le> div_ceil (off + n) ss * ss" using assms(1) by (rule div_ceil_upper)
  show "div_ceil (off + n) ss \<le> K" using assms(1,2) by (rule div_ceil_le)
  have "off < div_ceil (off + n) ss * ss" using up assms(3) by simp
  then show "off div ss < div_ceil (off + n) ss" using assms(1) by (simp add: div_less_iff_less_mult)
qed

lemma slice_within_put: "j + n \<le> length ys \<Longrightarrow> i + length ys \<le> length xs \<Longrightarrow> slice (put xs i ys) (i + j) n = slice ys j n"
  by (rule slice_eqI) (auto simp: nth_put nth_slice)

lemma length_concat_sectors: "(\<And>i. i \<in> set is \<Longrightarrow> length (f i) = ss) \<Longrightarrow> length (concat (map f is)) = length is * ss"
  by (induction "is") simp_all

lemma slice_concat_sectors:
  assumes "\<And>i. i < K \<Longrightarrow> length (f i) = ss" "a \<le> b" "b \<le> K"
  shows "slice (concat (map f [0..<K])) (a * ss) ((b - a) * ss) = concat (map f [a..<b])"
proof -
  have "[0..<K] = [0..<a] @ [a..<b] @ [b..<K]"
    using assms(2,3) by (metis le_add_diff_inverse upt_add_eq_append zero_le order_trans)
  then have "concat (map f [0..<K]) = concat (map f [0..<a]) @ concat (map f [a..<b]) @ concat (map f [b..<K])" by simp
  moreover have "length (concat (map f [0..<a])) = a * ss" "length (concat (map f [a..<b])) = (b - a) * ss"
    using assms by (subst length_concat_sectors [where ss = ss]; simp)+
  ultimately show ?thesis by (simp add: slice_def)
qed

lemma sectors_eqI:
  assumes "length xs = K * ss" "length ys = K * ss" "\<And>i. i < K \<Longrightarrow> slice xs (i * ss) ss = slice ys (i * ss) ss" "0 < ss"
  shows "xs = ys"
proof (rule nth_equalityI)
  show "length xs = length ys" using assms(1,2) by simp
  fix j assume "j < length xs"
  then have j: "j div ss < K" "j mod ss < ss" using assms(1,4) by (simp_all add: div_less_iff_less_mult)
  then have "(j div ss + 1) * ss \<le> K * ss" by (intro mult_le_mono1) simp
  then have "slice xs (j div ss * ss) ss ! (j mod ss) = xs ! j" "slice ys (j div ss * ss) ss ! (j mod ss) = ys ! j"
    using assms(1,2) j(2) by (simp_all add: nth_slice)
  then show "xs ! j = ys ! j" using assms(3) [OF j(1)] by metis
qed

lemma sector_map_sectors:
  assumes "length buf = k * ss" "0 < ss" "\<And>tw b. length b = ss \<Longrightarrow> length (f tw b) = ss"
  shows "length (sector_map f buf ss tw st) = k * ss"
    "i < k \<Longrightarrow> slice (sector_map f buf ss tw st) (i * ss) ss = f (tw + i * st) (slice buf (i * ss) ss)"
proof -
  let ?g = "\<lambda>i. f (tw + i * st) (slice buf (i * ss) ss)"
  have m: "sector_map f buf ss tw st = concat (map ?g [0..<k])" using assms(1,2) by (simp add: sector_map_def)
  have l: "length (?g i) = ss" if "i < k" for i
  proof -
    have "(i + 1) * ss \<le> k * ss" using that by (intro mult_le_mono1) simp
    then show ?thesis using assms(1) by (intro assms(3)) simp
  qed
  show "length (sector_map f buf ss tw st) = k * ss" unfolding m using l by (subst length_concat_sectors [where ss = ss]) auto
  show "slice (sector_map f buf ss tw st) (i * ss) ss = f (tw + i * st) (slice buf (i * ss) ss)" if "i < k"
    unfolding m using slice_concat_sectors [of k ?g ss i "Suc i"] l that by simp
qed

section \<open>The plaintext\<close>

text \<open>The segment of the device and its sectors, decrypted.\<close>

definition luks_base :: "'d luks_volume \<Rightarrow> nat" where
  "luks_base v = lv_partition_offset v + lv_segment_offset v"

definition sectors :: "'d luks_volume \<Rightarrow> nat" where
  "sectors v = div_ceil (the (lv_segment_len v)) (lv_sector_size v)"

definition plain_sector :: "xts_crate \<Rightarrow> bytes \<Rightarrow> 'd luks_volume \<Rightarrow> nat \<Rightarrow> bytes" where
  "plain_sector X c v i = decrypt_sector X (lv_master_key v) (lv_iv_tweak v + i * lv_tweak_step v)
     (slice c (luks_base v + i * lv_sector_size v) (lv_sector_size v))"

definition plaintext :: "xts_crate \<Rightarrow> bytes \<Rightarrow> 'd luks_volume \<Rightarrow> bytes" where
  "plaintext X c v = concat (map (plain_sector X c v) [0..<sectors v])"

definition luks_content :: "xts_crate \<Rightarrow> ('d \<Rightarrow> bytes) \<Rightarrow> 'd luks_volume \<Rightarrow> bytes" where
  "luks_content X content v = take (the (lv_segment_len v)) (plaintext X (content (lv_device v)) v)"

definition luks_ok :: "('d \<Rightarrow> bytes) \<Rightarrow> ('d \<Rightarrow> bool) \<Rightarrow> 'd luks_volume \<Rightarrow> bool" where
  "luks_ok content ok v \<longleftrightarrow> ok (lv_device v) \<and> lv_segment_len v \<noteq> None \<and> lv_sector_size v \<in> {512, 1024, 2048, 4096}
     \<and> length (lv_master_key v) \<in> {32, 64}
     \<and> luks_base v + sectors v * lv_sector_size v \<le> length (content (lv_device v))"

text \<open>Bytes of the device outside the sectors of the segment.\<close>

definition segment_only :: "'d luks_volume \<Rightarrow> bytes \<Rightarrow> bytes \<Rightarrow> bool" where
  "segment_only v c c' \<longleftrightarrow> length c' = length c \<and> take (luks_base v) c' = take (luks_base v) c
     \<and> drop (luks_base v + sectors v * lv_sector_size v) c' = drop (luks_base v + sectors v * lv_sector_size v) c"

lemma segment_only_refl [simp]: "segment_only v c c"
  by (simp add: segment_only_def)

lemma segment_only_trans: "segment_only v c c' \<Longrightarrow> segment_only v c' c'' \<Longrightarrow> segment_only v c c''"
  by (simp add: segment_only_def)

lemma segment_only_device [simp]: "segment_only (v\<lparr>lv_device := d\<rparr>) = segment_only v"
  by (simp add: segment_only_def luks_base_def sectors_def fun_eq_iff)

lemma segment_only_put:
  assumes "luks_base v \<le> i" "i + length b \<le> luks_base v + sectors v * lv_sector_size v" "luks_base v + sectors v * lv_sector_size v \<le> length c"
  shows "segment_only v c (put c i b)"
proof -
  have fit: "i + length b \<le> length c" using assms(2,3) by simp
  moreover have "take (luks_base v) (put c i b) = take (luks_base v) c" using assms(1) fit by (simp add: put_def)
  moreover have "drop (luks_base v + sectors v * lv_sector_size v) (put c i b) = drop (luks_base v + sectors v * lv_sector_size v) c"
    using assms(2) fit by (simp add: put_def add.commute)
  ultimately show ?thesis by (simp add: segment_only_def)
qed

lemma xts_lengths:
  assumes "xts_ok X" "16 \<le> length b"
  shows "length (decrypt_sector X key tw b) = length b" "length (encrypt_sector X key tw b) = length b"
    "decrypt_sector X key tw (encrypt_sector X key tw b) = b"
  using assms by (auto simp: xts_ok_def)

lemma plaintext_sectors:
  assumes "xts_ok X" "16 \<le> lv_sector_size v" "luks_base v + sectors v * lv_sector_size v \<le> length c"
  shows "length (plaintext X c v) = sectors v * lv_sector_size v" "\<And>i. i < sectors v \<Longrightarrow> length (plain_sector X c v i) = lv_sector_size v"
    "\<And>a b. a \<le> b \<Longrightarrow> b \<le> sectors v \<Longrightarrow>
      slice (plaintext X c v) (a * lv_sector_size v) ((b - a) * lv_sector_size v) = concat (map (plain_sector X c v) [a..<b])"
    "\<And>i. i < sectors v \<Longrightarrow> slice (plaintext X c v) (i * lv_sector_size v) (lv_sector_size v) = plain_sector X c v i"
proof -
  let ?ss = "lv_sector_size v"
  show l: "length (plain_sector X c v i) = ?ss" if "i < sectors v" for i
  proof -
    have "(i + 1) * ?ss \<le> sectors v * ?ss" using that by (intro mult_le_mono1) simp
    then have "length (slice c (luks_base v + i * ?ss) ?ss) = ?ss" using assms(3) by simp
    then show ?thesis using xts_lengths(1) [OF assms(1)] assms(2) by (metis plain_sector_def)
  qed
  show "length (plaintext X c v) = sectors v * ?ss" unfolding plaintext_def using l by (subst length_concat_sectors [where ss = ?ss]) auto
  show r: "slice (plaintext X c v) (a * ?ss) ((b - a) * ?ss) = concat (map (plain_sector X c v) [a..<b])"
    if "a \<le> b" "b \<le> sectors v" for a b unfolding plaintext_def using l that by (intro slice_concat_sectors) auto
  show "slice (plaintext X c v) (i * ?ss) ?ss = plain_sector X c v i" if "i < sectors v" for i using r [of i "Suc i"] that by simp
qed

section \<open>A LUKS volume is a byte store\<close>

lemma take_put: "i + length ys \<le> n \<Longrightarrow> n \<le> length xs \<Longrightarrow> take n (put xs i ys) = put (take n xs) i ys"
  by (rule nth_equalityI) (auto simp: nth_put)

lemma sector_sizes: "ss \<in> {512, 1024, 2048, 4096 :: nat} \<Longrightarrow> 0 < ss \<and> 16 \<le> ss \<and> ss \<le> WRITE_CHUNK_BYTES"
  by (auto simp: WRITE_CHUNK_BYTES_def)

context byte_store
begin

lemma luks_facts:
  assumes "luks_ok content ok v"
  obtains len where "lv_segment_len v = Some len" "ok (lv_device v)" "0 < lv_sector_size v" "16 \<le> lv_sector_size v"
    "lv_sector_size v \<le> WRITE_CHUNK_BYTES" "length (lv_master_key v) = 64 \<or> length (lv_master_key v) = 32"
    "luks_base v + sectors v * lv_sector_size v \<le> length (content (lv_device v))"
    "luks_base v + sectors v * lv_sector_size v < 2 ^ 64" "len \<le> sectors v * lv_sector_size v"
proof -
  obtain len where len: "lv_segment_len v = Some len" using assms by (auto simp: luks_ok_def)
  have ss: "0 < lv_sector_size v" "16 \<le> lv_sector_size v" "lv_sector_size v \<le> WRITE_CHUNK_BYTES"
    using assms sector_sizes [of "lv_sector_size v"] by (auto simp: luks_ok_def)
  have ok: "ok (lv_device v)" "luks_base v + sectors v * lv_sector_size v \<le> length (content (lv_device v))" using assms by (auto simp: luks_ok_def)
  have "len \<le> sectors v * lv_sector_size v" using ss(1) len by (simp add: sectors_def div_ceil_upper)
  then show ?thesis using that [OF len ok(1) ss] ok(2) content_len [OF ok(1)] assms by (auto simp: luks_ok_def)
qed

text \<open>The sectors that cover a range: where they lie, and what decrypting them gives.\<close>

lemma decrypted_range:
  assumes x: "xts_ok X" and v: "luks_ok content ok v" and r: "a < b" "b \<le> sectors v"
  defines "ss \<equiv> lv_sector_size v"
  shows "sector_offset v a = Some (luks_base v + a * ss)"
    "luks_base v + a * ss + (b - a) * ss \<le> length (content (lv_device v))"
    "decrypted X B v (luks_base v + a * ss) a ((b - a) * ss) = Inr (slice (plaintext X (content (lv_device v)) v) (a * ss) ((b - a) * ss))"
proof -
  let ?c = "content (lv_device v)"
  obtain len where f: "lv_segment_len v = Some len" "ok (lv_device v)" "0 < ss" "16 \<le> ss" "length (lv_master_key v) = 64 \<or> length (lv_master_key v) = 32"
    "luks_base v + sectors v * ss \<le> length ?c" "luks_base v + sectors v * ss < 2 ^ 64" using luks_facts [OF v] unfolding ss_def by metis
  have "a * ss + (b - a) * ss = b * ss" using r(1) by (metis add_mult_distrib le_add_diff_inverse less_imp_le)
  moreover have "b * ss \<le> sectors v * ss" using r(2) by (intro mult_le_mono1)
  ultimately have fit: "a * ss + (b - a) * ss \<le> sectors v * ss" by simp
  then show room: "luks_base v + a * ss + (b - a) * ss \<le> length ?c" using f(6) by simp
  show "sector_offset v a = Some (luks_base v + a * ss)"
    using f(7) fit by (simp add: sector_offset_def luks_base_def ss_def [symmetric] width_simps)
  let ?s = "slice ?c (luks_base v + a * ss) ((b - a) * ss)"
  have len: "length ?s = (b - a) * ss" using room by simp
  have "sector_map (decrypt_sector X (lv_master_key v)) ?s ss (lv_iv_tweak v + a * lv_tweak_step v) (lv_tweak_step v) = concat (map (plain_sector X ?c v) [a..<b])"
  proof -
    have "map (\<lambda>i. decrypt_sector X (lv_master_key v) (lv_iv_tweak v + a * lv_tweak_step v + i * lv_tweak_step v) (slice ?s (i * ss) ss)) [0..<b - a] =
        map (plain_sector X ?c v) [a..<b]"
    proof (rule nth_equalityI)
      fix i assume "i < length (map (\<lambda>i. decrypt_sector X (lv_master_key v) (lv_iv_tweak v + a * lv_tweak_step v + i * lv_tweak_step v)
          (slice ?s (i * ss) ss)) [0..<b - a])"
      then have i: "i < b - a" by simp
      then have "(i + 1) * ss \<le> (b - a) * ss" by (intro mult_le_mono1) simp
      then have "slice ?s (i * ss) ss = slice ?c (luks_base v + (a + i) * ss) ss" by (simp add: slice_slice algebra_simps)
      then show "map (\<lambda>i. decrypt_sector X (lv_master_key v) (lv_iv_tweak v + a * lv_tweak_step v + i * lv_tweak_step v) (slice ?s (i * ss) ss)) [0..<b - a] ! i =
          map (plain_sector X ?c v) [a..<b] ! i"
        using i by (simp add: plain_sector_def ss_def [symmetric] algebra_simps)
    qed simp
    then show ?thesis using len f(3) by (simp add: sector_map_def)
  qed
  moreover have "slice (plaintext X ?c v) (a * ss) ((b - a) * ss) = concat (map (plain_sector X ?c v) [a..<b])"
    unfolding ss_def using x f(4,6) r by (intro plaintext_sectors) (auto simp: ss_def)
  ultimately show "decrypted X B v (luks_base v + a * ss) a ((b - a) * ss) = Inr (slice (plaintext X ?c v) (a * ss) ((b - a) * ss))"
    using fetch_ok [OF f(2) room] f(3,5) len
    by (auto simp: decrypted_def xts_decrypt_def xts_run_def ss_def [symmetric])
qed

lemma luks_length:
  assumes "xts_ok X" "luks_ok content ok v"
  shows "length (luks_content X content v) = the (lv_segment_len v)"
proof -
  obtain len where f: "lv_segment_len v = Some len" "16 \<le> lv_sector_size v" "luks_base v + sectors v * lv_sector_size v \<le> length (content (lv_device v))"
    "len \<le> sectors v * lv_sector_size v" using luks_facts [OF assms(2)] by metis
  then show ?thesis using plaintext_sectors(1) [OF assms(1) f(2,3)] by (simp add: luks_content_def)
qed

lemma luks_read:
  assumes x: "xts_ok X" and v: "luks_ok content ok v" and n: "off + n \<le> the (lv_segment_len v)"
  shows "luks_read_at X B v off n = Inr (slice (luks_content X content v) off n)"
proof (cases "n = 0")
  case True
  then show ?thesis by (simp add: luks_read_at_def slice_def)
next
  case False
  let ?ss = "lv_sector_size v" and ?c = "content (lv_device v)"
  obtain len where f: "lv_segment_len v = Some len" "0 < ?ss" "luks_base v + sectors v * ?ss < 2 ^ 64" "len \<le> sectors v * ?ss"
    using luks_facts [OF v] by metis
  define a where "a = off div ?ss"
  define b where "b = div_ceil (off + n) ?ss"
  have ab: "a < b" "b \<le> sectors v" "off + n \<le> b * ?ss"
    using div_ceil_range [OF f(2), of off n "sectors v"] n f(1,4) False by (auto simp: a_def b_def)
  note d = decrypted_range [OF x v ab(1,2)]
  have ao: "a * ?ss \<le> off" by (simp add: a_def)
  have skip: "off - a * ?ss + n \<le> (b - a) * ?ss" using ab(3) ao by (simp add: diff_mult_distrib)
  have "slice (slice (plaintext X ?c v) (a * ?ss) ((b - a) * ?ss)) (off - a * ?ss) n = slice (plaintext X ?c v) off n"
    using slice_slice [OF skip, of "plaintext X ?c v" "a * ?ss"] ao by simp
  moreover have "slice (luks_content X content v) off n = slice (plaintext X ?c v) off n"
    using n f(1) by (simp add: luks_content_def slice_def drop_take min_def)
  moreover have "off + n < 2 ^ 64" "\<not> past_end v (off + n)" using n f by (simp_all add: past_end_def)
  ultimately show ?thesis using False f(2) d(1,3) by (simp add: luks_read_at_def width_simps a_def [symmetric] b_def [symmetric])
qed

text \<open>Encrypting whole sectors over their place changes the plaintext there and nowhere else.\<close>

lemma plaintext_rewrite:
  assumes x: "xts_ok X" and v: "16 \<le> lv_sector_size v" "luks_base v + sectors v * lv_sector_size v \<le> length c"
    and r: "a < b" "b \<le> sectors v" and p: "length p = (b - a) * lv_sector_size v"
  defines "ss \<equiv> lv_sector_size v"
  defines "enc \<equiv> sector_map (encrypt_sector X (lv_master_key v)) p ss (lv_iv_tweak v + a * lv_tweak_step v) (lv_tweak_step v)"
  shows "length enc = (b - a) * ss" "plaintext X (put c (luks_base v + a * ss) enc) v = put (plaintext X c v) (a * ss) p"
proof -
  have ss: "0 < ss" "16 \<le> ss" using v(1) by (simp_all add: ss_def)
  note sm = sector_map_sectors [where f = "encrypt_sector X (lv_master_key v)" and buf = p and k = "b - a" and ss = ss
      and tw = "lv_iv_tweak v + a * lv_tweak_step v" and st = "lv_tweak_step v", folded enc_def]
  show len: "length enc = (b - a) * ss" using p ss xts_lengths(2) [OF x] by (intro sm) (auto simp: ss_def)
  have abss: "a * ss + (b - a) * ss = b * ss" using r(1) by (metis add_mult_distrib le_add_diff_inverse less_imp_le)
  have bK: "b * ss \<le> sectors v * ss" using r(2) by (intro mult_le_mono1)
  have fit: "luks_base v + a * ss + length enc \<le> length c" using abss bK len v(2) unfolding ss_def by linarith
  let ?c = "put c (luks_base v + a * ss) enc"
  have lc: "length ?c = length c" using fit by simp
  note ps = plaintext_sectors [OF x v, folded ss_def]
  have v': "luks_base v + sectors v * lv_sector_size v \<le> length ?c" using v(2) lc by simp
  note ps' = plaintext_sectors [OF x v(1) v', folded ss_def]
  show "plaintext X ?c v = put (plaintext X c v) (a * ss) p"
  proof (rule sectors_eqI [where K = "sectors v" and ss = ss])
    have lp: "a * ss + length p \<le> length (plaintext X c v)" using p ps(1) abss bK by (simp add: ss_def [symmetric])
    show "length (put (plaintext X c v) (a * ss) p) = sectors v * ss" using lp ps(1) by simp
    fix i assume i: "i < sectors v"
    have step: "(i + 1) * ss \<le> a * ss" if "i < a" using that by (intro mult_le_mono1) simp
    have after: "b * ss \<le> i * ss" if "b \<le> i" using that by (rule mult_le_mono1)
    consider "i < a" | "b \<le> i" | "a \<le> i" "i < b" by linarith
    then have "plain_sector X ?c v i = slice (put (plaintext X c v) (a * ss) p) (i * ss) ss"
    proof cases
      case 1
      then have "slice ?c (luks_base v + i * ss) ss = slice c (luks_base v + i * ss) ss" using fit step by (intro slice_put_before) auto
      moreover have "slice (put (plaintext X c v) (a * ss) p) (i * ss) ss = slice (plaintext X c v) (i * ss) ss"
        using lp step [OF 1] by (intro slice_put_before) auto
      ultimately show ?thesis using ps(4) [OF i] by (simp add: plain_sector_def ss_def [symmetric])
    next
      case 2
      then have "slice ?c (luks_base v + i * ss) ss = slice c (luks_base v + i * ss) ss" using fit after len abss by (intro slice_put_after) auto
      moreover have "slice (put (plaintext X c v) (a * ss) p) (i * ss) ss = slice (plaintext X c v) (i * ss) ss"
        using lp after [OF 2] p abss by (intro slice_put_after) (auto simp: ss_def [symmetric])
      ultimately show ?thesis using ps(4) [OF i] by (simp add: plain_sector_def ss_def [symmetric])
    next
      case 3
      then obtain k where k: "i = a + k" "k < b - a" by (metis diff_less_mono le_add_diff_inverse)
      have kss: "k * ss + ss \<le> (b - a) * ss" using k(2) mult_le_mono1 [of "k + 1" "b - a" ss] by simp
      have "slice ?c (luks_base v + i * ss) ss = slice enc (k * ss) ss"
        using slice_within_put [of "k * ss" ss enc "luks_base v + a * ss" c] kss len fit by (simp add: k(1) algebra_simps)
      also have "\<dots> = encrypt_sector X (lv_master_key v) (lv_iv_tweak v + i * lv_tweak_step v) (slice p (k * ss) ss)"
        using sm(2) [of k] p ss xts_lengths(2) [OF x] k by (simp add: ss_def [symmetric] algebra_simps)
      finally have "plain_sector X ?c v i = slice p (k * ss) ss"
        using xts_lengths(3) [OF x] kss p ss(2) by (simp add: plain_sector_def ss_def [symmetric])
      moreover have "slice (put (plaintext X c v) (a * ss) p) (i * ss) ss = slice p (k * ss) ss"
        using slice_within_put [of "k * ss" ss p "a * ss" "plaintext X c v"] kss p lp by (simp add: k(1) ss_def [symmetric] algebra_simps)
      ultimately show ?thesis by simp
    qed
    then show "slice (plaintext X ?c v) (i * ss) ss = slice (put (plaintext X c v) (a * ss) p) (i * ss) ss" using ps'(4) [OF i] by simp
  qed (use ps'(1) ss in auto)
qed

lemma luks_write_chunk:
  assumes x: "xts_ok X" and v: "luks_ok content ok v" and n: "off + length b \<le> the (lv_segment_len v)" and b: "b \<noteq> []"
  shows "\<exists>d. write_at_chunk X B v off b = (Inr (), v\<lparr>lv_device := d\<rparr>) \<and> luks_ok content ok (v\<lparr>lv_device := d\<rparr>)
    \<and> luks_content X content (v\<lparr>lv_device := d\<rparr>) = put (luks_content X content v) off b \<and> segment_only v (content (lv_device v)) (content d)"
proof -
  let ?ss = "lv_sector_size v" and ?c = "content (lv_device v)"
  let ?P = "plaintext X ?c v"
  obtain len where f: "lv_segment_len v = Some len" "ok (lv_device v)" "0 < ?ss" "16 \<le> ?ss" "length (lv_master_key v) = 64 \<or> length (lv_master_key v) = 32"
    "luks_base v + sectors v * ?ss \<le> length ?c" "luks_base v + sectors v * ?ss < 2 ^ 64" "len \<le> sectors v * ?ss"
    using luks_facts [OF v] by metis
  define i where "i = off div ?ss"
  define j where "j = div_ceil (off + length b) ?ss"
  have ij: "i < j" "j \<le> sectors v" "off + length b \<le> j * ?ss"
    using div_ceil_range [OF f(3), of off "length b" "sectors v"] n f(1,8) b by (auto simp: i_def j_def)
  note d = decrypted_range [OF x v ij(1,2)]
  have lp: "length ?P = sectors v * ?ss" using plaintext_sectors(1) [OF x f(4,6)] .
  have io: "i * ?ss \<le> off" by (simp add: i_def)
  have skip: "off - i * ?ss + length b \<le> (j - i) * ?ss" using ij(3) io by (simp add: diff_mult_distrib)
  have ijs: "i * ?ss + (j - i) * ?ss \<le> sectors v * ?ss" using ij mult_le_mono1 [OF ij(2), of ?ss] by (simp add: diff_mult_distrib)
  define p where "p = put (slice ?P (i * ?ss) ((j - i) * ?ss)) (off - i * ?ss) b"
  have p: "length p = (j - i) * ?ss" using skip ijs lp by (simp add: p_def)
  have np: "(if off - i * ?ss = 0 \<and> (j - i) * ?ss = length b then Inr b
      else rbind (decrypted X B v (luks_base v + i * ?ss) i ((j - i) * ?ss)) (\<lambda>q. Inr (put q (off - i * ?ss) b))) = Inr p"
    using d(3) ijs lp by (auto simp: p_def put_def)
  define enc where "enc = sector_map (encrypt_sector X (lv_master_key v)) p ?ss (lv_iv_tweak v + i * lv_tweak_step v) (lv_tweak_step v)"
  note pr = plaintext_rewrite [OF x f(4,6) ij(1,2) p, folded enc_def]
  obtain d' where d': "dev_write B (lv_device v) (luks_base v + i * ?ss) enc = (Inr (), d')" "ok d'"
    "content d' = put ?c (luks_base v + i * ?ss) enc" using write_ok [OF f(2), of "luks_base v + i * ?ss" enc] d(2) pr(1) by auto
  have "off + length b < 2 ^ 64" using n f by simp
  moreover have "xts_encrypt X (lv_master_key v) p ?ss (lv_iv_tweak v + i * lv_tweak_step v) (lv_tweak_step v) = Inr enc"
    using f(3,5) p by (auto simp: xts_encrypt_def xts_run_def enc_def)
  ultimately have w: "write_at_chunk X B v off b = (Inr (), v\<lparr>lv_device := d'\<rparr>)"
    using f(3) d(1) np d'(1) unfolding write_at_chunk_def Let_def
    by (auto simp: width_simps i_def [symmetric] j_def [symmetric] split: if_splits)
  have room: "luks_base v + i * ?ss + length enc \<le> length ?c" using d(2) pr(1) by simp
  have ok': "luks_ok content ok (v\<lparr>lv_device := d'\<rparr>)"
    using v d'(2,3) room by (simp add: luks_ok_def luks_base_def sectors_def)
  have "plaintext X (content d') (v\<lparr>lv_device := d'\<rparr>) = plaintext X (content d') v"
    by (simp add: plaintext_def plain_sector_def [abs_def] sectors_def luks_base_def)
  also have "\<dots> = put ?P (i * ?ss) p" using pr(2) d'(3) by simp
  also have "\<dots> = put ?P off b" unfolding p_def using put_patched_slice [of "i * ?ss" "(j - i) * ?ss" ?P "off - i * ?ss" b] skip ijs lp io by simp
  finally have "luks_content X content (v\<lparr>lv_device := d'\<rparr>) = put (luks_content X content v) off b"
    using n f(1,8) lp by (simp add: luks_content_def take_put)
  moreover have "segment_only v ?c (content d')"
    unfolding d'(3) using pr(1) ijs f(6) by (intro segment_only_put) auto
  ultimately show ?thesis using w ok' by blast
qed

lemma luks_write_whole:
  assumes x: "xts_ok X" and v: "luks_ok content ok v" and n: "at + length b \<le> the (lv_segment_len v)"
  shows "\<exists>d k. write_whole X B v at b = (Inr (at + k, drop k b), v\<lparr>lv_device := d\<rparr>) \<and> k \<le> length b \<and> luks_ok content ok (v\<lparr>lv_device := d\<rparr>)
    \<and> luks_content X content (v\<lparr>lv_device := d\<rparr>) = put (luks_content X content v) at (take k b) \<and> segment_only v (content (lv_device v)) (content d)"
  using v n
proof (induction "length b" arbitrary: v at b rule: less_induct)
  case less
  let ?ss = "lv_sector_size v"
  have ss: "0 < ?ss" "?ss \<le> WRITE_CHUNK_BYTES" using less.prems(1) sector_sizes [of ?ss] by (auto simp: luks_ok_def)
  show ?case
  proof (cases "?ss \<le> length b")
    case False
    then have "write_whole X B v at b = (Inr (at + 0, drop 0 b), v\<lparr>lv_device := lv_device v\<rparr>)" by (simp add: write_whole.simps)
    then show ?thesis using less.prems(1) by (intro exI [of _ "lv_device v"] exI [of _ 0]) simp
  next
    case True
    define m where "m = min (length b div ?ss * ?ss) (WRITE_CHUNK_BYTES div ?ss * ?ss)"
    have pos: "length b - m < length b" using chunk_progress [OF ss True] by (simp add: m_def)
    have mb: "m \<le> length b" unfolding m_def by (rule min.coboundedI1) simp
    have tk: "take m b \<noteq> []" "length (take m b) = m" using pos mb by auto
    obtain d where d: "write_at_chunk X B v at (take m b) = (Inr (), v\<lparr>lv_device := d\<rparr>)" "luks_ok content ok (v\<lparr>lv_device := d\<rparr>)"
      "luks_content X content (v\<lparr>lv_device := d\<rparr>) = put (luks_content X content v) at (take m b)" "segment_only v (content (lv_device v)) (content d)"
      using luks_write_chunk [OF x less.prems(1), of at "take m b"] less.prems(2) tk mb by auto
    have n': "at + m + length (drop m b) \<le> the (lv_segment_len (v\<lparr>lv_device := d\<rparr>))" using less.prems(2) mb by simp
    obtain d2 k where k: "write_whole X B (v\<lparr>lv_device := d\<rparr>) (at + m) (drop m b) = (Inr (at + m + k, drop k (drop m b)), v\<lparr>lv_device := d2\<rparr>)"
      "k \<le> length (drop m b)" "luks_ok content ok (v\<lparr>lv_device := d2\<rparr>)"
      "luks_content X content (v\<lparr>lv_device := d2\<rparr>) = put (luks_content X content (v\<lparr>lv_device := d\<rparr>)) (at + m) (take k (drop m b))"
      "segment_only v (content d) (content d2)"
      using less.hyps [OF _ d(2) n'] pos by fastforce
    have "write_whole X B v at b = write_whole X B (v\<lparr>lv_device := d\<rparr>) (at + m) (drop m b)"
      using True ss d(1) by (subst write_whole.simps) (simp add: m_def [symmetric])
    then have "write_whole X B v at b = (Inr (at + (m + k), drop (m + k) b), v\<lparr>lv_device := d2\<rparr>)" using k(1) by (simp add: add.commute add.left_commute)
    moreover have "luks_content X content (v\<lparr>lv_device := d2\<rparr>) = put (luks_content X content v) at (take (m + k) b)"
    proof -
      have "length (luks_content X content v) = the (lv_segment_len v)" by (rule luks_length [OF x less.prems(1)])
      then have "put (put (luks_content X content v) at (take m b)) (at + length (take m b)) (take k (drop m b)) = put (luks_content X content v) at (take m b @ take k (drop m b))"
        using less.prems(2) k(2) mb by (intro put_put_adjacent) auto
      then show ?thesis using k(4) d(3) tk(2) by (simp add: take_add)
    qed
    ultimately show ?thesis using k(2,3) mb segment_only_trans [OF d(4) k(5)] by (intro exI [of _ d2] exI [of _ "m + k"]) auto
  qed
qed

lemma luks_write:
  assumes x: "xts_ok X" and v: "luks_ok content ok v" and n: "off + length b \<le> the (lv_segment_len v)"
  shows "\<exists>d. luks_write_at X B v off b = (Inr (), v\<lparr>lv_device := d\<rparr>) \<and> luks_ok content ok (v\<lparr>lv_device := d\<rparr>)
    \<and> luks_content X content (v\<lparr>lv_device := d\<rparr>) = put (luks_content X content v) off b \<and> segment_only v (content (lv_device v)) (content d)"
proof -
  let ?ss = "lv_sector_size v"
  obtain len where f: "lv_segment_len v = Some len" "0 < ?ss" "luks_base v + sectors v * ?ss < 2 ^ 64" "len \<le> sectors v * ?ss"
    using luks_facts [OF v] by metis
  have len: "length (luks_content X content v) = len" using luks_length [OF x v] f(1) by simp
  have "off + length b < 2 ^ 64" "\<not> past_end v (off + length b)" using n f by (simp_all add: past_end_def)
  then have g: "luks_write_at X B v off b = (if b = [] then (Inr (), v) else if length b \<le> WRITE_CHUNK_BYTES then write_at_chunk X B v off b
      else let head = (if off mod ?ss = 0 then 0 else min (?ss - off mod ?ss) (length b)) in
        case (if head = 0 then (Inr (), v) else write_at_chunk X B v off (take head b)) of
          (Inl err, v) \<Rightarrow> (Inl err, v)
        | (Inr _, v) \<Rightarrow> (case write_whole X B v (off + head) (drop head b) of
            (Inl err, v) \<Rightarrow> (Inl err, v) | (Inr (at, rest), v) \<Rightarrow> if rest = [] then (Inr (), v) else write_at_chunk X B v at rest))"
    using f(2) unfolding luks_write_at_def Let_def [of "lv_sector_size v"] by (simp add: width_simps)
  consider "b = []" | "b \<noteq> []" "length b \<le> WRITE_CHUNK_BYTES" | "b \<noteq> []" "\<not> length b \<le> WRITE_CHUNK_BYTES" by blast
  then show ?thesis
  proof cases
    case 1
    then show ?thesis using g v by (intro exI [of _ "lv_device v"]) simp
  next
    case 2
    then show ?thesis using g luks_write_chunk [OF x v n] by simp
  next
    case 3
    define h where "h = (if off mod ?ss = 0 then 0 else min (?ss - off mod ?ss) (length b))"
    have h: "h \<le> length b" by (simp add: h_def)
    obtain d1 where d1: "(if h = 0 then (Inr (), v) else write_at_chunk X B v off (take h b)) = (Inr (), v\<lparr>lv_device := d1\<rparr>)"
      "luks_ok content ok (v\<lparr>lv_device := d1\<rparr>)" "luks_content X content (v\<lparr>lv_device := d1\<rparr>) = put (luks_content X content v) off (take h b)"
      "segment_only v (content (lv_device v)) (content d1)"
    proof (cases "h = 0")
      case True
      then show ?thesis using that [of "lv_device v"] v by simp
    next
      case False
      then show ?thesis using that luks_write_chunk [OF x v, of off "take h b"] n h 3(1) by auto
    qed
    have n1: "off + h + length (drop h b) \<le> the (lv_segment_len (v\<lparr>lv_device := d1\<rparr>))" using n h by simp
    obtain d2 k where k: "write_whole X B (v\<lparr>lv_device := d1\<rparr>) (off + h) (drop h b) = (Inr (off + h + k, drop k (drop h b)), v\<lparr>lv_device := d2\<rparr>)"
      "k \<le> length (drop h b)" "luks_ok content ok (v\<lparr>lv_device := d2\<rparr>)"
      "luks_content X content (v\<lparr>lv_device := d2\<rparr>) = put (luks_content X content (v\<lparr>lv_device := d1\<rparr>)) (off + h) (take k (drop h b))"
      "segment_only v (content d1) (content d2)"
      using luks_write_whole [OF x d1(2) n1] by auto
    have c2: "luks_content X content (v\<lparr>lv_device := d2\<rparr>) = put (luks_content X content v) off (take (h + k) b)"
      using k(2,4) d1(3) put_put_adjacent [of off "take h b" "take k (drop h b)" "luks_content X content v"] n h len f(1) by (simp add: take_add)
    show ?thesis
    proof (cases "drop k (drop h b) = []")
      case True
      then have "take (h + k) b = b" by simp
      then show ?thesis using g 3 d1(1) k(1,3) True c2 segment_only_trans [OF d1(4) k(5)] by (intro exI [of _ d2]) (simp add: h_def [symmetric])
    next
      case False
      have "off + h + k + length (drop k (drop h b)) \<le> the (lv_segment_len (v\<lparr>lv_device := d2\<rparr>))" using n h k(2) by simp
      from luks_write_chunk [OF x k(3) this False] obtain d3 where d3:
        "write_at_chunk X B (v\<lparr>lv_device := d2\<rparr>) (off + h + k) (drop k (drop h b)) = (Inr (), v\<lparr>lv_device := d3\<rparr>)"
        "luks_ok content ok (v\<lparr>lv_device := d3\<rparr>)"
        "luks_content X content (v\<lparr>lv_device := d3\<rparr>) = put (luks_content X content (v\<lparr>lv_device := d2\<rparr>)) (off + h + k) (drop k (drop h b))"
        "segment_only v (content d2) (content d3)" by auto
      have "luks_content X content (v\<lparr>lv_device := d3\<rparr>) = put (luks_content X content v) off b"
        using d3(3) c2 put_put_adjacent [of off "take (h + k) b" "drop (h + k) b" "luks_content X content v"] n h k(2) len f(1)
        by (simp add: add.assoc add.commute [of k h])
      then show ?thesis using g 3 d1(1) k(1) d3(1,2) False segment_only_trans [OF segment_only_trans [OF d1(4) k(5)] d3(4)] by (intro exI [of _ d3]) (simp add: h_def [symmetric])
    qed
  qed
qed

lemma luks_store:
  assumes x: "xts_ok X"
  shows "byte_store (luks_dev X B) (luks_content X content) (luks_ok content ok)"
proof
  fix v :: "'d luks_volume" and off n :: nat
  assume v: "luks_ok content ok v"
  obtain len where f: "lv_segment_len v = Some len" "luks_base v + sectors v * lv_sector_size v < 2 ^ 64" "len \<le> sectors v * lv_sector_size v"
    using luks_facts [OF v] by metis
  have l: "length (luks_content X content v) = len" using luks_length [OF x v] f(1) by simp
  then show "length (luks_content X content v) < 2 ^ 64" using f by simp
  show "dev_read (luks_dev X B) v off n = Inr (slice (luks_content X content v) off n)" if "off + n \<le> length (luks_content X content v)"
    using luks_read [OF x v] that l f(1) by (simp add: luks_dev_def)
next
  fix v :: "'d luks_volume" and off :: nat and b :: bytes
  assume v: "luks_ok content ok v" "off + length b \<le> length (luks_content X content v)"
  then show "\<exists>v'. dev_write (luks_dev X B) v off b = (Inr (), v') \<and> luks_ok content ok v' \<and> luks_content X content v' = put (luks_content X content v) off b"
    using luks_write [OF x v(1), of off b] luks_length [OF x v(1)] by (auto simp: luks_dev_def)
qed

end

end
