(* ===== verification/Volume_Source.thy ===== *)
theory Volume_Source
  imports Luks_Volume
begin

text \<open>
  Where a mounted filesystem's bytes come from (\<open>VolumeSource\<close> of \<open>core/src/volume.rs\<close>): an unlocked LUKS volume or a
  plain partition of the same device type. Either is a byte store when the device is one.
\<close>

datatype 'd volume_source = Luks "'d luks_volume" | Plain "'d plain_volume"

definition source_read_at :: "xts_crate \<Rightarrow> 'd block_dev \<Rightarrow> 'd volume_source \<Rightarrow> nat \<Rightarrow> nat \<Rightarrow> bytes result" where
  "source_read_at X B s off n = (case s of Luks v \<Rightarrow> luks_read_at X B v off n | Plain v \<Rightarrow> plain_read_at B v off n)"

definition source_write_at :: "xts_crate \<Rightarrow> 'd block_dev \<Rightarrow> 'd volume_source \<Rightarrow> nat \<Rightarrow> bytes \<Rightarrow> unit result \<times> 'd volume_source" where
  "source_write_at X B s off b =
     (case s of
        Luks v \<Rightarrow> (case luks_write_at X B v off b of (r, v) \<Rightarrow> (r, Luks v))
      | Plain v \<Rightarrow> (case plain_write_at B v off b of (r, v) \<Rightarrow> (r, Plain v)))"

definition source_len :: "'d volume_source \<Rightarrow> nat option" where
  "source_len s = (case s of Luks v \<Rightarrow> lv_segment_len v | Plain v \<Rightarrow> Some (pv_len v))"

definition source_dev :: "xts_crate \<Rightarrow> 'd block_dev \<Rightarrow> 'd volume_source block_dev" where
  "source_dev X B = \<lparr>dev_read = source_read_at X B, dev_write = source_write_at X B, dev_len = source_len\<rparr>"

definition source_content :: "xts_crate \<Rightarrow> ('d \<Rightarrow> bytes) \<Rightarrow> 'd volume_source \<Rightarrow> bytes" where
  "source_content X content s = (case s of Luks v \<Rightarrow> luks_content X content v | Plain v \<Rightarrow> plain_content content v)"

definition source_ok :: "('d \<Rightarrow> bytes) \<Rightarrow> ('d \<Rightarrow> bool) \<Rightarrow> 'd volume_source \<Rightarrow> bool" where
  "source_ok content ok s = (case s of Luks v \<Rightarrow> luks_ok content ok v | Plain v \<Rightarrow> plain_ok content ok v)"

context plain_store
begin

lemma source_store:
  assumes x: "xts_ok X"
  shows "byte_store (source_dev X B) (source_content X content) (source_ok content ok)"
proof -
  note ls = under.luks_store [OF x]
  have rd: "source_read_at X B s off n = Inr (slice (source_content X content s) off n)"
    if "source_ok content ok s" "off + n \<le> length (source_content X content s)" for s off n
    using that byte_store.read_ok [OF ls] read_ok
    by (cases s) (auto simp: source_read_at_def source_ok_def source_content_def luks_dev_def plain_dev_def)
  have wr: "\<exists>s'. source_write_at X B s off b = (Inr (), s') \<and> source_ok content ok s' \<and> source_content X content s' = put (source_content X content s) off b"
    if a: "source_ok content ok s" "off + length b \<le> length (source_content X content s)" for s off b
  proof (cases s)
    case (Luks v)
    then obtain v' where "luks_write_at X B v off b = (Inr (), v')" "luks_ok content ok v'" "luks_content X content v' = put (luks_content X content v) off b"
      using a byte_store.write_ok [OF ls, of v off b] by (auto simp: source_ok_def source_content_def luks_dev_def)
    then show ?thesis using Luks by (auto simp: source_write_at_def source_ok_def source_content_def)
  next
    case (Plain v)
    then obtain v' where "plain_write_at B v off b = (Inr (), v')" "plain_ok content ok v'" "plain_content content v' = put (plain_content content v) off b"
      using a write_ok [of v off b] by (auto simp: source_ok_def source_content_def plain_dev_def)
    then show ?thesis using Plain by (auto simp: source_write_at_def source_ok_def source_content_def)
  qed
  have len: "length (source_content X content s) < 2 ^ 64" if "source_ok content ok s" for s
    using that byte_store.content_len [OF ls] content_len by (cases s) (auto simp: source_ok_def source_content_def)
  show ?thesis by unfold_locales (use rd wr len in \<open>auto simp: source_dev_def\<close>)
qed

end

section \<open>Volumes of a memory device\<close>

definition vol_dev :: "xts_crate \<Rightarrow> bytes volume_source block_dev" where
  "vol_dev X = source_dev X mem_device"

definition vol_content :: "xts_crate \<Rightarrow> bytes volume_source \<Rightarrow> bytes" where
  "vol_content X = source_content X (\<lambda>d. d)"

definition vol_ok :: "bytes volume_source \<Rightarrow> bool" where
  "vol_ok = source_ok (\<lambda>d. d) (\<lambda>d. length d < 2 ^ 64)"

lemma vol_store: "xts_ok X \<Longrightarrow> byte_store (vol_dev X) (vol_content X) vol_ok"
  unfolding vol_dev_def vol_content_def vol_ok_def by (rule disk.source_store)

text \<open>A cipher for examples: complement every byte.\<close>

definition not_xts :: xts_crate where
  "not_xts = \<lparr>decrypt_sector = (\<lambda>_ _ b. map not b), encrypt_sector = (\<lambda>_ _ b. map not b)\<rparr>"

lemma not_xts_ok: "xts_ok not_xts"
  by (simp add: xts_ok_def not_xts_def comp_def)

lemma not_xts_plaintext:
  assumes "length c = sectors v * lv_sector_size v" "0 < lv_sector_size v" "luks_base v = length pre"
  shows "plaintext not_xts (pre @ map not c) v = c"
proof -
  let ?ss = "lv_sector_size v"
  have s: "plain_sector not_xts (pre @ map not c) v i = slice c (i * ?ss) ?ss" for i
    using assms(3) by (simp add: plain_sector_def not_xts_def slice_def comp_def take_map drop_map)
  have l: "length (slice c (i * ?ss) ?ss) = ?ss" if "i < sectors v" for i
    using that assms(1) mult_le_mono1 [of "i + 1" "sectors v" ?ss] by simp
  have len: "length (concat (map (\<lambda>i. slice c (i * ?ss) ?ss) [0..<sectors v])) = sectors v * ?ss"
    using l by (subst length_concat_sectors [where ss = ?ss]) auto
  have "concat (map (\<lambda>i. slice c (i * ?ss) ?ss) [0..<sectors v]) = c"
  proof (rule sectors_eqI [OF len assms(1) _ assms(2)])
    fix i assume "i < sectors v"
    then show "slice (concat (map (\<lambda>i. slice c (i * ?ss) ?ss) [0..<sectors v])) (i * ?ss) ?ss = slice c (i * ?ss) ?ss"
      using slice_concat_sectors [of "sectors v" "\<lambda>i. slice c (i * ?ss) ?ss" ?ss i "Suc i"] l by simp
  qed
  moreover have "plain_sector not_xts (pre @ map not c) v = (\<lambda>i. slice c (i * ?ss) ?ss)" by (rule ext) (rule s)
  ultimately show ?thesis by (simp add: plaintext_def)
qed

section \<open>Properties\<close>

text \<open>C3: An unlocked LUKS volume behaves as the decrypted bytes of its segment. Reads of any alignment inside the segment return the
  plaintext, writes of any alignment and length change exactly the named plaintext bytes and no byte of the device outside the
  segment's cipher sectors, and a read or write that passes the end of the segment is refused before the device is touched. The
  cipher only has to be length preserving and invertible on sectors.\<close>

theorem luks_volume_exact:
  assumes "xts_ok X" "luks_ok (\<lambda>d. d) (\<lambda>d. length d < 2 ^ 64) v" "lv_segment_len v = Some len"
  shows "(off + n \<le> len \<longrightarrow> luks_read_at X mem_device v off n = Inr (slice (luks_content X (\<lambda>d. d) v) off n))
    \<and> (off + length b \<le> len \<longrightarrow> (\<exists>d. luks_write_at X mem_device v off b = (Inr (), v\<lparr>lv_device := d\<rparr>)
         \<and> luks_content X (\<lambda>d. d) (v\<lparr>lv_device := d\<rparr>) = put (luks_content X (\<lambda>d. d) v) off b \<and> segment_only v (lv_device v) d))
    \<and> (len < off + n \<and> 0 < n \<longrightarrow> luks_read_at X mem_device v off n = Inl OutOfBounds)
    \<and> (len < off + length b \<and> b \<noteq> [] \<longrightarrow> luks_write_at X mem_device v off b = (Inl OutOfBounds, v))"
proof (intro conjI impI)
  assume "off + length b \<le> len"
  then show "\<exists>d. luks_write_at X mem_device v off b = (Inr (), v\<lparr>lv_device := d\<rparr>)
         \<and> luks_content X (\<lambda>d. d) (v\<lparr>lv_device := d\<rparr>) = put (luks_content X (\<lambda>d. d) v) off b \<and> segment_only v (lv_device v) d"
    using mem.luks_write [OF assms(1,2), of off b] assms(3) by auto
next
  assume "len < off + n \<and> 0 < n"
  then show "luks_read_at X mem_device v off n = Inl OutOfBounds"
    using assms(3) by (simp add: luks_read_at_def past_end_def checked_add64_def)
next
  assume "len < off + length b \<and> b \<noteq> []"
  then show "luks_write_at X mem_device v off b = (Inl OutOfBounds, v)"
    using assms(3) by (simp add: luks_write_at_def past_end_def checked_add64_def)
qed (use mem.luks_read [OF assms(1,2), of off n] assms(3) in simp)

definition sample_luks :: "bytes luks_volume" where
  "sample_luks = \<lparr>lv_device = replicate 512 0 @ map not (replicate 1024 7), lv_partition_offset = 0, lv_segment_offset = 512,
     lv_segment_len = Some 1000, lv_sector_size = 512, lv_iv_tweak = 0, lv_tweak_step = 1, lv_master_key = replicate 64 0\<rparr>"

theorem luks_volume_exact_witness:
  "luks_read_at not_xts mem_device sample_luks 500 100 = Inr (replicate 100 7)
   \<and> (\<exists>d. luks_write_at not_xts mem_device sample_luks 500 [1, 2] = (Inr (), sample_luks\<lparr>lv_device := d\<rparr>) \<and> segment_only sample_luks (lv_device sample_luks) d)
   \<and> luks_write_at not_xts mem_device sample_luks 999 [1, 2] = (Inl OutOfBounds, sample_luks)"
proof -
  have ok: "luks_ok (\<lambda>d. d) (\<lambda>d. length d < 2 ^ 64) sample_luks" and len: "lv_segment_len sample_luks = Some 1000"
    by (simp_all add: luks_ok_def sample_luks_def luks_base_def sectors_def div_ceil_def)
  have "plaintext not_xts (replicate 512 0 @ map not (replicate 1024 7)) sample_luks = replicate 1024 7"
    by (rule not_xts_plaintext) (simp_all add: sample_luks_def luks_base_def sectors_def div_ceil_def)
  then have "luks_content not_xts (\<lambda>d. d) sample_luks = replicate 1000 7" by (simp add: luks_content_def sample_luks_def)
  then have "slice (luks_content not_xts (\<lambda>d. d) sample_luks) 500 100 = replicate 100 7" by (simp add: slice_def)
  then show ?thesis
    using luks_volume_exact [OF not_xts_ok ok len, of 500 100 "[1, 2]"] luks_volume_exact [OF not_xts_ok ok len, of 999 0 "[1, 2]"] by auto
qed

end
