(* ===== verification/Luks_Keyslot.thy ===== *)
theory Luks_Keyslot
  imports Volume_Source
begin

text \<open>
  From a password to a verified master key (\<open>core/src/luks/keyslot.rs\<close>, the metadata types of \<open>luks/header.rs\<close>,
  \<open>LuksVolume::open\<close> of \<open>luks/volume.rs\<close>): key derivation, decryption of a keyslot area, the anti-forensic merge, the
  digest check and the search over keyslots. Argon2, PBKDF2 and SHA-2 are the external crates; they are the argument \<open>C\<close>.
\<close>

section \<open>Metadata\<close>

record argon2_params =
  a2_salt :: bytes
  a2_time :: nat
  a2_memory :: nat
  a2_cpus :: nat

datatype kdf =
    Argon2i argon2_params
  | Argon2id argon2_params
  | Pbkdf2 (pb_salt: bytes) (pb_hash: string) (pb_iterations: nat)

record anti_forensic =
  af_kind :: string
  af_stripes :: nat
  af_hash :: string

record area =
  area_kind :: string
  area_offset :: nat
  area_size :: nat
  area_encryption :: string
  area_key_size :: nat

record keyslot =
  ks_kind :: string
  ks_key_size :: nat
  ks_kdf :: kdf
  ks_area :: area
  ks_af :: "anti_forensic option"
  ks_priority :: "int option"

record digest =
  dg_kind :: string
  dg_keyslots :: "string list"
  dg_segments :: "string list"
  dg_hash :: string
  dg_iterations :: nat
  dg_salt :: bytes
  dg_digest :: bytes

text \<open>The maps of the metadata, as their entries in key order.\<close>

record metadata =
  md_keyslots :: "(string \<times> keyslot) list"
  md_segments :: "(string \<times> segment) list"
  md_digests :: "(string \<times> digest) list"

section \<open>Key derivation\<close>

datatype argon2_algorithm = Algorithm_Argon2i | Algorithm_Argon2id

text \<open>What the source calls of the crates: \<open>Params::new\<close> (an error or nothing), the Argon2 hash, PBKDF2 over HMAC of a hash,
  and the two hash functions. A key derivation is told how many bytes to fill.\<close>

datatype hmac_hash = Sha256 | Sha512

record crypto_crates =
  argon2_check :: "nat \<Rightarrow> nat \<Rightarrow> nat \<Rightarrow> nat \<Rightarrow> string option"
  argon2_fill :: "argon2_algorithm \<Rightarrow> argon2_params \<Rightarrow> bytes \<Rightarrow> nat \<Rightarrow> string + bytes"
  pbkdf2_fill :: "hmac_hash \<Rightarrow> bytes \<Rightarrow> bytes \<Rightarrow> nat \<Rightarrow> nat \<Rightarrow> string + bytes"
  hash_bytes :: "hmac_hash \<Rightarrow> bytes \<Rightarrow> bytes"

definition kdf_result :: "string + bytes \<Rightarrow> bytes result" where
  "kdf_result r = (case r of Inl e \<Rightarrow> Inl (KdfFailed e) | Inr b \<Rightarrow> Inr b)"

definition hash_named :: "string \<Rightarrow> hmac_hash result" where
  "hash_named h = (if h = ''sha256'' then Inr Sha256 else if h = ''sha512'' then Inr Sha512 else Inl (UnsupportedHash h))"

definition pbkdf2_into :: "crypto_crates \<Rightarrow> string \<Rightarrow> bytes \<Rightarrow> bytes \<Rightarrow> nat \<Rightarrow> nat \<Rightarrow> bytes result" where
  "pbkdf2_into C h pw salt rounds n = rbind (hash_named h) (\<lambda>a. kdf_result (pbkdf2_fill C a pw salt rounds n))"

definition argon2_derive :: "crypto_crates \<Rightarrow> argon2_algorithm \<Rightarrow> argon2_params \<Rightarrow> bytes \<Rightarrow> nat \<Rightarrow> bytes result" where
  "argon2_derive C a p pw n =
     (case argon2_check C (a2_memory p) (a2_time p) (a2_cpus p) n of
        Some e \<Rightarrow> Inl (KdfFailed e)
      | None \<Rightarrow> kdf_result (argon2_fill C a p pw n))"

definition derive_key :: "crypto_crates \<Rightarrow> kdf \<Rightarrow> bytes \<Rightarrow> nat \<Rightarrow> bytes result" where
  "derive_key C k pw n =
     (case k of
        Argon2id p \<Rightarrow> argon2_derive C Algorithm_Argon2id p pw n
      | Argon2i p \<Rightarrow> argon2_derive C Algorithm_Argon2i p pw n
      | Pbkdf2 salt h iterations \<Rightarrow> pbkdf2_into C h pw salt iterations n)"

section \<open>The anti-forensic splitter, in reverse\<close>

definition digest_size :: "hmac_hash \<Rightarrow> nat" where
  "digest_size a = (case a of Sha256 \<Rightarrow> 32 | Sha512 \<Rightarrow> 64)"

definition diffuse_chunk :: "crypto_crates \<Rightarrow> hmac_hash \<Rightarrow> bytes \<Rightarrow> nat \<Rightarrow> bytes \<Rightarrow> bytes" where
  "diffuse_chunk C a block i out =
     (let chunk = slice block (i * digest_size a) (digest_size a);
          digest = hash_bytes C a (be_bytes 4 i @ chunk);
          n = min (length chunk) (length digest)
      in put out (i * digest_size a) (take n digest))"

definition diffuse :: "crypto_crates \<Rightarrow> string \<Rightarrow> bytes \<Rightarrow> bytes result" where
  "diffuse C h block = rbind (hash_named h) (\<lambda>a.
     Inr (fold (diffuse_chunk C a block) [0..<div_ceil (length block) (digest_size a)] (replicate (length block) 0)))"

definition xor_into :: "bytes \<Rightarrow> bytes \<Rightarrow> bytes" where
  "xor_into d s = map2 xor d s"

fun af_fold :: "crypto_crates \<Rightarrow> string \<Rightarrow> bytes \<Rightarrow> nat \<Rightarrow> nat list \<Rightarrow> bytes \<Rightarrow> bytes result" where
  "af_fold C h src bs [] d = Inr d"
| "af_fold C h src bs (i # is) d = rbind (diffuse C h (xor_into d (slice src (i * bs) bs))) (af_fold C h src bs is)"

definition af_merge :: "crypto_crates \<Rightarrow> bytes \<Rightarrow> nat \<Rightarrow> nat \<Rightarrow> string \<Rightarrow> bytes result" where
  "af_merge C src bs stripes h =
     (if stripes = 0 then Inl (Missing ''AF stripes'')
      else case checked_mul64 bs stripes of
          None \<Rightarrow> Inl (Missing ''AF stripes'')
        | Some needed \<Rightarrow>
            if length src < needed then Inl (Truncated needed (length src))
            else rbind (af_fold C h src bs [0..<stripes - 1] (replicate bs 0)) (\<lambda>d.
              Inr (xor_into d (slice src ((stripes - 1) * bs) bs))))"

section \<open>Opening a keyslot\<close>

definition KEYSLOT_SECTOR_SIZE :: nat where "KEYSLOT_SECTOR_SIZE = 512"

definition decrypt_keyslot_area :: "xts_crate \<Rightarrow> string \<Rightarrow> bytes \<Rightarrow> bytes \<Rightarrow> bytes result" where
  "decrypt_keyslot_area X encryption key buf =
     (if encryption \<noteq> ''aes-xts-plain64'' then Inl (UnsupportedCipher encryption)
      else xts_decrypt X key buf KEYSLOT_SECTOR_SIZE 0 1)"

definition verify_digest :: "crypto_crates \<Rightarrow> digest \<Rightarrow> bytes \<Rightarrow> bool result" where
  "verify_digest C dg key =
     (if dg_kind dg \<noteq> ''pbkdf2'' then Inl (UnsupportedDigest (dg_kind dg))
      else rbind (pbkdf2_into C (dg_hash dg) key (dg_salt dg) (dg_iterations dg) (length (dg_digest dg)))
        (\<lambda>computed. Inr (computed = dg_digest dg)))"

text \<open>The loop over the digests: the first that matches decides, an error ends it.\<close>

fun any_digest :: "crypto_crates \<Rightarrow> digest list \<Rightarrow> bytes \<Rightarrow> bool result" where
  "any_digest C [] key = Inr False"
| "any_digest C (dg # dgs) key = rbind (verify_digest C dg key) (\<lambda>ok. if ok then Inr True else any_digest C dgs key)"

definition material_read_len :: "nat \<Rightarrow> nat" where
  "material_read_len n = mul64 (div_ceil n KEYSLOT_SECTOR_SIZE) KEYSLOT_SECTOR_SIZE"

definition try_keyslot :: "crypto_crates \<Rightarrow> xts_crate \<Rightarrow> 'd block_dev \<Rightarrow> 'd \<Rightarrow> nat \<Rightarrow> metadata \<Rightarrow> keyslot \<Rightarrow> bytes \<Rightarrow> bytes option result" where
  "try_keyslot C X B d poff md slot pw =
     rbind (derive_key C (ks_kdf slot) pw (area_key_size (ks_area slot))) (\<lambda>derived.
       case ks_af slot of
         None \<Rightarrow> Inl (Missing ''AF parameters'')
       | Some af \<Rightarrow>
           (case checked_mul64 (ks_key_size slot) (af_stripes af) of
              None \<Rightarrow> Inl (Missing ''AF stripes'')
            | Some material_len \<Rightarrow>
                if material_len > area_size (ks_area slot) then Inl (Truncated material_len (area_size (ks_area slot)))
                else
                  rbind (fetch B d (add64 poff (area_offset (ks_area slot))) (material_read_len material_len)) (\<lambda>c.
                  rbind (decrypt_keyslot_area X (area_encryption (ks_area slot)) derived c) (\<lambda>p.
                  rbind (af_merge C p (ks_key_size slot) (af_stripes af) (af_hash af)) (\<lambda>candidate.
                  rbind (any_digest C (map snd (md_digests md)) candidate) (\<lambda>ok.
                    Inr (if ok then Some candidate else None)))))))"

fun try_slots :: "crypto_crates \<Rightarrow> xts_crate \<Rightarrow> 'd block_dev \<Rightarrow> 'd \<Rightarrow> nat \<Rightarrow> metadata \<Rightarrow> keyslot list \<Rightarrow> bytes \<Rightarrow> bytes result" where
  "try_slots C X B d poff md [] pw = Inl WrongPassword"
| "try_slots C X B d poff md (slot # slots) pw =
     (if ks_kind slot \<noteq> ''luks2'' then try_slots C X B d poff md slots pw
      else rbind (try_keyslot C X B d poff md slot pw) (\<lambda>r.
        case r of Some key \<Rightarrow> Inr key | None \<Rightarrow> try_slots C X B d poff md slots pw))"

definition unlock :: "crypto_crates \<Rightarrow> xts_crate \<Rightarrow> 'd block_dev \<Rightarrow> 'd \<Rightarrow> nat \<Rightarrow> metadata \<Rightarrow> bytes \<Rightarrow> bytes result" where
  "unlock C X B d poff md pw =
     (if md_keyslots md = [] then Inl (Missing ''keyslots'')
      else try_slots C X B d poff md (map snd (md_keyslots md)) pw)"

definition luks_open :: "crypto_crates \<Rightarrow> xts_crate \<Rightarrow> 'd block_dev \<Rightarrow> 'd \<Rightarrow> nat \<Rightarrow> nat option \<Rightarrow> metadata \<Rightarrow> bytes \<Rightarrow> 'd luks_volume result" where
  "luks_open C X B d poff plen md pw =
     rbind (unlock C X B d poff md pw) (with_master_key B d poff plen (map snd (md_segments md)))"

section \<open>The splitter\<close>

text \<open>The reference: a block is diffused by hashing it in pieces, and a key is split into random stripes and a last one that
  makes the chain come out at the key. \<open>crates_ok\<close> is what the hash crates document: the size of their digests.\<close>

definition crates_ok :: "crypto_crates \<Rightarrow> bool" where
  "crates_ok C \<longleftrightarrow> (\<forall>a b. length (hash_bytes C a b) = digest_size a)"

definition diffused :: "crypto_crates \<Rightarrow> hmac_hash \<Rightarrow> bytes \<Rightarrow> bytes" where
  "diffused C a block = take (length block)
     (concat (map (\<lambda>i. hash_bytes C a (be_bytes 4 i @ slice block (i * digest_size a) (digest_size a))) [0..<div_ceil (length block) (digest_size a)]))"

definition af_chain :: "crypto_crates \<Rightarrow> hmac_hash \<Rightarrow> bytes list \<Rightarrow> bytes \<Rightarrow> bytes" where
  "af_chain C a = fold (\<lambda>r d. diffused C a (xor_into d r))"

definition af_split :: "crypto_crates \<Rightarrow> hmac_hash \<Rightarrow> bytes list \<Rightarrow> bytes \<Rightarrow> bytes" where
  "af_split C a rs key = concat rs @ xor_into (af_chain C a rs (replicate (length key) 0)) key"

lemma digest_size_pos [simp]: "0 < digest_size a"
  by (simp add: digest_size_def split: hmac_hash.split)

lemma length_xor_into [simp]: "length (xor_into d s) = min (length d) (length s)"
  by (simp add: xor_into_def)

lemma xor_into_cancel: "length d = length k \<Longrightarrow> xor_into d (xor_into d k) = k"
  by (rule nth_equalityI) (simp_all add: xor_into_def xor.assoc [symmetric])

lemma diffuse_chunks:
  assumes "crates_ok C" "k \<le> div_ceil (length block) (digest_size a)"
  shows "fold (diffuse_chunk C a block) [0..<k] (replicate (length block) 0) =
    take (length block) (concat (map (\<lambda>i. hash_bytes C a (be_bytes 4 i @ slice block (i * digest_size a) (digest_size a))) [0..<k]))
      @ replicate (length block - k * digest_size a) 0"
  using assms(2)
proof (induction k)
  case (Suc k)
  let ?s = "digest_size a" and ?n = "length block"
  let ?h = "\<lambda>i. hash_bytes C a (be_bytes 4 i @ slice block (i * ?s) ?s)"
  let ?c = "concat (map ?h [0..<k])"
  have "\<not> ?n \<le> k * ?s" using Suc.prems div_ceil_le [of ?s ?n k] by (metis digest_size_pos not_less_eq_eq)
  then have kn: "k * ?s < ?n" by simp
  have h: "length (?h i) = ?s" for i using assms(1) by (simp add: crates_ok_def)
  have c: "length ?c = k * ?s" using h by (subst length_concat_sectors [where ss = ?s]) auto
  have "fold (diffuse_chunk C a block) [0..<Suc k] (replicate ?n 0) = diffuse_chunk C a block k (?c @ replicate (?n - k * ?s) 0)"
    using Suc kn c by simp
  also have "\<dots> = ?c @ take (min ?s (?n - k * ?s)) (?h k) @ replicate (?n - Suc k * ?s) 0"
    using h c by (simp add: diffuse_chunk_def Let_def put_def min_def add.commute)
  finally show ?case using kn c h by (simp add: min_def)
qed simp

lemma diffuse_spec:
  assumes "crates_ok C" "hash_named h = Inr a"
  shows "diffuse C h block = Inr (diffused C a block)" "length (diffused C a block) = length block"
proof -
  let ?s = "digest_size a" and ?k = "div_ceil (length block) (digest_size a)"
  have up: "length block \<le> ?k * ?s" by (simp add: div_ceil_upper)
  show "diffuse C h block = Inr (diffused C a block)" using assms up by (simp add: diffuse_def diffuse_chunks diffused_def)
  have "length (concat (map (\<lambda>i. hash_bytes C a (be_bytes 4 i @ slice block (i * ?s) ?s)) [0..<?k])) = ?k * ?s"
    using assms(1) by (subst length_concat_sectors [where ss = ?s]) (auto simp: crates_ok_def)
  then show "length (diffused C a block) = length block" using up by (simp add: diffused_def)
qed

lemma length_af_chain:
  "crates_ok C \<Longrightarrow> hash_named h = Inr a \<Longrightarrow> (\<And>r. r \<in> set rs \<Longrightarrow> length r = length d) \<Longrightarrow> length (af_chain C a rs d) = length d"
  by (induction rs arbitrary: d) (simp_all add: af_chain_def diffuse_spec)

lemma af_fold_chain:
  assumes "crates_ok C" "hash_named h = Inr a" "\<And>i. i \<in> set is \<Longrightarrow> slice src (i * bs) bs = f i"
  shows "af_fold C h src bs is d = Inr (af_chain C a (map f is) d)"
  using assms(3) by (induction "is" arbitrary: d) (simp_all add: af_chain_def diffuse_spec [OF assms(1,2)])

lemma slice_concat_block:
  assumes "\<And>r. r \<in> set rs \<Longrightarrow> length r = bs" "i < length rs"
  shows "slice (concat rs @ ys) (i * bs) bs = rs ! i"
  using assms
proof (induction rs arbitrary: i)
  case (Cons r rs)
  then show ?case by (cases i) (auto simp: slice_def)
qed simp

text \<open>Merging undoes splitting, whatever the random stripes were.\<close>

lemma af_merge_split:
  assumes C: "crates_ok C" "hash_named h = Inr a"
    and rs: "\<And>r. r \<in> set rs \<Longrightarrow> length r = length key" and fit: "length key * Suc (length rs) < 2 ^ 64"
  shows "af_merge C (af_split C a rs key @ pad) (length key) (Suc (length rs)) h = Inr key"
proof -
  let ?bs = "length key" and ?ch = "af_chain C a rs (replicate (length key) 0)"
  let ?src = "af_split C a rs key @ pad"
  have cat: "length (concat rs) = length rs * ?bs" using rs length_concat_sectors [of rs "\<lambda>r. r" ?bs] by simp
  have ch: "length ?ch = ?bs" using length_af_chain [OF C, of rs "replicate ?bs 0"] rs by simp
  have src: "?src = concat rs @ xor_into ?ch key @ pad" by (simp add: af_split_def)
  have "af_fold C h ?src ?bs [0..<length rs] (replicate ?bs 0) = Inr (af_chain C a (map ((!) rs) [0..<length rs]) (replicate ?bs 0))"
    using slice_concat_block [OF rs] by (intro af_fold_chain [OF C]) (simp add: src)
  then have f: "af_fold C h ?src ?bs [0..<length rs] (replicate ?bs 0) = Inr ?ch" by (simp add: map_nth)
  have "slice ?src (length rs * ?bs) ?bs = xor_into ?ch key" using cat ch by (simp add: src slice_def)
  then have "xor_into ?ch (slice ?src (length rs * ?bs) ?bs) = key" using ch by (simp add: xor_into_cancel)
  moreover have "\<not> length ?src < ?bs * Suc (length rs)" using cat ch by (simp add: src)
  ultimately show ?thesis using f fit by (simp add: af_merge_def checked_mul64_def)
qed

section \<open>Writing a keyslot\<close>

text \<open>The reference for a keyslot of a formatted device: the split key, padded to whole sectors, encrypted under the derived key.\<close>

definition wrapped_key :: "crypto_crates \<Rightarrow> xts_crate \<Rightarrow> hmac_hash \<Rightarrow> bytes \<Rightarrow> bytes list \<Rightarrow> bytes \<Rightarrow> bytes \<Rightarrow> bytes" where
  "wrapped_key C X a derived rs key pad = sector_map (encrypt_sector X derived) (af_split C a rs key @ pad) KEYSLOT_SECTOR_SIZE 0 1"

lemma decrypt_encrypt_sectors:
  assumes x: "xts_ok X" and "length b = k * ss" "16 \<le> ss"
  shows "sector_map (decrypt_sector X key) (sector_map (encrypt_sector X key) b ss tw st) ss tw st = b"
    "length (sector_map (encrypt_sector X key) b ss tw st) = k * ss"
proof -
  let ?e = "sector_map (encrypt_sector X key) b ss tw st"
  have ss: "0 < ss" using assms(3) by simp
  have le: "length (encrypt_sector X key tw c) = ss" "length (decrypt_sector X key tw c) = ss" if "length c = ss" for tw c
    using xts_lengths [OF x] that assms(3) by auto
  note e = sector_map_sectors [where f = "encrypt_sector X key" and tw = tw and st = st, OF assms(2) ss le(1)]
  show len: "length ?e = k * ss" by (rule e(1))
  note d = sector_map_sectors [where f = "decrypt_sector X key" and tw = tw and st = st, OF len ss le(2)]
  show "sector_map (decrypt_sector X key) ?e ss tw st = b"
  proof (rule sectors_eqI [OF d(1) assms(2) _ ss])
    fix i assume i: "i < k"
    then have "(i + 1) * ss \<le> k * ss" by (intro mult_le_mono1) simp
    then have "length (slice b (i * ss) ss) = ss" using assms(2) by simp
    then show "slice (sector_map (decrypt_sector X key) ?e ss tw st) (i * ss) ss = slice b (i * ss) ss"
      using d(2) [OF _ i] e(2) [OF _ i] xts_lengths(3) [OF x] assms(3) by simp
  qed
qed

text \<open>A keyslot that belongs to a password: what the header says of it, and what the device holds in its area.\<close>

definition formatted_slot :: "crypto_crates \<Rightarrow> xts_crate \<Rightarrow> bytes \<Rightarrow> nat \<Rightarrow> keyslot \<Rightarrow> bytes \<Rightarrow> bytes list \<Rightarrow> bytes \<Rightarrow> bytes \<Rightarrow> bool" where
  "formatted_slot C X dev poff slot derived rs pad key \<longleftrightarrow>
     ks_kind slot = ''luks2'' \<and> ks_key_size slot = length key \<and> length derived \<in> {32, 64}
     \<and> area_encryption (ks_area slot) = ''aes-xts-plain64''
     \<and> (case ks_af slot of None \<Rightarrow> False
        | Some af \<Rightarrow> af_stripes af = Suc (length rs) \<and> (\<forall>r \<in> set rs. length r = length key)
            \<and> length key * af_stripes af \<le> area_size (ks_area slot)
            \<and> length key * af_stripes af + length pad = div_ceil (length key * af_stripes af) KEYSLOT_SECTOR_SIZE * KEYSLOT_SECTOR_SIZE
            \<and> (case hash_named (af_hash af) of Inl e \<Rightarrow> False
                | Inr a \<Rightarrow>
                    let c = wrapped_key C X a derived rs key pad; o' = poff + area_offset (ks_area slot)
                    in o' + length c \<le> length dev \<and> slice dev o' (length c) = c))"

lemma length_af_split:
  assumes "crates_ok C" "hash_named h = Inr a" "\<And>r. r \<in> set rs \<Longrightarrow> length r = length key"
  shows "length (af_split C a rs key) = length key * Suc (length rs)"
proof -
  have "length (concat rs) = length rs * length key" using assms(3) length_concat_sectors [of rs "\<lambda>r. r" "length key"] by simp
  then show ?thesis using length_af_chain [OF assms(1,2), of rs "replicate (length key) 0"] assms(3) by (simp add: af_split_def)
qed

context byte_store
begin

lemma try_formatted_slot:
  assumes x: "xts_ok X" and c: "crates_ok C" and d: "ok d"
    and slot: "formatted_slot C X (content d) poff slot derived rs pad key"
    and kdf: "derive_key C (ks_kdf slot) pw (area_key_size (ks_area slot)) = Inr derived"
    and dg: "any_digest C (map snd (md_digests md)) key = Inr True"
  shows "try_keyslot C X B d poff md slot pw = Inr (Some key)"
proof -
  obtain af a where af: "ks_af slot = Some af" "hash_named (af_hash af) = Inr a"
    using slot by (auto simp: formatted_slot_def split: option.splits sum.splits)
  let ?ar = "ks_area slot" and ?k = "div_ceil (length key * Suc (length rs)) KEYSLOT_SECTOR_SIZE"
  let ?p = "af_split C a rs key @ pad" and ?c = "wrapped_key C X a derived rs key pad"
  have s: "ks_key_size slot = length key" "length derived \<in> {32, 64}" "area_encryption ?ar = ''aes-xts-plain64''"
    "af_stripes af = Suc (length rs)" "\<And>r. r \<in> set rs \<Longrightarrow> length r = length key" "length key * Suc (length rs) \<le> area_size ?ar"
    "length key * Suc (length rs) + length pad = ?k * 512"
    "poff + area_offset ?ar + length ?c \<le> length (content d)" "slice (content d) (poff + area_offset ?ar) (length ?c) = ?c"
    using slot af by (auto simp: formatted_slot_def Let_def KEYSLOT_SECTOR_SIZE_def)
  have p: "length ?p = ?k * 512" using length_af_split [OF c af(2) s(5)] s(7) by simp
  have w: "length ?c = ?k * 512" "sector_map (decrypt_sector X derived) ?c 512 0 1 = ?p"
    using decrypt_encrypt_sectors [OF x p, of derived 0 1] by (simp_all add: wrapped_key_def KEYSLOT_SECTOR_SIZE_def)
  have lim: "length (content d) < 2 ^ 64" using content_len [OF d] .
  have small: "length key * Suc (length rs) < 2 ^ 64" "?k * 512 < 2 ^ 64" "poff + area_offset ?ar < 2 ^ 64" using s(7,8) w(1) lim by simp_all
  have "material_read_len (length key * Suc (length rs)) = length ?c"
    using small(2) w(1) by (simp add: material_read_len_def mul64_small KEYSLOT_SECTOR_SIZE_def)
  then have "fetch B d (add64 poff (area_offset ?ar)) (material_read_len (length key * Suc (length rs))) = Inr ?c"
    using fetch_ok [OF d s(8)] s(9) small(3) by (simp add: add64_small)
  moreover have "decrypt_keyslot_area X (area_encryption ?ar) derived ?c = Inr ?p"
    using s(2,3) w by (auto simp: decrypt_keyslot_area_def xts_decrypt_def xts_run_def KEYSLOT_SECTOR_SIZE_def)
  moreover have "af_merge C ?p (length key) (Suc (length rs)) (af_hash af) = Inr key" using af_merge_split [OF c af(2) s(5) small(1)] .
  ultimately show ?thesis using kdf af(1) s(1,4,6) small(1) dg by (simp add: try_keyslot_def checked_mul64_def)
qed

end

section \<open>The search\<close>

lemma try_slots_found:
  assumes "\<And>s. s \<in> set pre \<Longrightarrow> ks_kind s = ''luks2'' \<Longrightarrow> try_keyslot C X B d poff md s pw = Inr None"
    "ks_kind slot = ''luks2''" "try_keyslot C X B d poff md slot pw = Inr (Some key)"
  shows "try_slots C X B d poff md (pre @ slot # post) pw = Inr key"
  using assms by (induction pre) auto

lemma any_digest_True:
  "any_digest C dgs key = Inr True \<Longrightarrow> \<exists>dg \<in> set dgs. verify_digest C dg key = Inr True"
  by (induction dgs) (auto split: sum.splits if_splits simp: rbind_def)

lemma length_diffuse:
  assumes "diffuse C h block = Inr out"
  shows "length out = length block"
proof -
  obtain a where out: "out = fold (diffuse_chunk C a block) [0..<div_ceil (length block) (digest_size a)] (replicate (length block) 0)"
    using assms by (auto simp: diffuse_def rbind_Inr)
  have step: "length (diffuse_chunk C a block i b) = length block" if "length b = length block" for i b
    using that by (auto simp: diffuse_chunk_def Let_def put_def)
  have "length (fold (diffuse_chunk C a block) is b) = length block" if "length b = length block" for "is" b
    using that by (induction "is" arbitrary: b) (simp_all add: step)
  then show ?thesis by (simp add: out)
qed

lemma length_af_fold:
  assumes "af_fold C h src bs is d = Inr d'" "length d = bs" "\<And>i. i \<in> set is \<Longrightarrow> Suc i * bs \<le> length src"
  shows "length d' = bs"
  using assms
proof (induction "is" arbitrary: d)
  case (Cons i "is")
  obtain e where e: "diffuse C h (xor_into d (slice src (i * bs) bs)) = Inr e" "af_fold C h src bs is e = Inr d'"
    using Cons.prems(1) by (auto simp: rbind_Inr)
  have "Suc i * bs \<le> length src" using Cons.prems(3) by simp
  then have "length e = bs" using length_diffuse [OF e(1)] Cons.prems(2) by simp
  then show ?case using Cons.IH [OF e(2)] Cons.prems(3) by simp
qed simp

lemma length_af_merge:
  assumes "af_merge C src bs stripes h = Inr key"
  shows "length key = bs"
proof -
  obtain d where m: "0 < stripes" "bs * stripes \<le> length src" "af_fold C h src bs [0..<stripes - 1] (replicate bs 0) = Inr d"
    "key = xor_into d (slice src ((stripes - 1) * bs) bs)"
    using assms by (auto simp: af_merge_def checked_mul64_def rbind_Inr not_less split: if_splits)
  have in_src: "Suc i * bs \<le> length src" if "i < stripes" for i
    using that m(2) mult_le_mono1 [of "Suc i" stripes bs] by (simp add: mult.commute)
  have "length d = bs" using length_af_fold [OF m(3)] in_src by simp
  moreover have "length (slice src ((stripes - 1) * bs) bs) = bs" using in_src [of "stripes - 1"] m(1) by (cases stripes) simp_all
  ultimately show ?thesis using m(4) by simp
qed

text \<open>What an opened slot shows of its key.\<close>

definition verified_key :: "crypto_crates \<Rightarrow> metadata \<Rightarrow> bytes \<Rightarrow> bool" where
  "verified_key C md key \<longleftrightarrow> (\<exists>dg \<in> set (map snd (md_digests md)). dg_kind dg = ''pbkdf2''
     \<and> pbkdf2_into C (dg_hash dg) key (dg_salt dg) (dg_iterations dg) (length (dg_digest dg)) = Inr (dg_digest dg))"

lemma try_keyslot_verified:
  assumes "try_keyslot C X B d poff md slot pw = Inr (Some key)"
  shows "verified_key C md key" "length key = ks_key_size slot"
proof -
  obtain af :: anti_forensic and c where m: "af_merge C c (ks_key_size slot) (af_stripes af) (af_hash af) = Inr key"
    "any_digest C (map snd (md_digests md)) key = Inr True"
    using assms by (cases "derive_key C (ks_kdf slot) pw (area_key_size (ks_area slot))"; cases "ks_af slot")
      (auto simp: try_keyslot_def rbind_Inr checked_mul64_def split: if_split_asm)
  show "length key = ks_key_size slot" using length_af_merge [OF m(1)] .
  obtain dg where "dg \<in> set (map snd (md_digests md))" "verify_digest C dg key = Inr True" using any_digest_True [OF m(2)] by blast
  then show "verified_key C md key" unfolding verified_key_def by (auto simp: verify_digest_def rbind_Inr split: if_splits)
qed

text \<open>The outcome of the search: the first LUKS2 slot whose attempt is more than a refusal decides.\<close>

lemma try_slots_cases:
  "(\<exists>pre s post. slots = pre @ s # post \<and> ks_kind s = ''luks2'' \<and> (\<forall>p \<in> set pre. ks_kind p = ''luks2'' \<longrightarrow> try_keyslot C X B d poff md p pw = Inr None)
      \<and> ((\<exists>key. try_keyslot C X B d poff md s pw = Inr (Some key) \<and> try_slots C X B d poff md slots pw = Inr key)
         \<or> (\<exists>e. try_keyslot C X B d poff md s pw = Inl e \<and> try_slots C X B d poff md slots pw = Inl e)))
   \<or> (\<forall>p \<in> set slots. ks_kind p = ''luks2'' \<longrightarrow> try_keyslot C X B d poff md p pw = Inr None) \<and> try_slots C X B d poff md slots pw = Inl WrongPassword"
  (is "?found slots \<or> ?none slots")
proof (induction slots)
  case (Cons s slots)
  show ?case
  proof (cases "ks_kind s = ''luks2'' \<and> try_keyslot C X B d poff md s pw \<noteq> Inr None")
    case True
    then have "\<exists>pre s' post. s # slots = pre @ s' # post \<and> pre = [] \<and> s' = s" by simp
    moreover obtain r where "try_keyslot C X B d poff md s pw = r" by simp
    ultimately show ?thesis using True
      by (intro disjI1 exI [of _ "[]"] exI [of _ s] exI [of _ slots]) (cases r; auto split: option.split)
  next
    case False
    then have skip: "try_slots C X B d poff md (s # slots) pw = try_slots C X B d poff md slots pw" by auto
    show ?thesis using Cons.IH
    proof
      assume "?found slots"
      then obtain pre s' post where eq: "slots = pre @ s' # post" "ks_kind s' = ''luks2''"
        "\<forall>p \<in> set pre. ks_kind p = ''luks2'' \<longrightarrow> try_keyslot C X B d poff md p pw = Inr None"
        "(\<exists>key. try_keyslot C X B d poff md s' pw = Inr (Some key) \<and> try_slots C X B d poff md slots pw = Inr key)
         \<or> (\<exists>e. try_keyslot C X B d poff md s' pw = Inl e \<and> try_slots C X B d poff md slots pw = Inl e)" by blast
      then show ?thesis using False by (intro disjI1 exI [of _ "s # pre"] exI [of _ s'] exI [of _ post]) (simp add: skip [unfolded eq] eq del: try_slots.simps)
    qed (use False in \<open>simp add: skip del: try_slots.simps\<close>)
  qed
qed simp

section \<open>Examples\<close>

text \<open>Crates for examples: derived keys and digests that depend on their input only through its length and first byte.\<close>

definition toy_crates :: crypto_crates where
  "toy_crates = \<lparr>argon2_check = (\<lambda>_ _ _ _. None), argon2_fill = (\<lambda>_ _ pw n. Inr (replicate n (hd pw))),
     pbkdf2_fill = (\<lambda>_ key _ _ n. Inr (replicate n (hd key))),
     hash_bytes = (\<lambda>a b. replicate (digest_size a) (last b))\<rparr>"

lemma toy_crates_ok: "crates_ok toy_crates"
  by (simp add: crates_ok_def toy_crates_def)

definition sample_slot :: "string \<Rightarrow> nat \<Rightarrow> keyslot" where
  "sample_slot kind off = \<lparr>ks_kind = kind, ks_key_size = 32, ks_kdf = Argon2id \<lparr>a2_salt = [1, 2], a2_time = 4, a2_memory = 1048576, a2_cpus = 4\<rparr>,
     ks_area = \<lparr>area_kind = ''raw'', area_offset = off, area_size = 4096, area_encryption = ''aes-xts-plain64'', area_key_size = 64\<rparr>,
     ks_af = Some \<lparr>af_kind = ''luks1'', af_stripes = 2, af_hash = ''sha256''\<rparr>, ks_priority = None\<rparr>"

definition sample_md :: metadata where
  "sample_md = \<lparr>md_keyslots = [(''0'', sample_slot ''reencrypt'' 8), (''1'', sample_slot ''luks2'' 8)],
     md_segments = [(''0'', \<lparr>seg_offset = 520, seg_size = Dynamic, seg_iv_tweak = 0, seg_encryption = ''aes-xts-plain64'',
       seg_sector_size = 512, seg_flags = []\<rparr>)],
     md_digests = [(''0'', \<lparr>dg_kind = ''pbkdf2'', dg_keyslots = [''1''], dg_segments = [''0''], dg_hash = ''sha256'', dg_iterations = 1000,
       dg_salt = [3], dg_digest = replicate 32 7\<rparr>)]\<rparr>"

definition sample_wrapped :: bytes where
  "sample_wrapped = wrapped_key toy_crates not_xts Sha256 (replicate 64 5) [replicate 32 9] (replicate 32 7) (replicate 448 0)"

section \<open>Properties\<close>

text \<open>C4: A formatted container opens with its password. When the area of a LUKS2 keyslot holds a master key split by the anti-forensic
  splitter over any random stripes, padded to sectors and encrypted under the key derived from the password, and the key matches a
  digest of the header, then the search returns exactly that master key and the volume is opened with it, provided the LUKS2 slots
  tried before refuse the password.\<close>

theorem unlock_formatted:
  assumes "xts_ok X" "crates_ok C" "length d < 2 ^ 64"
    and "map snd (md_keyslots md) = pre @ slot # post"
    and "\<forall>s \<in> set pre. ks_kind s = ''luks2'' \<longrightarrow> try_keyslot C X mem_device d poff md s pw = Inr None"
    and "derive_key C (ks_kdf slot) pw (area_key_size (ks_area slot)) = Inr derived"
    and "formatted_slot C X d poff slot derived rs pad key"
    and "any_digest C (map snd (md_digests md)) key = Inr True"
  shows "unlock C X mem_device d poff md pw = Inr key
    \<and> luks_open C X mem_device d poff plen md pw = with_master_key mem_device d poff plen (map snd (md_segments md)) key"
proof -
  have "try_keyslot C X mem_device d poff md slot pw = Inr (Some key)" using mem.try_formatted_slot [OF assms(1,2,3,7,6,8)] .
  moreover have "ks_kind slot = ''luks2''" using assms(7) by (simp add: formatted_slot_def)
  ultimately have "try_slots C X mem_device d poff md (map snd (md_keyslots md)) pw = Inr key"
    unfolding assms(4) using assms(5) by (intro try_slots_found) auto
  moreover have "md_keyslots md \<noteq> []" using assms(4) by auto
  ultimately show ?thesis by (simp add: unlock_def luks_open_def)
qed

lemma sample_formatted:
  "formatted_slot toy_crates not_xts (replicate 8 0 @ sample_wrapped @ replicate 512 0) 0 (sample_slot ''luks2'' 8) (replicate 64 5)
     [replicate 32 9] (replicate 448 0) (replicate 32 7)"
  by (simp add: formatted_slot_def sample_slot_def hash_named_def Let_def sample_wrapped_def slice_def KEYSLOT_SECTOR_SIZE_def div_ceil_def)

theorem unlock_formatted_witness:
  "unlock toy_crates not_xts mem_device (replicate 8 0 @ sample_wrapped @ replicate 512 0) 0 sample_md [5] = Inr (replicate 32 7)"
proof -
  have "length (af_split toy_crates Sha256 [replicate 32 9] (replicate 32 7)) = 64"
    using length_af_split [OF toy_crates_ok, of "''sha256''" Sha256 "[replicate 32 9]" "replicate 32 7"] by (simp add: hash_named_def)
  then have "length sample_wrapped = 512"
    using decrypt_encrypt_sectors(2) [OF not_xts_ok, of "af_split toy_crates Sha256 [replicate 32 9] (replicate 32 7) @ replicate 448 0" 1 512 "replicate 64 5" 0 1]
    by (simp add: sample_wrapped_def wrapped_key_def KEYSLOT_SECTOR_SIZE_def)
  then show ?thesis
    using unlock_formatted [OF not_xts_ok toy_crates_ok, where d = "replicate 8 0 @ sample_wrapped @ replicate 512 0" and md = sample_md and pre = "[sample_slot ''reencrypt'' 8]"
      and slot = "sample_slot ''luks2'' 8" and post = "[]" and poff = 0 and pw = "[5]", OF _ _ _ _ sample_formatted]
    by (simp add: sample_md_def sample_slot_def derive_key_def argon2_derive_def toy_crates_def kdf_result_def verify_digest_def pbkdf2_into_def hash_named_def)
qed

text \<open>C5: A key that the search returns is verified. Whatever the device and the crates answer, a returned key has the length the
  header states for one of its LUKS2 slots, comes out of that slot after every LUKS2 slot before it refused the password, and its
  digest equals one stored in the header. The password is reported wrong only after every LUKS2 slot refused it, and every other
  error of the search is the error of the first slot that could not be tried.\<close>

theorem unlock_verified:
  "case unlock C X B d poff md pw of
     Inr key \<Rightarrow> verified_key C md key \<and> (\<exists>pre slot post. map snd (md_keyslots md) = pre @ slot # post \<and> ks_kind slot = ''luks2''
       \<and> length key = ks_key_size slot \<and> try_keyslot C X B d poff md slot pw = Inr (Some key)
       \<and> list_all (\<lambda>s. try_keyslot C X B d poff md s pw = Inr None) (filter (\<lambda>s. ks_kind s = ''luks2'') pre))
   | Inl e \<Rightarrow> (md_keyslots md = [] \<and> e = Missing ''keyslots'')
       \<or> (e = WrongPassword \<and> list_all (\<lambda>s. try_keyslot C X B d poff md s pw = Inr None) (filter (\<lambda>s. ks_kind s = ''luks2'') (map snd (md_keyslots md))))
       \<or> (\<exists>pre slot post. map snd (md_keyslots md) = pre @ slot # post \<and> ks_kind slot = ''luks2'' \<and> try_keyslot C X B d poff md slot pw = Inl e
            \<and> list_all (\<lambda>s. try_keyslot C X B d poff md s pw = Inr None) (filter (\<lambda>s. ks_kind s = ''luks2'') pre))"
proof (cases "md_keyslots md = []")
  case False
  show ?thesis using try_slots_cases [of "map snd (md_keyslots md)" C X B d poff md pw]
  proof (elim disjE exE conjE)
    fix pre slot post key
    assume "map snd (md_keyslots md) = pre @ slot # post" "ks_kind slot = ''luks2''" and k: "try_keyslot C X B d poff md slot pw = Inr (Some key)"
      "\<forall>p \<in> set pre. ks_kind p = ''luks2'' \<longrightarrow> try_keyslot C X B d poff md p pw = Inr None" "try_slots C X B d poff md (map snd (md_keyslots md)) pw = Inr key"
    then show ?thesis using False try_keyslot_verified [OF k(1)] by (auto simp: unlock_def list_all_iff)
  qed (use False in \<open>auto simp: unlock_def list_all_iff\<close>)
qed (simp add: unlock_def)

text \<open>A slot that cannot be tried ends the search, whatever the slots after it hold.\<close>

lemma unlock_stops_at_unusable_slot:
  assumes "map snd (md_keyslots md) = slot # post" "ks_kind slot = ''luks2''" "ks_kdf slot = Pbkdf2 salt ''sha1'' n"
  shows "unlock C X B d poff md pw = Inl (UnsupportedHash ''sha1'')"
proof -
  have "md_keyslots md \<noteq> []" using assms(1) by auto
  then show ?thesis using assms by (simp add: unlock_def try_keyslot_def derive_key_def pbkdf2_into_def hash_named_def)
qed

end
