(* ===== verification/Luks_Header.thy ===== *)
theory Luks_Header
  imports Luks_Keyslot
begin

text \<open>
  The LUKS2 header on disk (\<open>core/src/luks/header.rs\<close>): two copies, each a fixed binary part and a JSON area under one
  checksum; the valid copy with the higher sequence number counts. The JSON deserializer is the external crate \<open>serde_json\<close>, the
  argument \<open>J\<close>; strings of the binary part are kept as the bytes before their terminator.
\<close>

section \<open>Constants and types\<close>

definition MAGIC_PRIMARY :: bytes where "MAGIC_PRIMARY = [0x4c, 0x55, 0x4b, 0x53, 0xba, 0xbe]"
definition MAGIC_SECONDARY :: bytes where "MAGIC_SECONDARY = [0x53, 0x4b, 0x55, 0x4c, 0xba, 0xbe]"
definition BINARY_HEADER_LEN :: nat where "BINARY_HEADER_LEN = 4096"
definition MIN_HDR_SIZE :: nat where "MIN_HDR_SIZE = 16 * 1024"
definition MAX_HDR_SIZE :: nat where "MAX_HDR_SIZE = 4 * 1024 * 1024"

definition VALID_HDR_SIZES :: "nat list" where
  "VALID_HDR_SIZES = [16 * 1024, 32 * 1024, 64 * 1024, 128 * 1024, 256 * 1024, 512 * 1024, 1024 * 1024, 2048 * 1024, 4096 * 1024]"

datatype luks_version = V1 | V2

datatype header_copy = Primary | Secondary

record binary_header =
  bh_version :: nat
  bh_hdr_size :: nat
  bh_seqid :: nat
  bh_label :: bytes
  bh_checksum_alg :: bytes
  bh_salt :: bytes
  bh_uuid :: bytes
  bh_subsystem :: bytes
  bh_hdr_offset :: nat

record luks2_header =
  lh_binary :: binary_header
  lh_metadata :: metadata
  lh_source :: header_copy

section \<open>Parsing a copy\<close>

definition plausible_size :: "nat \<Rightarrow> bool" where
  "plausible_size n \<longleftrightarrow> MIN_HDR_SIZE \<le> n \<and> n \<le> MAX_HDR_SIZE"

definition detect_version :: "bytes \<Rightarrow> luks_version result" where
  "detect_version data =
     (if length data < 8 then Inl (Truncated 8 (length data))
      else if slice data 0 6 \<noteq> MAGIC_PRIMARY then Inl (BadMagic (slice data 0 6))
      else let v = be_val (slice data 6 2)
           in if v = 1 then Inr V1 else if v = 2 then Inr V2 else Inl (UnsupportedVersion v))"

definition c_string :: "bytes \<Rightarrow> bytes" where
  "c_string field = takeWhile (\<lambda>b. b \<noteq> 0) field"

definition be_u64 :: "bytes \<Rightarrow> nat \<Rightarrow> nat" where
  "be_u64 b i = be_val (slice b i 8)"

definition SHA256_NAME :: bytes where "SHA256_NAME = [0x73, 0x68, 0x61, 0x32, 0x35, 0x36]"

definition byte_text :: "bytes \<Rightarrow> string" where
  "byte_text b = map (\<lambda>c. char_of (unat c)) b"

definition verify_checksum :: "crypto_crates \<Rightarrow> bytes \<Rightarrow> binary_header \<Rightarrow> unit result" where
  "verify_checksum C copy b =
     (if bh_checksum_alg b \<noteq> SHA256_NAME then Inl (UnsupportedChecksumAlg (byte_text (bh_checksum_alg b)))
      else if slice copy 448 32 = hash_bytes C Sha256 (put copy 448 (replicate 64 0)) then Inr ()
      else Inl ChecksumMismatch)"

text \<open>\<open>str::from_utf8\<close> accepts well-formed UTF-8: no overlong form, no surrogate, nothing above U+10FFFF.\<close>

definition in_range :: "nat \<Rightarrow> nat \<Rightarrow> bytes \<Rightarrow> nat \<Rightarrow> bool" where
  "in_range lo hi b i \<longleftrightarrow> i < length b \<and> lo \<le> unat (b ! i) \<and> unat (b ! i) \<le> hi"

definition utf8_width :: "bytes \<Rightarrow> nat" where
  "utf8_width b =
     (let cont = in_range 0x80 0xBF b in
      if in_range 0 0x7F b 0 then 1
      else if in_range 0xC2 0xDF b 0 \<and> cont 1 then 2
      else if (in_range 0xE0 0xE0 b 0 \<and> in_range 0xA0 0xBF b 1 \<or> (in_range 0xE1 0xEC b 0 \<or> in_range 0xEE 0xEF b 0) \<and> cont 1
          \<or> in_range 0xED 0xED b 0 \<and> in_range 0x80 0x9F b 1) \<and> cont 2 then 3
      else if (in_range 0xF0 0xF0 b 0 \<and> in_range 0x90 0xBF b 1 \<or> in_range 0xF1 0xF3 b 0 \<and> cont 1
          \<or> in_range 0xF4 0xF4 b 0 \<and> in_range 0x80 0x8F b 1) \<and> cont 2 \<and> cont 3 then 4
      else 0)"

function from_utf8 :: "bytes \<Rightarrow> bool" where
  "from_utf8 b = (if b = [] then True else if utf8_width b = 0 then False else from_utf8 (drop (utf8_width b) b))"
  by auto
termination by (relation "measure length") auto

declare from_utf8.simps [simp del]

definition parse_json :: "(bytes \<Rightarrow> string + metadata) \<Rightarrow> bytes \<Rightarrow> metadata result" where
  "parse_json J area' =
     (let text = takeWhile (\<lambda>b. b \<noteq> 0) area' in
      if \<not> from_utf8 text then Inl JsonNotUtf8
      else case J text of Inl e \<Rightarrow> Inl (JsonParse e) | Inr md \<Rightarrow> Inr md)"

definition parse_copy :: "crypto_crates \<Rightarrow> (bytes \<Rightarrow> string + metadata) \<Rightarrow> bytes \<Rightarrow> nat \<Rightarrow> bytes \<Rightarrow> luks2_header result" where
  "parse_copy C J data off expect_magic =
     (case checked_add64 off BINARY_HEADER_LEN of
        None \<Rightarrow> Inl (ImplausibleHeaderSize off)
      | Some fin \<Rightarrow>
          if length data < fin then Inl (Truncated fin (length data))
          else
            let hdr = drop off data; version = be_val (slice hdr 6 2); hdr_size = be_u64 hdr 8 in
            if slice hdr 0 6 \<noteq> expect_magic then Inl (BadMagic (slice hdr 0 6))
            else if version \<noteq> 2 then Inl (UnsupportedVersion version)
            else if \<not> plausible_size hdr_size then Inl (ImplausibleHeaderSize hdr_size)
            else (case checked_add64 off hdr_size of
                None \<Rightarrow> Inl (ImplausibleHeaderSize hdr_size)
              | Some fin' \<Rightarrow>
                  if length data < fin' then Inl (Truncated fin' (length data))
                  else
                    let b = \<lparr>bh_version = version, bh_hdr_size = hdr_size, bh_seqid = be_u64 hdr 16, bh_label = c_string (slice hdr 24 48),
                          bh_checksum_alg = c_string (slice hdr 72 32), bh_salt = slice hdr 104 64, bh_uuid = c_string (slice hdr 168 40),
                          bh_subsystem = c_string (slice hdr 208 48), bh_hdr_offset = be_u64 hdr 256\<rparr>
                    in rbind (verify_checksum C (slice data off hdr_size) b) (\<lambda>_.
                       rbind (parse_json J (slice data (off + BINARY_HEADER_LEN) (hdr_size - BINARY_HEADER_LEN))) (\<lambda>md.
                         Inr \<lparr>lh_binary = b, lh_metadata = md, lh_source = (if expect_magic = MAGIC_PRIMARY then Primary else Secondary)\<rparr>))))"

section \<open>Choosing a copy\<close>

definition secondary_candidates :: "bytes \<Rightarrow> nat list" where
  "secondary_candidates data =
     fold (\<lambda>n cs. if n \<in> set cs then cs else cs @ [n]) VALID_HDR_SIZES
       (if 16 \<le> length data \<and> plausible_size (be_u64 data 8) then [be_u64 data 8] else [])"

fun probe_copies :: "crypto_crates \<Rightarrow> (bytes \<Rightarrow> string + metadata) \<Rightarrow> bytes \<Rightarrow> nat list \<Rightarrow> luks_error \<Rightarrow> luks2_header result" where
  "probe_copies C J data [] e = Inl e"
| "probe_copies C J data (off # offs) e =
     (if off + BINARY_HEADER_LEN > length data then probe_copies C J data offs e
      else if slice data off 6 \<noteq> MAGIC_SECONDARY then probe_copies C J data offs e
      else case parse_copy C J data off MAGIC_SECONDARY of
          Inr h \<Rightarrow> Inr h
        | Inl e \<Rightarrow> probe_copies C J data offs e)"

definition find_secondary :: "crypto_crates \<Rightarrow> (bytes \<Rightarrow> string + metadata) \<Rightarrow> bytes \<Rightarrow> luks2_header result" where
  "find_secondary C J data = probe_copies C J data (secondary_candidates data) (Missing ''secondary header'')"

definition parse_header :: "crypto_crates \<Rightarrow> (bytes \<Rightarrow> string + metadata) \<Rightarrow> bytes \<Rightarrow> luks2_header result" where
  "parse_header C J data =
     rbind (detect_version data) (\<lambda>v.
       case v of
         V1 \<Rightarrow> Inl Luks1NotImplemented
       | V2 \<Rightarrow>
           (case (parse_copy C J data 0 MAGIC_PRIMARY, find_secondary C J data) of
              (Inr p, Inr s) \<Rightarrow> Inr (if bh_seqid (lh_binary s) > bh_seqid (lh_binary p) then s else p)
            | (Inr p, Inl _) \<Rightarrow> Inr p
            | (Inl _, Inr s) \<Rightarrow> Inr s
            | (Inl e, Inl _) \<Rightarrow> Inl e))"

definition read_from :: "crypto_crates \<Rightarrow> (bytes \<Rightarrow> string + metadata) \<Rightarrow> 'd block_dev \<Rightarrow> 'd \<Rightarrow> nat \<Rightarrow> luks2_header result" where
  "read_from C J B d poff =
     rbind (fetch B d poff BINARY_HEADER_LEN) (\<lambda>probe.
       let declared = (if length probe \<ge> 16 then be_u64 probe 8 else 0);
           span = (if plausible_size declared then declared * 2 else MIN_HDR_SIZE * 2)
       in rbind (fetch B d poff span) (parse_header C J))"

section \<open>A written copy\<close>

text \<open>The reference: the bytes of a copy whose checksum is right.\<close>

definition text_field :: "nat \<Rightarrow> bytes \<Rightarrow> bytes" where
  "text_field n t = t @ replicate (n - length t) 0"

definition copy_front :: "bytes \<Rightarrow> binary_header \<Rightarrow> bytes" where
  "copy_front magic b = magic @ be_bytes 2 2 @ be_bytes 8 (bh_hdr_size b) @ be_bytes 8 (bh_seqid b) @ text_field 48 (bh_label b)
     @ text_field 32 SHA256_NAME @ bh_salt b @ text_field 40 (bh_uuid b) @ text_field 48 (bh_subsystem b)
     @ be_bytes 8 (bh_hdr_offset b) @ replicate 184 0"

definition copy_back :: "binary_header \<Rightarrow> bytes \<Rightarrow> bytes" where
  "copy_back b json = replicate 3584 0 @ text_field (bh_hdr_size b - BINARY_HEADER_LEN) json"

definition write_copy :: "crypto_crates \<Rightarrow> bytes \<Rightarrow> binary_header \<Rightarrow> bytes \<Rightarrow> bytes" where
  "write_copy C magic b json =
     copy_front magic b @ hash_bytes C Sha256 (copy_front magic b @ replicate 64 0 @ copy_back b json) @ replicate 32 0 @ copy_back b json"

definition text_ok :: "nat \<Rightarrow> bytes \<Rightarrow> bool" where
  "text_ok n t \<longleftrightarrow> length t \<le> n \<and> 0 \<notin> set t"

definition copy_ok :: "binary_header \<Rightarrow> bytes \<Rightarrow> bool" where
  "copy_ok b json \<longleftrightarrow> bh_version b = 2 \<and> plausible_size (bh_hdr_size b) \<and> bh_seqid b < 2 ^ 64 \<and> text_ok 48 (bh_label b)
     \<and> bh_checksum_alg b = SHA256_NAME \<and> length (bh_salt b) = 64 \<and> text_ok 40 (bh_uuid b) \<and> text_ok 48 (bh_subsystem b)
     \<and> bh_hdr_offset b < 2 ^ 64 \<and> text_ok (bh_hdr_size b - BINARY_HEADER_LEN) json \<and> from_utf8 json"

lemma c_string_field: "text_ok n t \<Longrightarrow> c_string (text_field n t) = t"
proof -
  assume t: "text_ok n t"
  then have "takeWhile (\<lambda>b. b \<noteq> 0) (t @ replicate k 0) = t" for k
    by (subst takeWhile_append2) (auto simp: text_ok_def takeWhile_eq_Nil_iff)
  then show ?thesis by (simp add: c_string_def text_field_def)
qed

lemma length_text_field: "text_ok n t \<Longrightarrow> length (text_field n t) = n"
  by (simp add: text_ok_def text_field_def)

lemma sha256_name_ok: "text_ok 32 SHA256_NAME"
  by (simp add: text_ok_def SHA256_NAME_def)

lemma copy_lengths:
  assumes "copy_ok b json" "length magic = 6" "crates_ok C"
  shows "length (copy_front magic b) = 448" "length (copy_back b json) = bh_hdr_size b - 512" "512 \<le> bh_hdr_size b"
    "length (write_copy C magic b json) = bh_hdr_size b"
proof -
  show f: "length (copy_front magic b) = 448"
    using assms(1,2) sha256_name_ok by (simp add: copy_front_def copy_ok_def length_text_field)
  have s: "4096 \<le> bh_hdr_size b" using assms(1) by (simp add: copy_ok_def plausible_size_def MIN_HDR_SIZE_def)
  then show "512 \<le> bh_hdr_size b" by simp
  show k: "length (copy_back b json) = bh_hdr_size b - 512"
    using assms(1) s by (simp add: copy_back_def copy_ok_def length_text_field BINARY_HEADER_LEN_def)
  show "length (write_copy C magic b json) = bh_hdr_size b"
    using f k s assms(3) by (simp add: write_copy_def crates_ok_def digest_size_def)
qed

text \<open>The fields of a written copy, whatever follows it.\<close>

lemma copy_fields:
  fixes rest :: bytes
  assumes b: "copy_ok b json" and m: "length magic = 6"
  defines "h \<equiv> copy_front magic b @ rest"
  shows "slice h 0 6 = magic" "be_val (slice h 6 2) = 2" "be_u64 h 8 = bh_hdr_size b" "be_u64 h 16 = bh_seqid b"
    "c_string (slice h 24 48) = bh_label b" "c_string (slice h 72 32) = bh_checksum_alg b" "slice h 104 64 = bh_salt b"
    "c_string (slice h 168 40) = bh_uuid b" "c_string (slice h 208 48) = bh_subsystem b" "be_u64 h 256 = bh_hdr_offset b"
proof -
  have t: "text_ok 48 (bh_label b)" "text_ok 40 (bh_uuid b)" "text_ok 48 (bh_subsystem b)" "length (bh_salt b) = 64"
    "bh_checksum_alg b = SHA256_NAME" "bh_hdr_size b < 2 ^ 64" "bh_seqid b < 2 ^ 64" "bh_hdr_offset b < 2 ^ 64"
    using b by (auto simp: copy_ok_def plausible_size_def MAX_HDR_SIZE_def)
  note l = length_text_field [OF t(1)] length_text_field [OF t(2)] length_text_field [OF t(3)] length_text_field [OF sha256_name_ok] t(4) m
  have h: "h = magic @ be_bytes 2 2 @ be_bytes 8 (bh_hdr_size b) @ be_bytes 8 (bh_seqid b) @ text_field 48 (bh_label b)
     @ text_field 32 SHA256_NAME @ bh_salt b @ text_field 40 (bh_uuid b) @ text_field 48 (bh_subsystem b)
     @ be_bytes 8 (bh_hdr_offset b) @ replicate 184 0 @ rest"
    by (simp add: h_def copy_front_def)
  show "slice h 0 6 = magic" "slice h 104 64 = bh_salt b" by (simp_all add: h bytes_simps l)
  show "be_val (slice h 6 2) = 2" "be_u64 h 8 = bh_hdr_size b" "be_u64 h 16 = bh_seqid b" "be_u64 h 256 = bh_hdr_offset b"
    using t(6-8) by (simp_all add: h bytes_simps l be_u64_def)
  show "c_string (slice h 24 48) = bh_label b" "c_string (slice h 72 32) = bh_checksum_alg b"
    "c_string (slice h 168 40) = bh_uuid b" "c_string (slice h 208 48) = bh_subsystem b"
    using t(5) c_string_field [OF t(1)] c_string_field [OF t(2)] c_string_field [OF t(3)] c_string_field [OF sha256_name_ok]
    by (simp_all add: h bytes_simps l)
qed

lemma verify_written:
  assumes "copy_ok b json" "length magic = 6" "crates_ok C"
  shows "verify_checksum C (write_copy C magic b json) b = Inr ()"
proof -
  let ?f = "copy_front magic b" and ?k = "copy_back b json"
  let ?h = "hash_bytes C Sha256 (?f @ replicate 64 0 @ ?k)"
  note l = copy_lengths [OF assms]
  have h: "length ?h = 32" using assms(3) by (simp add: crates_ok_def digest_size_def)
  have w: "write_copy C magic b json = ?f @ ?h @ replicate 32 0 @ ?k" by (simp add: write_copy_def)
  have "slice (?f @ ?h @ replicate 32 0 @ ?k) 448 32 = ?h" using l(1) h by (simp add: slice_def)
  moreover have "put (?f @ ?h @ replicate 32 0 @ ?k) 448 (replicate 64 0) = ?f @ replicate 64 0 @ ?k" using l(1) h by (simp add: put_def)
  moreover have "bh_checksum_alg b = SHA256_NAME" using assms(1) by (simp add: copy_ok_def)
  ultimately show ?thesis by (simp add: verify_checksum_def w)
qed

lemma written_json:
  assumes "copy_ok b json" "length magic = 6" "crates_ok C" "J json = Inr md"
  shows "parse_json J (slice (write_copy C magic b json @ post) BINARY_HEADER_LEN (bh_hdr_size b - BINARY_HEADER_LEN)) = Inr md"
proof -
  note l = copy_lengths [OF assms(1-3)]
  have t: "text_ok (bh_hdr_size b - BINARY_HEADER_LEN) json" "from_utf8 json" using assms(1) by (simp_all add: copy_ok_def)
  let ?h = "hash_bytes C Sha256 (copy_front magic b @ replicate 64 0 @ copy_back b json)"
  have h: "length ?h = 32" using assms(3) by (simp add: crates_ok_def digest_size_def)
  have "write_copy C magic b json @ post = (copy_front magic b @ ?h @ replicate 3616 0) @ text_field (bh_hdr_size b - BINARY_HEADER_LEN) json @ post"
    by (simp add: write_copy_def copy_back_def replicate_add [symmetric] flip: append_assoc)
  moreover have "length (copy_front magic b @ ?h @ replicate 3616 0) = BINARY_HEADER_LEN" using l(1) h by (simp add: BINARY_HEADER_LEN_def)
  ultimately have "slice (write_copy C magic b json @ post) BINARY_HEADER_LEN (bh_hdr_size b - BINARY_HEADER_LEN) = text_field (bh_hdr_size b - BINARY_HEADER_LEN) json"
    using length_text_field [OF t(1)] by (simp add: slice_def)
  then show ?thesis using c_string_field [OF t(1)] t(2) assms(4) by (simp add: parse_json_def c_string_def)
qed

text \<open>A written copy is read back, wherever it stands.\<close>

lemma parse_copy_written:
  assumes b: "copy_ok b json" and m: "length magic = 6" and C: "crates_ok C" and J: "J json = Inr md" and lim: "length pre + bh_hdr_size b < 2 ^ 64"
  shows "parse_copy C J (pre @ write_copy C magic b json @ post) (length pre) magic =
    Inr \<lparr>lh_binary = b, lh_metadata = md, lh_source = (if magic = MAGIC_PRIMARY then Primary else Secondary)\<rparr>"
proof -
  let ?w = "write_copy C magic b json"
  obtain rest where w: "?w @ post = copy_front magic b @ rest" by (simp add: write_copy_def)
  note l = copy_lengths [OF b m C]
  note f = copy_fields [OF b m, of rest, folded w]
  have s: "4096 \<le> bh_hdr_size b" "plausible_size (bh_hdr_size b)" "bh_version b = 2"
    using b by (simp_all add: copy_ok_def plausible_size_def MIN_HDR_SIZE_def)
  have c: "slice (pre @ ?w @ post) (length pre) (bh_hdr_size b) = ?w" using l(4) by (simp add: slice_def)
  have j: "slice (pre @ ?w @ post) (length pre + BINARY_HEADER_LEN) n = slice (?w @ post) BINARY_HEADER_LEN n" for n by (simp add: slice_def)
  have e: "\<lparr>bh_version = 2, bh_hdr_size = bh_hdr_size b, bh_seqid = bh_seqid b, bh_label = bh_label b, bh_checksum_alg = bh_checksum_alg b,
      bh_salt = bh_salt b, bh_uuid = bh_uuid b, bh_subsystem = bh_subsystem b, bh_hdr_offset = bh_hdr_offset b\<rparr> = b" using s(3) by simp
  have "length pre + BINARY_HEADER_LEN < 2 ^ 64" "BINARY_HEADER_LEN \<le> bh_hdr_size b" using s(1) lim by (simp_all add: BINARY_HEADER_LEN_def)
  then show ?thesis using s(2) lim l(4) verify_written [OF b m C] written_json [where J = J and md = md and post = post, OF b m C J]
    by (simp add: parse_copy_def Let_def f c j e checked_add64_def del: append_assoc)
qed

lemma parse_copy_local:
  assumes "plausible_size (be_u64 p 8)" "length p = be_u64 p 8"
  shows "parse_copy C J (p @ s) 0 magic = parse_copy C J p 0 magic"
proof -
  obtain n where n: "be_u64 p 8 = n" "length p = n" using assms(2) by simp
  have len: "4096 \<le> n" "n < 2 ^ 64" "plausible_size n" using assms(1) n by (auto simp: plausible_size_def MIN_HDR_SIZE_def MAX_HDR_SIZE_def)
  have sl: "slice (p @ s) i k = slice p i k" if "i + k \<le> n" for i k using that n(2) by (simp add: slice_append_left)
  have u: "be_u64 (p @ s) i = be_u64 p i" if "i + 8 \<le> n" for i using that by (simp add: be_u64_def sl)
  show ?thesis using len by (simp add: parse_copy_def Let_def sl u n checked_add64_def BINARY_HEADER_LEN_def)
qed

section \<open>The backup copy\<close>

lemma candidates_keep_first: "\<exists>ds. fold (\<lambda>n cs. if n \<in> set cs then cs else cs @ [n]) ns (c # cs) = c # ds"
  by (induction ns arbitrary: cs) simp_all

lemma find_secondary_written:
  assumes b: "copy_ok b json" and C: "crates_ok C" and J: "J json = Inr md"
    and p: "length p = bh_hdr_size b" "be_u64 p 8 = bh_hdr_size b"
  shows "find_secondary C J (p @ write_copy C MAGIC_SECONDARY b json) = Inr \<lparr>lh_binary = b, lh_metadata = md, lh_source = Secondary\<rparr>"
proof -
  let ?w = "write_copy C MAGIC_SECONDARY b json" and ?n = "bh_hdr_size b"
  have m: "length MAGIC_SECONDARY = 6" "MAGIC_SECONDARY \<noteq> MAGIC_PRIMARY" by (simp_all add: MAGIC_SECONDARY_def MAGIC_PRIMARY_def)
  have s: "plausible_size ?n" "4096 \<le> ?n" "?n + ?n < 2 ^ 64" using b by (simp_all add: copy_ok_def plausible_size_def MIN_HDR_SIZE_def MAX_HDR_SIZE_def)
  note l = copy_lengths [OF b m(1) C]
  have "be_u64 (p @ ?w) 8 = ?n" using p s(2) by (simp add: be_u64_def slice_append_left)
  then have "\<exists>cs. secondary_candidates (p @ ?w) = ?n # cs"
    using s p candidates_keep_first [of VALID_HDR_SIZES ?n "[]"] by (simp add: secondary_candidates_def)
  then obtain cs where cs: "secondary_candidates (p @ ?w) = ?n # cs" by blast
  have "slice (p @ ?w) ?n 6 = MAGIC_SECONDARY" using copy_fields(1) [OF b m(1)] p(1) by (simp add: slice_append_right write_copy_def)
  moreover have "parse_copy C J (p @ ?w @ []) (length p) MAGIC_SECONDARY = Inr \<lparr>lh_binary = b, lh_metadata = md, lh_source = Secondary\<rparr>"
    using parse_copy_written [where J = J and md = md, OF b m(1) C J, of p "[]"] s(3) p(1) m(2) by simp
  ultimately show ?thesis using l(4) p(1) s(2) by (simp add: find_secondary_def cs BINARY_HEADER_LEN_def)
qed

lemma version_head:
  assumes "slice x i 8 = MAGIC_PRIMARY @ [0, 2]"
  shows "slice x i 6 = MAGIC_PRIMARY" "be_val (slice x (i + 6) 2) = 2"
proof -
  have "slice x i 6 = take 6 (slice x i 8)" "slice x (i + 6) 2 = drop 6 (slice x i 8)"
    by (simp_all add: slice_def drop_take add.commute)
  then show "slice x i 6 = MAGIC_PRIMARY" "be_val (slice x (i + 6) 2) = 2" by (simp_all add: assms MAGIC_PRIMARY_def be_val_def)
qed

lemma read_from_span:
  assumes "length pre + 2 * n \<le> length d" "plausible_size n" "length d < 2 ^ 64" "be_u64 (drop (length pre) d) 8 = n"
  shows "read_from C J mem_device d (length pre) = parse_header C J (slice d (length pre) (2 * n))"
proof -
  have n: "4096 \<le> n" using assms(2) by (simp add: plausible_size_def MIN_HDR_SIZE_def)
  have "slice (slice d (length pre) 4096) 8 8 = slice (drop (length pre) d) 8 8" by (simp add: slice_slice) (simp add: slice_def add.commute)
  then have "be_u64 (slice d (length pre) 4096) 8 = n" using assms(4) by (simp add: be_u64_def)
  then show ?thesis using assms n by (simp add: read_from_def mem.fetch_ok BINARY_HEADER_LEN_def Let_def mult.commute)
qed

section \<open>Examples\<close>

definition sample_binary :: "nat \<Rightarrow> nat \<Rightarrow> binary_header" where
  "sample_binary n seq = \<lparr>bh_version = 2, bh_hdr_size = n, bh_seqid = seq, bh_label = [0x62, 0x6b], bh_checksum_alg = SHA256_NAME,
     bh_salt = replicate 64 0xaa, bh_uuid = [0x37], bh_subsystem = [], bh_hdr_offset = 0\<rparr>"

definition sample_json :: bytes where "sample_json = [0x7b, 0x7d]"

lemma sample_json_utf8: "from_utf8 sample_json"
  by code_simp

lemma sample_copy_ok: "plausible_size n \<Longrightarrow> seq < 2 ^ 64 \<Longrightarrow> copy_ok (sample_binary n seq) sample_json"
  using sample_json_utf8
  by (auto simp: copy_ok_def sample_binary_def text_ok_def sample_json_def plausible_size_def MIN_HDR_SIZE_def BINARY_HEADER_LEN_def)

lemma sample_copy_len:
  assumes "plausible_size n" "seq < 2 ^ 64" "length magic = 6"
  shows "length (write_copy toy_crates magic (sample_binary n seq) sample_json) = n"
  using copy_lengths(4) [OF sample_copy_ok [OF assms(1,2)] assms(3) toy_crates_ok] by (simp add: sample_binary_def)

lemma sample_copy_head:
  assumes "plausible_size n" "seq < 2 ^ 64"
  shows "slice (write_copy toy_crates MAGIC_PRIMARY (sample_binary n seq) sample_json) 0 8 = MAGIC_PRIMARY @ [0, 2]"
    "be_u64 (write_copy toy_crates MAGIC_PRIMARY (sample_binary n seq) sample_json) 8 = n"
proof -
  have m: "length MAGIC_PRIMARY = 6" by (simp add: MAGIC_PRIMARY_def)
  have "be_bytes 2 2 = [0, 2]" by (simp add: be_bytes_def numeral_2_eq_2)
  then show "slice (write_copy toy_crates MAGIC_PRIMARY (sample_binary n seq) sample_json) 0 8 = MAGIC_PRIMARY @ [0, 2]"
    by (simp add: write_copy_def copy_front_def slice_def m)
  show "be_u64 (write_copy toy_crates MAGIC_PRIMARY (sample_binary n seq) sample_json) 8 = n"
    using copy_fields(3) [OF sample_copy_ok [OF assms] m] by (simp add: write_copy_def) (simp add: sample_binary_def)
qed

section \<open>Properties\<close>

text \<open>C6: The header of a container is recovered from its two copies. On a device that holds an intact backup copy behind a primary copy
  whose magic, version and size still read, opening gives the newer copy when the primary is intact too, the primary one on a tie, and
  the backup when any other damage makes the primary fail its checks.\<close>

theorem luks_header_recovered:
  assumes "crates_ok C" "copy_ok b json" "J json = Inr md"
    and "d = pre @ p @ write_copy C MAGIC_SECONDARY b json @ post" "length d < 2 ^ 64"
    and "length p = bh_hdr_size b" "slice p 0 8 = MAGIC_PRIMARY @ [0, 2]" "be_u64 p 8 = bh_hdr_size b"
  shows "((\<forall>h. parse_copy C J p 0 MAGIC_PRIMARY \<noteq> Inr h) \<longrightarrow>
        read_from C J mem_device d (length pre) = Inr \<lparr>lh_binary = b, lh_metadata = md, lh_source = Secondary\<rparr>)
    \<and> (p = write_copy C MAGIC_PRIMARY b' json' \<and> copy_ok b' json' \<and> J json' = Inr md' \<longrightarrow>
        read_from C J mem_device d (length pre) = Inr (if bh_seqid b > bh_seqid b'
          then \<lparr>lh_binary = b, lh_metadata = md, lh_source = Secondary\<rparr> else \<lparr>lh_binary = b', lh_metadata = md', lh_source = Primary\<rparr>))"
proof -
  let ?w = "write_copy C MAGIC_SECONDARY b json" and ?n = "bh_hdr_size b"
  have m: "length MAGIC_SECONDARY = 6" "length MAGIC_PRIMARY = 6" by (simp_all add: MAGIC_SECONDARY_def MAGIC_PRIMARY_def)
  have s: "plausible_size ?n" "4096 \<le> ?n" using assms(2) by (simp_all add: copy_ok_def plausible_size_def MIN_HDR_SIZE_def)
  have w: "length ?w = ?n" using copy_lengths(4) [OF assms(2) m(1) assms(1)] .
  have "be_u64 (drop (length pre) d) 8 = ?n" using assms(4,6,8) s(2) by (simp add: be_u64_def slice_append_left)
  then have rd: "read_from C J mem_device d (length pre) = parse_header C J (p @ ?w)"
    using read_from_span [of pre ?n d] assms(4,5,6) s w by (simp add: slice_def)
  have v8: "slice (p @ ?w) 0 8 = MAGIC_PRIMARY @ [0, 2]" using assms(6,7) s(2) by (simp add: slice_append_left)
  have "detect_version (p @ ?w) = Inr V2" using s(2) w version_head [OF v8] by (simp add: detect_version_def)
  then have ph: "parse_header C J (p @ ?w) = (case parse_copy C J p 0 MAGIC_PRIMARY of
      Inr h \<Rightarrow> Inr (if bh_seqid b > bh_seqid (lh_binary h) then \<lparr>lh_binary = b, lh_metadata = md, lh_source = Secondary\<rparr> else h)
    | Inl e \<Rightarrow> Inr \<lparr>lh_binary = b, lh_metadata = md, lh_source = Secondary\<rparr>)"
    using find_secondary_written [where J = J and md = md, OF assms(2,1,3,6,8)] parse_copy_local [of p C J ?w MAGIC_PRIMARY] assms(6,8) s(1)
    by (simp add: parse_header_def split: sum.split)
  have "parse_copy C J p 0 MAGIC_PRIMARY = Inr \<lparr>lh_binary = b', lh_metadata = md', lh_source = Primary\<rparr>"
    if "p = write_copy C MAGIC_PRIMARY b' json'" "copy_ok b' json'" "J json' = Inr md'"
    using parse_copy_written [where J = J and md = md' and pre = "[]" and post = "[]", OF that(2) m(2) assms(1) that(3)] that(1,2)
    by (simp add: copy_ok_def plausible_size_def MAX_HDR_SIZE_def)
  then show ?thesis unfolding rd ph by (auto split: sum.split)
qed

theorem luks_header_recovered_witness:
  "read_from toy_crates (\<lambda>_. Inr sample_md) mem_device
     ([1] @ write_copy toy_crates MAGIC_PRIMARY (sample_binary 16384 3) sample_json @ write_copy toy_crates MAGIC_SECONDARY (sample_binary 16384 4) sample_json @ []) 1
   = Inr \<lparr>lh_binary = sample_binary 16384 4, lh_metadata = sample_md, lh_source = Secondary\<rparr>"
proof -
  have n: "plausible_size 16384" by (simp add: plausible_size_def MIN_HDR_SIZE_def MAX_HDR_SIZE_def)
  note c = sample_copy_ok [OF n, of 3] sample_copy_ok [OF n, of 4] sample_copy_len [OF n, of 3] sample_copy_len [OF n, of 4] sample_copy_head [OF n, of 3]
  have m: "length MAGIC_SECONDARY = 6" "length MAGIC_PRIMARY = 6" by (simp_all add: MAGIC_SECONDARY_def MAGIC_PRIMARY_def)
  show ?thesis
    using luks_header_recovered [where J = "\<lambda>_. Inr sample_md" and pre = "[1]" and post = "[]" and md = sample_md and md' = sample_md
      and p = "write_copy toy_crates MAGIC_PRIMARY (sample_binary 16384 3) sample_json" and b' = "sample_binary 16384 3" and json' = sample_json,
      OF toy_crates_ok c(2) refl refl] c m
    by (simp add: sample_binary_def del: append_assoc)
qed

text \<open>C40: A damaged size field hides a backup that is not at the smallest place. When the size field of the primary copy is out of range and
  the first 32 KiB of the container hold no backup at 16 KiB, opening fails with the error of the primary copy, whatever the device holds
  further on: only 32 KiB are read, the smallest metadata area and not the largest.\<close>

theorem luks_backup_missed:
  assumes "length d < 2 ^ 64" "poff + 32768 \<le> length d"
    and "slice d poff 8 = MAGIC_PRIMARY @ [0, 2]" "\<not> plausible_size (be_u64 d (poff + 8))" "slice d (poff + 16384) 6 \<noteq> MAGIC_SECONDARY"
  shows "read_from C J mem_device d poff = Inl (ImplausibleHeaderSize (be_u64 d (poff + 8)))"
proof -
  let ?p = "slice d poff 4096" and ?s = "slice d poff 32768" and ?n = "be_u64 d (poff + 8)"
  have u: "be_u64 ?p 8 = ?n" "be_u64 ?s 8 = ?n" by (simp_all add: be_u64_def slice_slice)
  have g: "slice ?s i k = slice d (poff + i) k" if "i + k \<le> 32768" for i k using that by (simp add: slice_slice)
  note m = version_head [OF assms(3)]
  have "detect_version ?s = Inr V2" using assms(2) m by (simp add: detect_version_def g)
  moreover have "parse_copy C J ?s 0 MAGIC_PRIMARY = Inl (ImplausibleHeaderSize ?n)"
    using assms(2,4) m u(2) by (simp add: parse_copy_def checked_add64_def BINARY_HEADER_LEN_def g)
  moreover have "secondary_candidates ?s = VALID_HDR_SIZES" using assms(4) u(2) by (simp add: secondary_candidates_def VALID_HDR_SIZES_def)
  moreover have "find_secondary C J ?s = Inl (Missing ''secondary header'')" if "secondary_candidates ?s = VALID_HDR_SIZES"
    using that assms(2,5) by (simp add: find_secondary_def VALID_HDR_SIZES_def BINARY_HEADER_LEN_def g)
  ultimately show ?thesis using assms(1,2,4) u(1)
    by (simp add: read_from_def mem.fetch_ok BINARY_HEADER_LEN_def MIN_HDR_SIZE_def parse_header_def)
qed

theorem luks_backup_missed_witness:
  "read_from toy_crates (\<lambda>_. Inr sample_md) mem_device
     ((MAGIC_PRIMARY @ [0, 2]) @ replicate 32760 0 @ write_copy toy_crates MAGIC_SECONDARY (sample_binary 32768 4) sample_json) 0
   = Inl (ImplausibleHeaderSize 0)"
proof -
  have n: "plausible_size 32768" by (simp add: plausible_size_def MIN_HDR_SIZE_def MAX_HDR_SIZE_def)
  let ?w = "write_copy toy_crates MAGIC_SECONDARY (sample_binary 32768 4) sample_json" and ?h = "MAGIC_PRIMARY @ [0, 2]"
  define d where "d = ?h @ replicate 32760 0 @ ?w"
  have h: "length ?h = 8" by (simp add: MAGIC_PRIMARY_def)
  have w: "length ?w = 32768" using sample_copy_len [OF n, of 4] by (simp add: MAGIC_SECONDARY_def)
  have s: "slice d 0 8 = ?h" using h by (simp add: slice_def d_def)
  have z: "slice d i k = replicate k 0" if "8 \<le> i" "i - 8 + k \<le> 32760" for i k
    using that h by (simp only: d_def slice_append_right) (simp add: slice_append_left slice_def)
  have "be_val (replicate 8 0) = 0" by (simp add: be_val_def numeral_eq_Suc)
  then have "be_u64 d (0 + 8) = 0" using z [of 8 8] by (simp add: be_u64_def)
  moreover have "slice d 16384 6 ! 0 = 0" "MAGIC_SECONDARY ! 0 \<noteq> 0" using z [of 16384 6] by (simp_all add: MAGIC_SECONDARY_def)
  then have "slice d (0 + 16384) 6 \<noteq> MAGIC_SECONDARY" by auto
  moreover have "length d = 65536" using h w by (simp add: d_def)
  moreover have "\<not> plausible_size 0" by (simp add: plausible_size_def MIN_HDR_SIZE_def)
  ultimately have "read_from toy_crates (\<lambda>_. Inr sample_md) mem_device d 0 = Inl (ImplausibleHeaderSize 0)"
    using luks_backup_missed [of d 0 toy_crates "\<lambda>_. Inr sample_md"] s by simp
  then show ?thesis by (simp only: d_def)
qed

end
