(* ===== verification/Partition_Table.thy ===== *)
theory Partition_Table
  imports Luks_Header
begin

text \<open>
  Partition tables and the search for LUKS partitions (\<open>core/src/partition/\<close>): the GUID partition table with its backup copy, the
  master boot record, and the scan that tries them in this order and marks the partitions that start with a LUKS header. The CRC
  is the external crate \<open>crc32fast\<close>, the argument \<open>crc\<close>. Partition names are kept as their UTF-16 code units.
\<close>

section \<open>Tables\<close>

datatype table_kind = Gpt | Mbr

record partition =
  pt_index :: nat
  pt_start_lba :: nat
  pt_end_lba :: nat
  pt_sector_size :: nat
  pt_type_guid :: "bytes option"
  pt_mbr_type :: "byte option"
  pt_name :: "nat list"
  pt_is_luks :: bool
  pt_luks_version :: "nat option"

definition offset_bytes :: "partition \<Rightarrow> nat" where
  "offset_bytes p = mul64 (pt_start_lba p) (pt_sector_size p)"

definition size_bytes :: "partition \<Rightarrow> nat" where
  "size_bytes p = mul64 (sub64 (add64 (pt_end_lba p) 1) (pt_start_lba p)) (pt_sector_size p)"

record partition_table =
  tab_kind :: table_kind
  tab_partitions :: "partition list"

definition luks_partitions :: "partition_table \<Rightarrow> partition list" where
  "luks_partitions t = filter pt_is_luks (tab_partitions t)"

section \<open>The GUID partition table\<close>

definition GPT_SIGNATURE :: bytes where "GPT_SIGNATURE = [0x45, 0x46, 0x49, 0x20, 0x50, 0x41, 0x52, 0x54]"
definition MIN_HEADER_SIZE :: nat where "MIN_HEADER_SIZE = 92"
definition MAX_ENTRIES :: nat where "MAX_ENTRIES = 4096"
definition MAX_ENTRY_SIZE :: nat where "MAX_ENTRY_SIZE = 4096"

record gpt_header =
  gh_header_size :: nat
  gh_backup_lba :: nat
  gh_entry_lba :: nat
  gh_num_entries :: nat
  gh_entry_size :: nat
  gh_entries_crc :: nat

definition gpt_parse_header :: "(bytes \<Rightarrow> nat) \<Rightarrow> bytes \<Rightarrow> gpt_header result" where
  "gpt_parse_header crc b =
     (if length b < MIN_HEADER_SIZE then Inl (BadGpt ''header too short'')
      else if slice b 0 8 \<noteq> GPT_SIGNATURE then Inl (BadGpt ''bad signature'')
      else
        let header_size = u32le b 12 in
        if header_size < MIN_HEADER_SIZE \<or> header_size > length b then Inl (BadGpt ''implausible header size'')
        else if crc (put (take header_size b) 16 (replicate 4 0)) \<noteq> u32le b 16 then Inl (BadGpt ''header CRC mismatch'')
        else
          let num_entries = u32le b 80; entry_size = u32le b 84 in
          if num_entries = 0 \<or> num_entries > MAX_ENTRIES then Inl (BadGpt ''implausible entry count'')
          else if entry_size < 128 \<or> entry_size > MAX_ENTRY_SIZE \<or> entry_size mod 8 \<noteq> 0 then Inl (BadGpt ''implausible entry size'')
          else Inr \<lparr>gh_header_size = header_size, gh_backup_lba = u64le b 32, gh_entry_lba = u64le b 72, gh_num_entries = num_entries,
            gh_entry_size = entry_size, gh_entries_crc = u32le b 88\<rparr>)"

definition name_units :: "bytes \<Rightarrow> nat list" where
  "name_units e = takeWhile (\<lambda>u. u \<noteq> 0) (map (\<lambda>k. u16le e (56 + 2 * k)) [0..<36])"

definition gpt_entry :: "nat \<Rightarrow> bytes \<Rightarrow> nat \<Rightarrow> partition option result" where
  "gpt_entry ss e i =
     (if slice e 0 16 = replicate 16 0 then Inr None
      else if u64le e 40 < u64le e 32 then Inl (BadGpt ''entry ends before it starts'')
      else Inr (Some \<lparr>pt_index = i + 1, pt_start_lba = u64le e 32, pt_end_lba = u64le e 40, pt_sector_size = ss,
        pt_type_guid = Some (slice e 0 16), pt_mbr_type = None, pt_name = name_units e, pt_is_luks = False, pt_luks_version = None\<rparr>))"

fun gpt_entries :: "nat \<Rightarrow> bytes \<Rightarrow> nat \<Rightarrow> nat list \<Rightarrow> partition list result" where
  "gpt_entries ss b es [] = Inr []"
| "gpt_entries ss b es (i # is) =
     rbind (gpt_entry ss (slice b (i * es) es) i) (\<lambda>p. rbind (gpt_entries ss b es is) (\<lambda>ps.
       Inr (case p of None \<Rightarrow> ps | Some p \<Rightarrow> p # ps)))"

definition read_entries :: "(bytes \<Rightarrow> nat) \<Rightarrow> 'd block_dev \<Rightarrow> 'd \<Rightarrow> gpt_header \<Rightarrow> nat \<Rightarrow> partition list result" where
  "read_entries crc B d h ss =
     (case checked_mul64 (gh_num_entries h) (gh_entry_size h) of
        None \<Rightarrow> Inl (BadGpt ''entry array too large'')
      | Some n \<Rightarrow>
          rbind (fetch B d (mul64 (gh_entry_lba h) ss) n) (\<lambda>b.
            if crc b \<noteq> gh_entries_crc h then Inl (BadGpt ''entry array CRC mismatch'')
            else gpt_entries ss b (gh_entry_size h) [0..<gh_num_entries h]))"

definition gpt_parse_at :: "(bytes \<Rightarrow> nat) \<Rightarrow> 'd block_dev \<Rightarrow> 'd \<Rightarrow> nat \<Rightarrow> nat \<Rightarrow> partition_table result" where
  "gpt_parse_at crc B d ss lba =
     rbind (fetch B d (mul64 lba ss) ss) (\<lambda>b. rbind (gpt_parse_header crc b) (\<lambda>h. rbind (read_entries crc B d h ss) (\<lambda>ps.
       Inr \<lparr>tab_kind = Gpt, tab_partitions = ps\<rparr>)))"

definition gpt_last :: "(bytes \<Rightarrow> nat) \<Rightarrow> 'd block_dev \<Rightarrow> 'd \<Rightarrow> nat \<Rightarrow> partition_table result" where
  "gpt_last crc B d ss =
     (case dev_len B d of
        None \<Rightarrow> Inl (BadGpt ''no primary header and unknown device size'')
      | Some n \<Rightarrow> if ss = 0 then Inl Panic else gpt_parse_at crc B d ss (sub64 (n div ss) 1))"

definition gpt_parse :: "(bytes \<Rightarrow> nat) \<Rightarrow> 'd block_dev \<Rightarrow> 'd \<Rightarrow> nat \<Rightarrow> partition_table result" where
  "gpt_parse crc B d ss =
     (case rbind (fetch B d ss ss) (gpt_parse_header crc) of
        Inr h \<Rightarrow>
          (case read_entries crc B d h ss of
             Inr ps \<Rightarrow> Inr \<lparr>tab_kind = Gpt, tab_partitions = ps\<rparr>
           | Inl _ \<Rightarrow> (case gpt_parse_at crc B d ss (gh_backup_lba h) of Inr t \<Rightarrow> Inr t | Inl _ \<Rightarrow> gpt_last crc B d ss))
      | Inl _ \<Rightarrow> gpt_last crc B d ss)"

section \<open>The master boot record\<close>

definition BOOT_SIGNATURE :: nat where "BOOT_SIGNATURE = 0xAA55"
definition TABLE_OFFSET :: nat where "TABLE_OFFSET = 446"
definition ENTRY_SIZE :: nat where "ENTRY_SIZE = 16"
definition TYPE_PROTECTIVE_GPT :: byte where "TYPE_PROTECTIVE_GPT = 0xEE"

fun mbr_entries :: "nat \<Rightarrow> bytes \<Rightarrow> nat list \<Rightarrow> partition list result" where
  "mbr_entries ss b [] = Inr []"
| "mbr_entries ss b (i # is) =
     (let e = slice b (TABLE_OFFSET + i * ENTRY_SIZE) ENTRY_SIZE; part_type = e ! 4; start_lba = u32le e 8; n = u32le e 12 in
      if part_type = 0 \<or> n = 0 then mbr_entries ss b is
      else if part_type = TYPE_PROTECTIVE_GPT then Inl (BadGpt ''protective MBR present but GPT unreadable'')
      else rbind (mbr_entries ss b is) (\<lambda>ps.
        Inr (\<lparr>pt_index = i + 1, pt_start_lba = start_lba, pt_end_lba = start_lba + n - 1, pt_sector_size = ss, pt_type_guid = None,
          pt_mbr_type = Some part_type, pt_name = [], pt_is_luks = False, pt_luks_version = None\<rparr> # ps)))"

definition mbr_parse :: "'d block_dev \<Rightarrow> 'd \<Rightarrow> nat \<Rightarrow> partition_table result" where
  "mbr_parse B d ss =
     rbind (fetch B d 0 512) (\<lambda>b.
       if u16le b 510 \<noteq> BOOT_SIGNATURE then Inl NoPartitionTable
       else rbind (mbr_entries ss b [0..<4]) (\<lambda>ps.
         if ps = [] then Inl NoPartitionTable else Inr \<lparr>tab_kind = Mbr, tab_partitions = ps\<rparr>))"

section \<open>The scan\<close>

definition probe_luks :: "'d block_dev \<Rightarrow> 'd \<Rightarrow> nat \<Rightarrow> nat option" where
  "probe_luks B d off =
     (case rbind (fetch B d off 8) detect_version of Inl _ \<Rightarrow> None | Inr V1 \<Rightarrow> Some 1 | Inr V2 \<Rightarrow> Some 2)"

definition mark_luks :: "'d block_dev \<Rightarrow> 'd \<Rightarrow> partition \<Rightarrow> partition" where
  "mark_luks B d p =
     (case probe_luks B d (offset_bytes p) of None \<Rightarrow> p | Some v \<Rightarrow> p\<lparr>pt_is_luks := True, pt_luks_version := Some v\<rparr>)"

definition scan :: "(bytes \<Rightarrow> nat) \<Rightarrow> 'd block_dev \<Rightarrow> 'd \<Rightarrow> nat \<Rightarrow> partition_table result" where
  "scan crc B d ss =
     rbind (case gpt_parse crc B d ss of Inr t \<Rightarrow> Inr t | Inl e \<Rightarrow> if e = Panic then Inl Panic else mbr_parse B d ss) (\<lambda>t.
       Inr (t\<lparr>tab_partitions := map (mark_luks B d) (tab_partitions t)\<rparr>))"

section \<open>A written table\<close>

text \<open>The reference: the slots of a table, the bytes of a slot, and the bytes of a header whose checksums are right.\<close>

record gpt_slot =
  sl_type :: bytes
  sl_unique :: bytes
  sl_start :: nat
  sl_end :: nat
  sl_attributes :: bytes
  sl_name :: "nat list"

definition slot_wf :: "gpt_slot \<Rightarrow> bool" where
  "slot_wf s \<longleftrightarrow> length (sl_type s) = 16 \<and> length (sl_unique s) = 16 \<and> sl_start s < 2 ^ 64 \<and> sl_end s < 2 ^ 64 \<and> length (sl_attributes s) = 8
     \<and> length (sl_name s) \<le> 36 \<and> list_all (\<lambda>u. 0 < u \<and> u < 2 ^ 16) (sl_name s)"

definition slot_used :: "gpt_slot \<Rightarrow> bool" where
  "slot_used s \<longleftrightarrow> sl_type s \<noteq> replicate 16 0"

definition slot_bytes :: "nat \<Rightarrow> gpt_slot \<Rightarrow> bytes" where
  "slot_bytes es s = sl_type s @ sl_unique s @ le_bytes 8 (sl_start s) @ le_bytes 8 (sl_end s) @ sl_attributes s
     @ concat (map (le_bytes 2) (sl_name s @ replicate (36 - length (sl_name s)) 0)) @ replicate (es - 128) 0"

definition slot_partition :: "nat \<Rightarrow> nat \<Rightarrow> gpt_slot \<Rightarrow> partition" where
  "slot_partition ss i s = \<lparr>pt_index = i + 1, pt_start_lba = sl_start s, pt_end_lba = sl_end s, pt_sector_size = ss,
     pt_type_guid = Some (sl_type s), pt_mbr_type = None, pt_name = sl_name s, pt_is_luks = False, pt_luks_version = None\<rparr>"

definition table_of :: "nat \<Rightarrow> gpt_slot list \<Rightarrow> partition list" where
  "table_of ss slots = List.map_filter (\<lambda>i. if slot_used (slots ! i) then Some (slot_partition ss i (slots ! i)) else None) [0..<length slots]"

definition gpt_front :: bytes where
  "gpt_front = GPT_SIGNATURE @ [0, 0, 1, 0] @ le_bytes 4 92"

definition gpt_back :: "gpt_header \<Rightarrow> bytes \<Rightarrow> bytes" where
  "gpt_back h info = replicate 12 0 @ le_bytes 8 (gh_backup_lba h) @ info @ le_bytes 8 (gh_entry_lba h) @ le_bytes 4 (gh_num_entries h)
     @ le_bytes 4 (gh_entry_size h) @ le_bytes 4 (gh_entries_crc h)"

definition gpt_sector :: "(bytes \<Rightarrow> nat) \<Rightarrow> nat \<Rightarrow> gpt_header \<Rightarrow> bytes \<Rightarrow> bytes" where
  "gpt_sector crc ss h info =
     gpt_front @ le_bytes 4 (crc (gpt_front @ replicate 4 0 @ gpt_back h info)) @ gpt_back h info @ replicate (ss - 92) 0"

definition crc_ok :: "(bytes \<Rightarrow> nat) \<Rightarrow> bool" where
  "crc_ok crc \<longleftrightarrow> (\<forall>b. crc b < 2 ^ 32)"

text \<open>The device holds a sound copy of a table, with its header at \<open>lba\<close>.\<close>

definition gpt_copy :: "(bytes \<Rightarrow> nat) \<Rightarrow> bytes \<Rightarrow> nat \<Rightarrow> nat \<Rightarrow> gpt_header \<Rightarrow> bytes \<Rightarrow> gpt_slot list \<Rightarrow> bool" where
  "gpt_copy crc d ss lba h info slots \<longleftrightarrow>
     lba * ss + ss \<le> length d \<and> slice d (lba * ss) ss = gpt_sector crc ss h info \<and> length info = 32
     \<and> gh_header_size h = 92 \<and> gh_backup_lba h < 2 ^ 64
     \<and> gh_num_entries h = length slots \<and> 0 < length slots \<and> length slots \<le> MAX_ENTRIES
     \<and> 128 \<le> gh_entry_size h \<and> gh_entry_size h \<le> MAX_ENTRY_SIZE \<and> gh_entry_size h mod 8 = 0
     \<and> list_all (\<lambda>s. slot_wf s \<and> (slot_used s \<longrightarrow> sl_start s \<le> sl_end s)) slots
     \<and> gh_entry_lba h * ss + length slots * gh_entry_size h \<le> length d \<and> gh_entry_lba h < 2 ^ 64
     \<and> slice d (gh_entry_lba h * ss) (length slots * gh_entry_size h) = concat (map (slot_bytes (gh_entry_size h)) slots)
     \<and> gh_entries_crc h = crc (concat (map (slot_bytes (gh_entry_size h)) slots))"

lemma gpt_header_read:
  assumes "gpt_copy crc d ss lba h info slots" "crc_ok crc" "92 \<le> ss"
  shows "gpt_parse_header crc (gpt_sector crc ss h info) = Inr h"
proof -
  have i: "length info = 32" "gh_header_size h = 92" "gh_backup_lba h < 2 ^ 64" "gh_entry_lba h < 2 ^ 64" "gh_num_entries h < 2 ^ 32" "gh_entry_size h < 2 ^ 32"
    "gh_entries_crc h < 2 ^ 32" "0 < gh_num_entries h" "gh_num_entries h \<le> MAX_ENTRIES" "128 \<le> gh_entry_size h" "gh_entry_size h \<le> MAX_ENTRY_SIZE"
    "gh_entry_size h mod 8 = 0"
    using assms(1,2) by (auto simp: gpt_copy_def crc_ok_def MAX_ENTRIES_def MAX_ENTRY_SIZE_def)
  let ?b = "gpt_sector crc ss h info" and ?c = "crc (gpt_front @ replicate 4 0 @ gpt_back h info)"
  have c: "?c < 2 ^ 32" using assms(2) by (simp add: crc_ok_def)
  have f: "length gpt_front = 16" "length (gpt_back h info) = 72" using i(1) by (simp_all add: gpt_front_def GPT_SIGNATURE_def gpt_back_def)
  have sig: "slice ?b 0 8 = GPT_SIGNATURE" "u32le ?b 12 = 92"
    by (simp add: gpt_sector_def gpt_front_def slice_def GPT_SIGNATURE_def)
      (simp add: gpt_sector_def gpt_front_def u32le_def bytes_simps GPT_SIGNATURE_def)
  have crc: "u32le ?b 16 = ?c" using c f(1) by (simp add: gpt_sector_def u32le_def bytes_simps)
  have bk: "slice ?b (20 + k) n = slice (gpt_back h info) k n" if "k + n \<le> 72" for k n
    using that f by (simp add: gpt_sector_def bytes_simps)
  have fields: "u64le ?b 32 = gh_backup_lba h" "u64le ?b 72 = gh_entry_lba h" "u32le ?b 80 = gh_num_entries h" "u32le ?b 84 = gh_entry_size h"
    "u32le ?b 88 = gh_entries_crc h"
    using i bk [of 12 8] bk [of 52 8] bk [of 60 4] bk [of 64 4] bk [of 68 4]
    by (simp_all add: u64le_def u32le_def gpt_back_def bytes_simps)
  have "take 92 ?b = gpt_front @ le_bytes 4 ?c @ gpt_back h info" using f by (simp add: gpt_sector_def)
  then have "put (take 92 ?b) 16 (replicate 4 0) = gpt_front @ replicate 4 0 @ gpt_back h info" using f by (simp add: put_def)
  moreover have "length ?b = ss" using f assms(3) by (simp add: gpt_sector_def)
  ultimately show ?thesis using i assms(3) sig crc fields
    by (auto simp: gpt_parse_header_def MIN_HEADER_SIZE_def)
qed

lemma slot_name_units:
  assumes "slot_wf s"
  shows "name_units (slot_bytes es s) = sl_name s"
proof -
  define us where "us = sl_name s @ replicate (36 - length (sl_name s)) 0"
  have w: "length (sl_type s) = 16" "length (sl_unique s) = 16" "length (sl_attributes s) = 8" "length us = 36" "\<And>u. u \<in> set us \<Longrightarrow> u < 2 ^ 16"
    "\<And>u. u \<in> set (sl_name s) \<Longrightarrow> u \<noteq> 0"
    using assms by (auto simp: slot_wf_def list_all_iff us_def)
  have "u16le (slot_bytes es s) (56 + 2 * k) = us ! k" if k: "k < 36" for k
  proof -
    have "slice (slot_bytes es s) (56 + 2 * k) 2 = slice (concat (map (le_bytes 2) us) @ replicate (es - 128) 0) (k * 2) 2"
      unfolding slot_bytes_def us_def [symmetric] using w(1-3) by (simp add: bytes_simps mult.commute)
    also have "\<dots> = map (le_bytes 2) us ! k" using k w(4) by (intro slice_concat_block) auto
    finally show ?thesis using w(4,5) k nth_mem [of k us] by (simp add: u16le_def)
  qed
  then have "map (\<lambda>k. u16le (slot_bytes es s) (56 + 2 * k)) [0..<36] = map ((!) us) [0..<length us]" unfolding w(4) by simp
  then have "name_units (slot_bytes es s) = takeWhile (\<lambda>u. u \<noteq> 0) us" by (simp only: name_units_def map_nth)
  also have "\<dots> = sl_name s" unfolding us_def using w(6) by (subst takeWhile_append2) (auto simp: takeWhile_eq_Nil_iff)
  finally show ?thesis .
qed

lemma length_slot_bytes: "slot_wf s \<Longrightarrow> 128 \<le> es \<Longrightarrow> length (slot_bytes es s) = es"
  using length_concat_sectors [of "sl_name s @ replicate (36 - length (sl_name s)) 0" "le_bytes 2" 2]
  by (simp add: slot_bytes_def slot_wf_def)

lemma slot_entry:
  assumes "slot_wf s" "slot_used s \<longrightarrow> sl_start s \<le> sl_end s"
  shows "gpt_entry ss (slot_bytes es s) i = Inr (if slot_used s then Some (slot_partition ss i s) else None)"
proof -
  have w: "length (sl_type s) = 16" "length (sl_unique s) = 16" "sl_start s < 2 ^ 64" "sl_end s < 2 ^ 64" using assms(1) by (auto simp: slot_wf_def)
  have "slice (slot_bytes es s) 0 16 = sl_type s" "u64le (slot_bytes es s) 32 = sl_start s" "u64le (slot_bytes es s) 40 = sl_end s"
    using w by (simp_all add: slot_bytes_def u64le_def bytes_simps)
  then show ?thesis using assms(2) slot_name_units [OF assms(1)] by (auto simp: gpt_entry_def slot_partition_def slot_used_def)
qed

lemma gpt_entries_all:
  "(\<And>i. i \<in> set is \<Longrightarrow> gpt_entry ss (slice b (i * es) es) i = Inr (f i)) \<Longrightarrow> gpt_entries ss b es is = Inr (List.map_filter f is)"
  by (induction "is") (auto simp: List.map_filter_simps split: option.split)

lemma read_entries_copy:
  assumes c: "gpt_copy crc d ss lba h info slots" and d: "length d < 2 ^ 64"
  shows "read_entries crc mem_device d h ss = Inr (table_of ss slots)"
proof -
  let ?es = "gh_entry_size h" and ?b = "concat (map (slot_bytes (gh_entry_size h)) slots)"
  have s: "\<And>s. s \<in> set slots \<Longrightarrow> slot_wf s \<and> (slot_used s \<longrightarrow> sl_start s \<le> sl_end s)" "128 \<le> ?es" "gh_num_entries h = length slots"
    "gh_entry_lba h * ss + length slots * ?es \<le> length d" "slice d (gh_entry_lba h * ss) (length slots * ?es) = ?b" "gh_entries_crc h = crc ?b"
    using c by (auto simp: gpt_copy_def list_all_iff)
  have "gpt_entry ss (slice ?b (i * ?es) ?es) i = Inr (if slot_used (slots ! i) then Some (slot_partition ss i (slots ! i)) else None)"
    if i: "i < length slots" for i
  proof -
    have "slice (?b @ []) (i * ?es) ?es = map (slot_bytes ?es) slots ! i"
      using s(1,2) i by (intro slice_concat_block) (auto simp: length_slot_bytes)
    then show ?thesis using i s(1) [of "slots ! i"] slot_entry [of "slots ! i" ss ?es i] by simp
  qed
  then have "gpt_entries ss ?b ?es [0..<length slots] = Inr (table_of ss slots)"
    unfolding table_of_def by (intro gpt_entries_all) simp
  then show ?thesis using s(3-6) d by (simp add: read_entries_def mem.fetch_ok checked_mul64_def mul64_small)
qed

lemma gpt_copy_at:
  assumes "gpt_copy crc d ss lba h info slots" "crc_ok crc" "92 \<le> ss" "length d < 2 ^ 64"
  shows "rbind (fetch mem_device d (lba * ss) ss) (gpt_parse_header crc) = Inr h"
    "gpt_parse_at crc mem_device d ss lba = Inr \<lparr>tab_kind = Gpt, tab_partitions = table_of ss slots\<rparr>"
proof -
  have s: "lba * ss + ss \<le> length d" "slice d (lba * ss) ss = gpt_sector crc ss h info" using assms(1) by (auto simp: gpt_copy_def)
  then have f: "fetch mem_device d (lba * ss) ss = Inr (gpt_sector crc ss h info)" using assms(4) by (simp add: mem.fetch_ok)
  note r = gpt_header_read [OF assms(1-3)]
  show "rbind (fetch mem_device d (lba * ss) ss) (gpt_parse_header crc) = Inr h" using f r by simp
  have "mul64 lba ss = lba * ss" using s(1) assms(4) by (simp add: mul64_small)
  then show "gpt_parse_at crc mem_device d ss lba = Inr \<lparr>tab_kind = Gpt, tab_partitions = table_of ss slots\<rparr>"
    using f r read_entries_copy [OF assms(1,4)] by (simp add: gpt_parse_at_def)
qed

section \<open>Properties\<close>

text \<open>What the scan says of the start of a partition.\<close>

definition luks_at :: "bytes \<Rightarrow> nat \<Rightarrow> nat option" where
  "luks_at d off =
     (if off + 8 \<le> length d \<and> slice d off 6 = MAGIC_PRIMARY \<and> be_val (slice d (off + 6) 2) \<in> {1, 2} then Some (be_val (slice d (off + 6) 2)) else None)"

lemma probe_luks_at:
  assumes "length d < 2 ^ 64"
  shows "probe_luks mem_device d off = luks_at d off"
proof (cases "off + 8 \<le> length d")
  case True
  have "slice (slice d off 8) 0 6 = slice d off 6" "slice (slice d off 8) 6 2 = slice d (off + 6) 2" by (simp_all add: slice_slice)
  then show ?thesis using True assms
    by (auto simp: probe_luks_def mem.fetch_ok detect_version_def luks_at_def Let_def split: if_splits)
next
  case False
  then show ?thesis by (auto simp: probe_luks_def luks_at_def fetch_def mem_device_def slice_read_at_def checked_add64_def)
qed

text \<open>C7: The partition scan finds the table and its LUKS partitions. On a disk of whole sectors that holds a sound copy of a GUID partition table at
  the first block, or in its last block behind a primary header that fails its checks, or at the block that a primary header with a
  damaged entry array names, the scan returns the used slots of the table in order, each with its number, range, type and name, and marks exactly
  those that start with a LUKS header of version 1 or 2.\<close>

theorem scan_finds_partitions:
  assumes "crc_ok crc" "92 \<le> ss" "length d = n * ss" "length d < 2 ^ 64" "gpt_copy crc d ss lba h info slots"
    and "lba = 1 \<or> (lba = n - 1 \<and> (\<forall>h'. gpt_parse_header crc (slice d ss ss) \<noteq> Inr h'))
      \<or> (\<exists>h'. gpt_parse_header crc (slice d ss ss) = Inr h' \<and> gh_backup_lba h' = lba \<and> (\<forall>ps. read_entries crc mem_device d h' ss \<noteq> Inr ps))"
  shows "scan crc mem_device d ss = Inr \<lparr>tab_kind = Gpt, tab_partitions = map (\<lambda>p. case luks_at d (offset_bytes p) of
      None \<Rightarrow> p | Some v \<Rightarrow> p\<lparr>pt_is_luks := True, pt_luks_version := Some v\<rparr>) (table_of ss slots)\<rparr>"
proof -
  have room: "lba * ss + ss \<le> length d" using assms(5) by (simp add: gpt_copy_def)
  then have n: "(lba + 1) * ss \<le> n * ss" using assms(3) by simp
  then have n: "lba < n" using assms(2) by (metis Suc_eq_plus1 Suc_le_eq less_le_trans mult_le_cancel2 zero_less_numeral)
  note at = gpt_copy_at [OF assms(5,1,2,4)]
  let ?t = "\<lparr>tab_kind = Gpt, tab_partitions = table_of ss slots\<rparr>"
  have last: "gpt_last crc mem_device d ss = Inr ?t" if "lba = n - 1"
  proof -
    have "n \<le> n * ss" using assms(2) by simp
    then have "n < 2 ^ 64" using assms(3,4) by linarith
    then have "sub64 (length d div ss) 1 = lba" using that n assms(2,3) sub64_small [of 1 n] by simp
    then show ?thesis using at(2) assms(2) by (simp add: gpt_last_def mem_device_def)
  qed
  have two: "fetch mem_device d ss ss = Inr (slice d ss ss)" if "2 \<le> n"
  proof -
    have "2 * ss \<le> length d" unfolding assms(3) using that by (rule mult_le_mono1)
    then show ?thesis using assms(4) by (intro mem.fetch_ok) simp_all
  qed
  have one: "\<exists>e. fetch mem_device d ss ss = Inl e" if "n = 1"
    using that assms(2,3) by (simp add: fetch_def mem_device_def slice_read_at_def checked_add64_def)
  have "gpt_parse crc mem_device d ss = Inr ?t"
    using assms(6)
  proof (elim disjE conjE exE)
    assume "lba = 1"
    then show ?thesis using at(1) read_entries_copy [OF assms(5,4)] by (simp add: gpt_parse_def)
  next
    assume l: "lba = n - 1" "\<forall>h'. gpt_parse_header crc (slice d ss ss) \<noteq> Inr h'"
    have "\<exists>e. rbind (fetch mem_device d ss ss) (gpt_parse_header crc) = Inl e"
      using l(2) n one two by (cases "n = 1"; cases "gpt_parse_header crc (slice d ss ss)") auto
    then show ?thesis using last [OF l(1)] by (auto simp: gpt_parse_def)
  next
    fix h' assume h: "gpt_parse_header crc (slice d ss ss) = Inr h'" "gh_backup_lba h' = lba" "\<forall>ps. read_entries crc mem_device d h' ss \<noteq> Inr ps"
    have "92 \<le> length (slice d ss ss)" using h(1) by (auto simp: gpt_parse_header_def MIN_HEADER_SIZE_def split: if_splits)
    then have "n \<noteq> 1" using assms(3) by auto
    then show ?thesis using n two h at(2) by (cases "read_entries crc mem_device d h' ss") (auto simp: gpt_parse_def)
  qed
  then show ?thesis using probe_luks_at [OF assms(4)] by (simp add: scan_def mark_luks_def)
qed

text \<open>A disk whose primary header is gone: the backup header stands in the last block, one partition starts with a LUKS2 header.\<close>

definition sample_gpt_slot :: gpt_slot where
  "sample_gpt_slot = \<lparr>sl_type = replicate 16 9, sl_unique = replicate 16 1, sl_start = 3, sl_end = 3, sl_attributes = replicate 8 0, sl_name = [0x64, 0x61]\<rparr>"

definition sample_gpt :: gpt_header where
  "sample_gpt = \<lparr>gh_header_size = 92, gh_backup_lba = 1, gh_entry_lba = 2, gh_num_entries = 1, gh_entry_size = 128, gh_entries_crc = 7\<rparr>"

definition sample_disk :: bytes where
  "sample_disk = replicate 1024 0 @ (slot_bytes 128 sample_gpt_slot @ replicate 384 0) @ (MAGIC_PRIMARY @ [0, 2] @ replicate 504 0)
     @ gpt_sector (\<lambda>_. 7) 512 sample_gpt (replicate 32 3)"

lemma sample_gpt_slot_wf: "slot_wf sample_gpt_slot" "slot_used sample_gpt_slot" "length (slot_bytes 128 sample_gpt_slot) = 128"
proof -
  show w: "slot_wf sample_gpt_slot" by (simp add: slot_wf_def sample_gpt_slot_def)
  have "replicate 16 (9 :: byte) ! 0 \<noteq> replicate 16 0 ! 0" by simp
  then show "slot_used sample_gpt_slot" unfolding slot_used_def sample_gpt_slot_def by force
  show "length (slot_bytes 128 sample_gpt_slot) = 128" using length_slot_bytes [OF w, of 128] by simp
qed

lemma sample_disk_parts:
  "length sample_disk = 2560" "slice sample_disk 512 512 = replicate 512 0" "slice sample_disk 1024 128 = slot_bytes 128 sample_gpt_slot"
  "slice sample_disk 1536 6 = MAGIC_PRIMARY" "slice sample_disk 1542 2 = [0, 2]"
  "slice sample_disk 2048 512 = gpt_sector (\<lambda>_. 7) 512 sample_gpt (replicate 32 3)"
proof -
  have g: "length (gpt_sector (\<lambda>_. 7) 512 sample_gpt (replicate 32 3)) = 512"
    by (simp add: gpt_sector_def gpt_front_def gpt_back_def GPT_SIGNATURE_def)
  have m: "length MAGIC_PRIMARY = 6" by (simp add: MAGIC_PRIMARY_def)
  note l = g m sample_gpt_slot_wf(3)
  show "length sample_disk = 2560" by (simp add: sample_disk_def l)
  show "slice sample_disk 512 512 = replicate 512 0" by (simp add: sample_disk_def slice_append_left) (simp add: slice_def)
  show "slice sample_disk 1024 128 = slot_bytes 128 sample_gpt_slot" "slice sample_disk 1536 6 = MAGIC_PRIMARY"
    "slice sample_disk 1542 2 = [0, 2]" "slice sample_disk 2048 512 = gpt_sector (\<lambda>_. 7) 512 sample_gpt (replicate 32 3)"
    by (simp_all add: sample_disk_def slice_def l)
qed

theorem scan_finds_partitions_witness:
  "scan (\<lambda>_. 7) mem_device sample_disk 512 =
     Inr \<lparr>tab_kind = Gpt, tab_partitions = [(slot_partition 512 0 sample_gpt_slot)\<lparr>pt_is_luks := True, pt_luks_version := Some 2\<rparr>]\<rparr>"
proof -
  note p = sample_disk_parts
  have "gpt_copy (\<lambda>_. 7) sample_disk 512 4 sample_gpt (replicate 32 3) [sample_gpt_slot]"
    using p sample_gpt_slot_wf by (simp add: gpt_copy_def sample_gpt_def MAX_ENTRIES_def MAX_ENTRY_SIZE_def) (simp add: sample_gpt_slot_def)
  moreover have "gpt_parse_header (\<lambda>_. 7) (slice sample_disk 512 512) \<noteq> Inr h'" for h'
  proof -
    have "slice (replicate 512 (0 :: byte)) 0 8 ! 0 \<noteq> GPT_SIGNATURE ! 0" by (simp add: slice_def GPT_SIGNATURE_def)
    then have "slice (replicate 512 0) 0 8 \<noteq> GPT_SIGNATURE" by force
    then show ?thesis by (simp add: p gpt_parse_header_def MIN_HEADER_SIZE_def)
  qed
  moreover have "luks_at sample_disk 1536 = Some 2" using p by (simp add: luks_at_def be_val_def)
  moreover have "offset_bytes (slot_partition 512 0 sample_gpt_slot) = 1536" by (simp add: offset_bytes_def slot_partition_def sample_gpt_slot_def mul64_def)
  moreover have "table_of 512 [sample_gpt_slot] = [slot_partition 512 0 sample_gpt_slot]"
    using sample_gpt_slot_wf(2) by (simp add: table_of_def List.map_filter_simps)
  ultimately show ?thesis
    using scan_finds_partitions [where crc = "\<lambda>_. 7" and ss = 512 and d = sample_disk and n = 5 and lba = 4 and h = sample_gpt and info = "replicate 32 3" and slots = "[sample_gpt_slot]"] p(1)
    by (simp add: crc_ok_def)
qed

end
