(* ===== verification/Ext4_Layout.thy ===== *)
theory Ext4_Layout
  imports Btree_Node Devices
begin

unbundle bit_operations_syntax

text \<open>
  The on-disk metadata of ext4: superblock and group descriptors (\<open>core/src/fs/ext4/mod.rs\<close>), the checksum seeds
  and the write gate (\<open>csum.rs\<close>), and the mounted filesystem over an abstract device. The CRC-32C function is
  the external crate of the record \<open>hashes\<close>. Counters and offsets are naturals read from and written to their
  fields; narrowing casts are written out where a value is stored.
\<close>

section \<open>The superblock\<close>

definition EXT4_MAGIC :: nat where "EXT4_MAGIC = 0xEF53"
definition INCOMPAT_FILETYPE :: nat where "INCOMPAT_FILETYPE = 0x0002"
definition INCOMPAT_RECOVER :: nat where "INCOMPAT_RECOVER = 0x0004"
definition INCOMPAT_JOURNAL_DEV :: nat where "INCOMPAT_JOURNAL_DEV = 0x0008"
definition INCOMPAT_META_BG :: nat where "INCOMPAT_META_BG = 0x0010"
definition INCOMPAT_EXTENTS :: nat where "INCOMPAT_EXTENTS = 0x0040"
definition INCOMPAT_64BIT :: nat where "INCOMPAT_64BIT = 0x0080"
definition INCOMPAT_CSUM_SEED :: nat where "INCOMPAT_CSUM_SEED = 0x2000"
definition INCOMPAT_INLINE_DATA :: nat where "INCOMPAT_INLINE_DATA = 0x8000"
definition INCOMPAT_ENCRYPT :: nat where "INCOMPAT_ENCRYPT = 0x10000"
definition RO_COMPAT_QUOTA :: nat where "RO_COMPAT_QUOTA = 0x0100"
definition RO_COMPAT_BIGALLOC :: nat where "RO_COMPAT_BIGALLOC = 0x0200"
definition STATE_CLEANLY_UNMOUNTED :: nat where "STATE_CLEANLY_UNMOUNTED = 0x0001"
definition STATE_ERRORS_SEEN :: nat where "STATE_ERRORS_SEEN = 0x0002"
definition RO_COMPAT_GDT_CSUM :: nat where "RO_COMPAT_GDT_CSUM = 0x0010"
definition RO_COMPAT_METADATA_CSUM :: nat where "RO_COMPAT_METADATA_CSUM = 0x0400"
definition SB_BLOCKS_COUNT_HI :: nat where "SB_BLOCKS_COUNT_HI = 0x150"
definition SB_R_BLOCKS_COUNT_HI :: nat where "SB_R_BLOCKS_COUNT_HI = 0x154"
definition SB_FREE_BLOCKS_COUNT_HI :: nat where "SB_FREE_BLOCKS_COUNT_HI = 0x158"
definition SB_MIN_EXTRA_ISIZE :: nat where "SB_MIN_EXTRA_ISIZE = 0x15C"
definition BG_INODE_UNINIT :: nat where "BG_INODE_UNINIT = 0x0001"
definition BG_BLOCK_UNINIT :: nat where "BG_BLOCK_UNINIT = 0x0002"
definition EXT4_FEATURE_COMPAT_RESIZE_INODE :: nat where "EXT4_FEATURE_COMPAT_RESIZE_INODE = 0x0010"
definition EXT4_FEATURE_RO_COMPAT_SPARSE_SUPER :: nat where "EXT4_FEATURE_RO_COMPAT_SPARSE_SUPER = 0x0001"

text \<open>The parsed superblock; the volume label, which no operation here reads, is left out.\<close>

record ext4_sb =
  s_inodes_count :: nat
  s_blocks_count :: nat
  s_r_blocks_count :: nat
  s_first_data_block :: nat
  s_block_size :: nat
  s_blocks_per_group :: nat
  s_inodes_per_group :: nat
  s_inode_size :: nat
  s_feature_incompat :: nat
  s_feature_ro_compat :: nat
  s_desc_size :: nat
  s_uuid :: bytes
  s_free_blocks_count :: nat
  s_free_inodes_count :: nat
  s_clusters_per_group :: nat
  s_first_ino :: nat
  s_checksum_seed :: "nat option"
  s_min_extra_isize :: nat
  s_state :: nat
  s_reserved_gdt_blocks :: nat

abbreviation flag_set :: "nat \<Rightarrow> nat \<Rightarrow> bool" where
  "flag_set w m \<equiv> (w AND m) \<noteq> 0"

definition ext4_sb_parse :: "bytes \<Rightarrow> ext4_sb result" where
  "ext4_sb_parse b =
     (let magic = u16le b 56; log_block_size = u32le b 24; rev_level = u32le b 76 in
      if magic \<noteq> EXT4_MAGIC then Inl (NotExt4 magic)
      else if log_block_size > 6 then Inl (CorruptFs ''implausible block size'')
      else
        let inode_size = (if rev_level \<ge> 1 then u16le b 88 else 128);
            feature_compat = (if rev_level \<ge> 1 then u32le b 92 else 0);
            feature_incompat = (if rev_level \<ge> 1 then u32le b 96 else 0);
            feature_ro_compat = (if rev_level \<ge> 1 then u32le b 100 else 0);
            desc_size = (if rev_level \<ge> 1 then u16le b 254 else 0);
            inodes_per_group = u32le b 40;
            blocks_per_group = u32le b 32;
            hi = (\<lambda>o'. if flag_set feature_incompat INCOMPAT_64BIT then u32le b o' else 0)
        in if inode_size < 128 then Inl (CorruptFs ''inode size below 128'')
           else if inodes_per_group = 0 \<or> blocks_per_group = 0 then Inl (CorruptFs ''zero inodes or blocks per group'')
           else Inr \<lparr>
             s_inodes_count = u32le b 0,
             s_blocks_count = u32le b 4 + hi SB_BLOCKS_COUNT_HI * 2 ^ 32,
             s_r_blocks_count = u32le b 8 + hi SB_R_BLOCKS_COUNT_HI * 2 ^ 32,
             s_first_data_block = u32le b 20,
             s_block_size = 1024 * 2 ^ log_block_size,
             s_blocks_per_group = blocks_per_group,
             s_inodes_per_group = inodes_per_group,
             s_inode_size = inode_size,
             s_feature_incompat = feature_incompat,
             s_feature_ro_compat = feature_ro_compat,
             s_desc_size = desc_size,
             s_uuid = slice b 104 16,
             s_free_blocks_count = u32le b 12 + hi SB_FREE_BLOCKS_COUNT_HI * 2 ^ 32,
             s_free_inodes_count = u32le b 16,
             s_clusters_per_group = (if u32le b 36 = 0 then blocks_per_group else u32le b 36),
             s_first_ino = (if rev_level \<ge> 1 then u32le b 84 else 11),
             s_checksum_seed = (if flag_set feature_incompat INCOMPAT_CSUM_SEED then Some (u32le b 0x270) else None),
             s_min_extra_isize = (if rev_level \<ge> 1 then u16le b SB_MIN_EXTRA_ISIZE else 0),
             s_state = u16le b 0x3A,
             s_reserved_gdt_blocks = (if flag_set feature_compat EXT4_FEATURE_COMPAT_RESIZE_INODE then u16le b 206 else 0)\<rparr>)"

definition is_64bit :: "ext4_sb \<Rightarrow> bool" where
  "is_64bit sb \<longleftrightarrow> flag_set (s_feature_incompat sb) INCOMPAT_64BIT"

definition group_first_block :: "ext4_sb \<Rightarrow> nat \<Rightarrow> nat" where
  "group_first_block sb g = g * s_blocks_per_group sb + s_first_data_block sb"

text \<open>Dividing out a factor, the loops of \<open>group_has_super\<close>.\<close>

function strip_factor :: "nat \<Rightarrow> nat \<Rightarrow> nat" where
  "strip_factor p n = (if 1 < p \<and> 0 < n \<and> n mod p = 0 then strip_factor p (n div p) else n)"
  by pat_completeness auto
termination
  by (relation "measure snd") auto

declare strip_factor.simps [simp del]

definition group_has_super :: "ext4_sb \<Rightarrow> nat \<Rightarrow> bool" where
  "group_has_super sb g =
     (if g \<le> 1 then True
      else if \<not> flag_set (s_feature_ro_compat sb) EXT4_FEATURE_RO_COMPAT_SPARSE_SUPER then True
      else strip_factor 3 g = 1 \<or> strip_factor 5 g = 1 \<or> strip_factor 7 g = 1)"

definition has_metadata_csum :: "ext4_sb \<Rightarrow> bool" where
  "has_metadata_csum sb \<longleftrightarrow> flag_set (s_feature_ro_compat sb) RO_COMPAT_METADATA_CSUM"

definition has_gdt_csum_only :: "ext4_sb \<Rightarrow> bool" where
  "has_gdt_csum_only sb \<longleftrightarrow> flag_set (s_feature_ro_compat sb) RO_COMPAT_GDT_CSUM \<and> \<not> has_metadata_csum sb"

definition group_desc_size :: "ext4_sb \<Rightarrow> nat" where
  "group_desc_size sb = (if is_64bit sb \<and> s_desc_size sb \<ge> 64 then s_desc_size sb else 32)"

definition group_count :: "ext4_sb \<Rightarrow> nat" where
  "group_count sb = div_ceil (sub64 (s_blocks_count sb) (s_first_data_block sb)) (s_blocks_per_group sb)"

definition group_desc_offset :: "ext4_sb \<Rightarrow> nat" where
  "group_desc_offset sb = (s_first_data_block sb + 1) * s_block_size sb"

text \<open>A power of a prime has no other factor: what the loops decide.\<close>

lemma strip_factor_power:
  assumes "1 < p"
  shows "0 < n \<Longrightarrow> strip_factor p n = 1 \<longleftrightarrow> (\<exists>k. n = p ^ k)"
proof (induction n rule: less_induct)
  case (less n)
  show ?case
  proof (cases "n mod p = 0")
    case True
    then obtain m where m: "n = p * m" by (auto simp: mod_eq_0_iff_dvd dvd_def)
    then have mn: "0 < m" "m < n" "n div p = m" using assms less.prems by auto
    have "(\<exists>k. n = p ^ k) \<longleftrightarrow> (\<exists>k. m = p ^ k)"
    proof
      assume "\<exists>k. n = p ^ k"
      then obtain k where k: "p * m = p ^ k" using m by auto
      then obtain j where "k = Suc j" using assms by (cases k) auto
      then show "\<exists>k. m = p ^ k" using k assms by auto
    next
      assume "\<exists>k. m = p ^ k"
      then show "\<exists>k. n = p ^ k" using m by (metis power_Suc)
    qed
    then show ?thesis using less.IH [OF mn(2,1)] less.prems True assms mn(3) by (simp add: strip_factor.simps [of p n])
  next
    case False
    then have "strip_factor p n = n" by (simp add: strip_factor.simps)
    moreover have "n = p ^ k \<Longrightarrow> n = 1" for k using False by (cases k) auto
    moreover have "\<exists>k. n = p ^ k" if "n = 1" using that by (intro exI [of _ 0]) simp
    ultimately show ?thesis by auto
  qed
qed

section \<open>Group descriptors\<close>

record group_desc =
  bg_block_bitmap :: nat
  bg_inode_bitmap :: nat
  bg_inode_table :: nat
  bg_free_blocks_count :: nat
  bg_free_inodes_count :: nat
  bg_used_dirs_count :: nat
  bg_flags :: nat
  bg_itable_unused :: nat
  bg_checksum :: nat
  bg_block_bitmap_csum :: nat
  bg_inode_bitmap_csum :: nat

definition group_desc_parse :: "bytes \<Rightarrow> group_desc" where
  "group_desc_parse d =
     (let wide = length d \<ge> 64;
          hi16 = (\<lambda>o'. if wide then u16le d o' else 0);
          hi32 = (\<lambda>o'. if wide then u32le d o' else 0)
      in \<lparr>bg_block_bitmap = u32le d 0 + hi32 0x20 * 2 ^ 32,
          bg_inode_bitmap = u32le d 4 + hi32 0x24 * 2 ^ 32,
          bg_inode_table = u32le d 8 + hi32 0x28 * 2 ^ 32,
          bg_free_blocks_count = u16le d 0x0C + hi16 0x2C * 2 ^ 16,
          bg_free_inodes_count = u16le d 0x0E + hi16 0x2E * 2 ^ 16,
          bg_used_dirs_count = u16le d 0x10 + hi16 0x30 * 2 ^ 16,
          bg_flags = u16le d 0x12,
          bg_itable_unused = u16le d 0x1C + hi16 0x32 * 2 ^ 16,
          bg_checksum = u16le d 0x1E,
          bg_block_bitmap_csum = u16le d 0x18 + hi16 0x38 * 2 ^ 16,
          bg_inode_bitmap_csum = u16le d 0x1A + hi16 0x3A * 2 ^ 16\<rparr>)"

definition block_bitmap_uninit :: "group_desc \<Rightarrow> bool" where
  "block_bitmap_uninit g \<longleftrightarrow> flag_set (bg_flags g) BG_BLOCK_UNINIT"

definition inode_bitmap_uninit :: "group_desc \<Rightarrow> bool" where
  "inode_bitmap_uninit g \<longleftrightarrow> flag_set (bg_flags g) BG_INODE_UNINIT"

section \<open>Checksum seeds\<close>

definition DIR_TAIL_SIZE :: nat where "DIR_TAIL_SIZE = 12"
definition BG_CHECKSUM_OFFSET :: nat where "BG_CHECKSUM_OFFSET = 0x1E"
definition SB_CHECKSUM_OFFSET :: nat where "SB_CHECKSUM_OFFSET = 0x3FC"
definition INODE_CSUM_LO_OFFSET :: nat where "INODE_CSUM_LO_OFFSET = 0x7C"
definition INODE_CSUM_HI_OFFSET :: nat where "INODE_CSUM_HI_OFFSET = 0x82"

record csum_seed =
  seed_value :: nat
  seed_enabled :: bool

definition seed_of :: "hashes \<Rightarrow> ext4_sb \<Rightarrow> csum_seed" where
  "seed_of H sb = \<lparr>seed_value = (case s_checksum_seed sb of Some s \<Rightarrow> s | None \<Rightarrow> crc32c_seed H u32_max (s_uuid sb)),
     seed_enabled = has_metadata_csum sb\<rparr>"

text \<open>The write gate. The message of a refusal is the feature it names.\<close>

definition for_writing :: "hashes \<Rightarrow> ext4_sb \<Rightarrow> csum_seed result" where
  "for_writing H sb =
     (let refuse = (\<lambda>what. Inl (UnsupportedFsFeature what)) in
      if has_gdt_csum_only sb then refuse ''gdt_csum group descriptors (crc16)''
      else if flag_set (s_feature_ro_compat sb) RO_COMPAT_BIGALLOC then refuse ''bigalloc (cluster-based allocation)''
      else if flag_set (s_feature_incompat sb) INCOMPAT_INLINE_DATA then refuse ''inline_data''
      else if \<not> flag_set (s_feature_incompat sb) INCOMPAT_FILETYPE
        then refuse ''a directory format without file types (no filetype feature)''
      else if \<not> flag_set (s_feature_incompat sb) INCOMPAT_EXTENTS
        then refuse ''an indirect-block filesystem (no extents feature; ext2/ext3)''
      else if flag_set (s_feature_ro_compat sb) RO_COMPAT_QUOTA then refuse ''quota tracking''
      else if \<not> flag_set (s_state sb) STATE_CLEANLY_UNMOUNTED then refuse ''a filesystem that was not cleanly unmounted''
      else if flag_set (s_state sb) STATE_ERRORS_SEEN then refuse ''a filesystem with recorded errors (run e2fsck)''
      else Inr (seed_of H sb))"

definition seed_superblock :: "hashes \<Rightarrow> csum_seed \<Rightarrow> bytes \<Rightarrow> nat option" where
  "seed_superblock H sd b = (if \<not> seed_enabled sd then None else Some (crc32c_seed H u32_max (take SB_CHECKSUM_OFFSET b)))"

definition seed_group_desc :: "hashes \<Rightarrow> csum_seed \<Rightarrow> nat \<Rightarrow> bytes \<Rightarrow> nat option" where
  "seed_group_desc H sd g d =
     (if \<not> seed_enabled sd then None
      else
        let crc = crc32c_seed H (seed_value sd) (le_bytes 4 g);
            crc = crc32c_seed H crc (take BG_CHECKSUM_OFFSET d);
            crc = crc32c_seed H crc [0, 0];
            crc = (if length d > BG_CHECKSUM_OFFSET + 2 then crc32c_seed H crc (drop (BG_CHECKSUM_OFFSET + 2) d) else crc)
        in Some (crc mod 2 ^ 16))"

definition seed_bitmap :: "hashes \<Rightarrow> csum_seed \<Rightarrow> bytes \<Rightarrow> nat option" where
  "seed_bitmap H sd b = (if \<not> seed_enabled sd then None else Some (crc32c_seed H (seed_value sd) b))"

definition inode_has_csum_hi :: "bytes \<Rightarrow> bool" where
  "inode_has_csum_hi r = (if length r < 130 then False else 128 + u16le r 128 \<ge> INODE_CSUM_HI_OFFSET + 2)"

definition seed_inode :: "hashes \<Rightarrow> csum_seed \<Rightarrow> nat \<Rightarrow> bytes \<Rightarrow> nat option" where
  "seed_inode H sd ino r =
     (if \<not> seed_enabled sd then None
      else
        let crc = crc32c_seed H (seed_value sd) (le_bytes 4 ino);
            crc = crc32c_seed H crc (le_bytes 4 (u32le r 100));
            copy = put r INODE_CSUM_LO_OFFSET [0, 0];
            copy = (if inode_has_csum_hi r then put copy INODE_CSUM_HI_OFFSET [0, 0] else copy)
        in Some (crc32c_seed H crc copy))"

definition stored_inode_csum :: "bytes \<Rightarrow> nat" where
  "stored_inode_csum r = u16le r INODE_CSUM_LO_OFFSET + (if inode_has_csum_hi r then u16le r INODE_CSUM_HI_OFFSET * 2 ^ 16 else 0)"

definition seed_dir_block :: "hashes \<Rightarrow> csum_seed \<Rightarrow> nat \<Rightarrow> nat \<Rightarrow> bytes \<Rightarrow> nat option" where
  "seed_dir_block H sd dir_ino gen b =
     (if \<not> seed_enabled sd \<or> length b < DIR_TAIL_SIZE then None
      else
        let crc = crc32c_seed H (seed_value sd) (le_bytes 4 dir_ino);
            crc = crc32c_seed H crc (le_bytes 4 gen)
        in Some (crc32c_seed H crc (take (length b - DIR_TAIL_SIZE) b)))"

definition seed_extent_block :: "hashes \<Rightarrow> csum_seed \<Rightarrow> nat \<Rightarrow> nat \<Rightarrow> bytes \<Rightarrow> nat option" where
  "seed_extent_block H sd ino gen b =
     (if \<not> seed_enabled sd \<or> length b < 4 then None
      else
        let crc = crc32c_seed H (seed_value sd) (le_bytes 4 ino);
            crc = crc32c_seed H crc (le_bytes 4 gen)
        in Some (crc32c_seed H crc (take (length b - 4) b)))"

section \<open>The mounted filesystem\<close>

record 'd ext4 =
  e_device :: 'd
  e_sb :: ext4_sb
  e_groups :: "group_desc list"

definition read_group_descriptors :: "'d block_dev \<Rightarrow> 'd \<Rightarrow> ext4_sb \<Rightarrow> group_desc list result" where
  "read_group_descriptors B d sb =
     (let count = group_count sb; desc_size = group_desc_size sb in
      case checked_mul64 count desc_size of
        None \<Rightarrow> Inl (CorruptFs ''group descriptor table too large'')
      | Some tot \<Rightarrow>
          rbind (fetch B d (group_desc_offset sb) tot) (\<lambda>buf.
            Inr (map (\<lambda>g. group_desc_parse (slice buf (g * desc_size) desc_size)) [0..<count])))"

definition ext4_mount :: "'d block_dev \<Rightarrow> 'd \<Rightarrow> 'd ext4 result" where
  "ext4_mount B d =
     rbind (fetch B d 1024 1024) (\<lambda>b. rbind (ext4_sb_parse b) (\<lambda>sb.
       if flag_set (s_feature_incompat sb) INCOMPAT_RECOVER then Inl FsNeedsRecovery
       else if flag_set (s_feature_incompat sb) INCOMPAT_ENCRYPT then Inl (UnsupportedFsFeature ''fscrypt per-file encryption'')
       else if flag_set (s_feature_incompat sb) INCOMPAT_JOURNAL_DEV then Inl (UnsupportedFsFeature ''external journal device'')
       else if flag_set (s_feature_incompat sb) INCOMPAT_META_BG then Inl (UnsupportedFsFeature ''meta_bg layout'')
       else rbind (read_group_descriptors B d sb) (\<lambda>gs. Inr \<lparr>e_device = d, e_sb = sb, e_groups = gs\<rparr>)))"

definition metadata_block_offset :: "ext4_sb \<Rightarrow> nat \<Rightarrow> nat result" where
  "metadata_block_offset sb block =
     (if block \<le> s_first_data_block sb \<or> block \<ge> s_blocks_count sb
      then Inl (CorruptFs ''a block pointer reaches outside the filesystem'')
      else Inr (mul64 block (s_block_size sb)))"

definition inode_offset :: "'d ext4 \<Rightarrow> nat \<Rightarrow> nat result" where
  "inode_offset e ino =
     (let sb = e_sb e in
      if ino = 0 \<or> ino > s_inodes_count sb then Inl (BadInode ino)
      else
        let group = (ino - 1) div s_inodes_per_group sb;
            index = (ino - 1) mod s_inodes_per_group sb
        in if group \<ge> length (e_groups e) then Inl (BadInode ino)
           else
             let table = bg_inode_table (e_groups e ! group) in
             rbind (metadata_block_offset sb table) (\<lambda>_.
               let off = add64 (mul64 table (s_block_size sb)) (mul64 index (s_inode_size sb)) in
               case checked_mul64 (s_blocks_count sb) (s_block_size sb) of
                 None \<Rightarrow> Inl (CorruptFs ''filesystem size overflows'')
               | Some fs_bytes \<Rightarrow>
                   (case checked_add64 off (s_inode_size sb) of
                      None \<Rightarrow> Inl (CorruptFs ''an inode table places an inode outside the filesystem'')
                    | Some fin \<Rightarrow>
                        if fin > fs_bytes then Inl (CorruptFs ''an inode table places an inode outside the filesystem'')
                        else Inr off)))"

definition read_raw_inode :: "'d block_dev \<Rightarrow> 'd ext4 \<Rightarrow> nat \<Rightarrow> bytes result" where
  "read_raw_inode B e ino = rbind (inode_offset e ino) (\<lambda>off. fetch B (e_device e) off (s_inode_size (e_sb e)))"

text \<open>Every inode record the filesystem addresses lies inside it.\<close>

lemma inode_offset_bounds:
  "inode_offset e ino = Inr off \<Longrightarrow> off + s_inode_size (e_sb e) \<le> s_blocks_count (e_sb e) * s_block_size (e_sb e)"
  by (auto simp: inode_offset_def Let_def rbind_Inr checked_mul64_def checked_add64_def split: if_splits option.splits)

lemma metadata_block_offset_bounds:
  assumes "metadata_block_offset sb block = Inr off" "s_blocks_count sb * s_block_size sb < 2 ^ 64"
  shows "off = block * s_block_size sb" "off + s_block_size sb \<le> s_blocks_count sb * s_block_size sb" "s_first_data_block sb < block"
proof -
  have b: "s_first_data_block sb < block" "block < s_blocks_count sb" "off = mul64 block (s_block_size sb)"
    using assms(1) by (auto simp: metadata_block_offset_def split: if_splits)
  have le: "(block + 1) * s_block_size sb \<le> s_blocks_count sb * s_block_size sb" using b(2) by (intro mult_le_mono1) simp
  then have "block * s_block_size sb < 2 ^ 64" using assms(2) by (simp add: algebra_simps)
  then show "off = block * s_block_size sb" using b(3) by (simp add: mul64_def)
  then show "off + s_block_size sb \<le> s_blocks_count sb * s_block_size sb" using le by simp
  show "s_first_data_block sb < block" by (rule b(1))
qed

end
