(* ===== verification/Ext4_Alloc.thy ===== *)
theory Ext4_Alloc
  imports Ext4_Layout
begin

unbundle bit_operations_syntax

text \<open>
  The ext4 block and inode allocator (\<open>core/src/fs/ext4/alloc.rs\<close>): bitmaps and the search for a free bit, the
  batch allocation in its two phases (a plan that only reads, a commit that only writes), batch release, inode
  allocation and release. Stateful operations take the filesystem and return a result with the filesystem
  after it.
\<close>

section \<open>Bits\<close>

definition test_bit :: "bytes \<Rightarrow> nat \<Rightarrow> bool" where
  "test_bit bm i \<longleftrightarrow> (bm ! (i div 8)) AND (push_bit (i mod 8) 1) \<noteq> 0"

definition set_bit :: "bytes \<Rightarrow> nat \<Rightarrow> bytes" where
  "set_bit bm i = bm[i div 8 := (bm ! (i div 8)) OR (push_bit (i mod 8) 1)]"

definition clear_bit :: "bytes \<Rightarrow> nat \<Rightarrow> bytes" where
  "clear_bit bm i = bm[i div 8 := (bm ! (i div 8)) AND NOT (push_bit (i mod 8) 1)]"

definition trailing_ones :: "byte \<Rightarrow> nat" where
  "trailing_ones b = length (takeWhile (\<lambda>i. bit b i) [0..<8])"

text \<open>The scan of \<open>find_free_bit_from\<close> from byte \<open>i\<close> on, whose value is \<open>b\<close>.\<close>

function free_scan :: "bytes \<Rightarrow> nat \<Rightarrow> nat \<Rightarrow> byte \<Rightarrow> nat option" where
  "free_scan bm limit i b =
     (if b \<noteq> 0xFF then
        (let index = i * 8 + trailing_ones b in if index \<ge> limit then None else Some index)
      else if i + 1 < length bm then free_scan bm limit (i + 1) (bm ! (i + 1))
      else None)"
  by pat_completeness auto
termination
  by (relation "measure (\<lambda>(bm, limit, i, b). length bm - i)") auto

declare free_scan.simps [simp del]

definition find_free_bit_from :: "bytes \<Rightarrow> nat \<Rightarrow> nat \<Rightarrow> nat option" where
  "find_free_bit_from bm from limit =
     (if from \<ge> limit then None
      else
        let i = from div 8 in
        if i \<ge> length bm then None
        else free_scan bm limit i ((bm ! i) OR (push_bit (from mod 8) 1 - 1)))"

definition find_free_bit :: "bytes \<Rightarrow> nat \<Rightarrow> nat option" where
  "find_free_bit bm limit = find_free_bit_from bm 0 limit"

lemma length_set_bit [simp]: "length (set_bit bm i) = length bm"
  by (simp add: set_bit_def)

lemma length_clear_bit [simp]: "length (clear_bit bm i) = length bm"
  by (simp add: clear_bit_def)

lemma one_bit_byte: "bit (2 ^ n :: byte) j \<longleftrightarrow> n = j \<and> j < 8"
  by (auto simp: bit_exp_iff)

lemma byte_index: "j < 8 \<Longrightarrow> (i * 8 + j) div 8 = i" "j < 8 \<Longrightarrow> (i * 8 + j) mod 8 = (j :: nat)"
  by simp_all

lemma test_bit_iff: "test_bit bm i \<longleftrightarrow> bit (bm ! (i div 8)) (i mod 8)"
proof -
  have "bit ((bm ! (i div 8)) AND (push_bit (i mod 8) 1)) j \<longleftrightarrow> j = i mod 8 \<and> bit (bm ! (i div 8)) j" for j
    by (auto simp: bit_and_iff one_bit_byte)
  then show ?thesis unfolding test_bit_def by (metis bit_0_eq bit_eqI bot_apply bot_bool_def)
qed

lemma same_bit: "i div 8 = j div 8 \<Longrightarrow> i mod 8 = j mod 8 \<Longrightarrow> i = (j :: nat)"
  by (metis div_mult_mod_eq)

lemma test_set_bit:
  assumes "i div 8 < length bm"
  shows "test_bit (set_bit bm i) j \<longleftrightarrow> i = j \<or> test_bit bm j"
proof (cases "i div 8 = j div 8")
  case True
  then show ?thesis using assms same_bit [of i j]
    by (auto simp: test_bit_iff set_bit_def bit_or_iff one_bit_byte)
next
  case False
  then show ?thesis using assms by (auto simp: test_bit_iff set_bit_def)
qed

lemma test_clear_bit:
  assumes "i div 8 < length bm"
  shows "test_bit (clear_bit bm i) j \<longleftrightarrow> i \<noteq> j \<and> test_bit bm j"
proof (cases "i div 8 = j div 8")
  case True
  then show ?thesis using assms same_bit [of i j]
    by (auto simp: test_bit_iff clear_bit_def bit_and_iff bit_not_iff one_bit_byte)
next
  case False
  then show ?thesis using assms by (auto simp: test_bit_iff clear_bit_def)
qed

section \<open>The search\<close>

lemma full_byte: "b = (0xFF :: byte) \<longleftrightarrow> (\<forall>j < 8. bit b j)"
proof
  assume "b = 0xFF"
  then have "b = - 1" by simp
  then show "\<forall>j < 8. bit b j" by simp
next
  assume a: "\<forall>j < 8. bit b j"
  have "b = - 1" by (rule bit_word_eqI) (use a in auto)
  then show "b = 0xFF" by simp
qed

lemma trailing_ones_props:
  assumes "b \<noteq> (0xFF :: byte)"
  shows "trailing_ones b < 8" "\<not> bit b (trailing_ones b)" "j < trailing_ones b \<Longrightarrow> bit b j"
proof -
  let ?t = "takeWhile (\<lambda>i. bit b i) [0..<8]"
  obtain j0 where "j0 < 8" "\<not> bit b j0" using assms full_byte by blast
  then have "?t \<noteq> [0..<8]" by (metis atLeastLessThan_iff set_takeWhileD set_upt zero_le)
  moreover have pre: "?t = take (length ?t) [0..<8]" by (metis takeWhile_eq_take)
  ultimately have lt: "length ?t < 8" by (metis length_takeWhile_le length_upt diff_zero le_neq_implies_less take_all_iff)
  then show "trailing_ones b < 8" by (simp add: trailing_ones_def)
  have "\<not> bit b ([0..<8] ! length ?t)" using nth_length_takeWhile [of "\<lambda>i. bit b i" "[0..<8]"] lt by simp
  then show "\<not> bit b (trailing_ones b)" using lt by (simp add: trailing_ones_def)
  show "bit b j" if "j < trailing_ones b"
  proof -
    have "[0..<8] ! j \<in> set ?t" using that lt takeWhile_nth [of j "\<lambda>i. bit b i" "[0..<8]"] by (metis nth_mem trailing_ones_def)
    then have "bit b ([0..<8] ! j)" by (rule set_takeWhileD [THEN conjunct2])
    then show ?thesis using that lt by (simp add: trailing_ones_def)
  qed
qed

text \<open>The reference: the first clear bit at or after \<open>from\<close> and below the limit.\<close>

definition first_free :: "bytes \<Rightarrow> nat \<Rightarrow> nat \<Rightarrow> nat option" where
  "first_free bm from limit = List.find (\<lambda>i. \<not> test_bit bm i) [from..<limit]"

lemma find_append_None: "List.find P xs = None \<Longrightarrow> List.find P (xs @ ys) = List.find P ys"
  by (induction xs) (auto split: if_splits)

lemma find_upt_Some:
  assumes "from \<le> k" "k < limit" "P k" "\<And>j. from \<le> j \<Longrightarrow> j < k \<Longrightarrow> \<not> P j"
  shows "List.find P [from..<limit] = Some k"
proof -
  have "[from..<limit] = [from..<k] @ k # [Suc k..<limit]"
    using assms(1,2) upt_add_eq_append [of "from" k "limit - k"] by (simp add: upt_conv_Cons)
  moreover have "List.find P [from..<k] = None" using assms(4) by (simp add: find_None_iff)
  ultimately show ?thesis using assms(3) by (simp add: find_append_None)
qed

lemma free_scan_correct:
  assumes "limit \<le> 8 * length bm"
  shows "i < length bm \<Longrightarrow> from < limit \<Longrightarrow> (\<And>j. from \<le> j \<Longrightarrow> j < i * 8 \<Longrightarrow> test_bit bm j) \<Longrightarrow>
    (\<And>j. j < 8 \<Longrightarrow> bit b j \<longleftrightarrow> i * 8 + j < from \<or> test_bit bm (i * 8 + j)) \<Longrightarrow> from \<le> i * 8 + 7 \<Longrightarrow>
    free_scan bm limit i b = first_free bm from limit"
proof (induction "length bm - i" arbitrary: i b rule: less_induct)
  case less
  show ?case
  proof (cases "b = 0xFF")
    case False
    define k where "k = i * 8 + trailing_ones b"
    note t = trailing_ones_props [OF False]
    have k: "from \<le> k" "\<not> test_bit bm k" using t(1,2) less.prems(4) [of "trailing_ones b"] by (auto simp: k_def)
    have low: "test_bit bm j" if "from \<le> j" "j < k" for j
    proof (cases "j < i * 8")
      case True
      then show ?thesis using less.prems(3) that by simp
    next
      case F: False
      then obtain r where r: "j = i * 8 + r" by (metis le_add_diff_inverse not_less)
      then have "r < trailing_ones b" using that by (simp add: k_def)
      then show ?thesis using t(1,3) less.prems(4) [of r] r that by auto
    qed
    show ?thesis
    proof (cases "k < limit")
      case True
      then have "first_free bm from limit = Some k" unfolding first_free_def using k low by (intro find_upt_Some) auto
      then show ?thesis using False True by (subst free_scan.simps) (simp add: k_def)
    next
      case F: False
      then have "first_free bm from limit = None" unfolding first_free_def using low by (auto simp: find_None_iff)
      then show ?thesis using False F by (subst free_scan.simps) (simp add: k_def)
    qed
  next
    case True
    then have all: "bit b j" if "j < 8" for j using that full_byte by blast
    have low: "test_bit bm j" if "from \<le> j" "j < (i + 1) * 8" for j
    proof (cases "j < i * 8")
      case True
      then show ?thesis using less.prems(3) that by simp
    next
      case False
      then obtain r where r: "j = i * 8 + r" by (metis le_add_diff_inverse not_less)
      then have "r < 8" using that by simp
      then show ?thesis using all less.prems(4) [of r] r that by auto
    qed
    show ?thesis
    proof (cases "i + 1 < length bm")
      case T: True
      have "free_scan bm limit i b = free_scan bm limit (i + 1) (bm ! (i + 1))" using True T by (subst free_scan.simps) simp
      also have "\<dots> = first_free bm from limit"
      proof (rule less.hyps)
        show "bit (bm ! (i + 1)) j \<longleftrightarrow> (i + 1) * 8 + j < from \<or> test_bit bm ((i + 1) * 8 + j)" if "j < 8" for j
        proof -
          have "test_bit bm ((i + 1) * 8 + j) \<longleftrightarrow> bit (bm ! (i + 1)) j" by (simp only: test_bit_iff byte_index [OF that])
          then show ?thesis using less.prems(5) by auto
        qed
      qed (use T less.prems low in auto)
      finally show ?thesis .
    next
      case F: False
      then have "limit \<le> (i + 1) * 8" using assms less.prems(1) by simp
      then have "first_free bm from limit = None" unfolding first_free_def using low by (auto simp: find_None_iff)
      then show ?thesis using True F by (subst free_scan.simps) simp
    qed
  qed
qed

lemma low_mask_byte: "n < 8 \<Longrightarrow> j < 8 \<Longrightarrow> bit (push_bit n 1 - 1 :: byte) j \<longleftrightarrow> j < n"
  using bit_mask_iff [where 'a = byte, of n j] by (simp add: mask_eq_exp_minus_1 push_bit_of_1)

lemma find_free_bit_from_eq:
  assumes "limit \<le> 8 * length bm"
  shows "find_free_bit_from bm from limit = first_free bm from limit"
proof (cases "from < limit")
  case False
  then show ?thesis by (simp add: find_free_bit_from_def first_free_def)
next
  case True
  then have i: "from div 8 < length bm" using assms by (simp add: less_mult_imp_div_less mult.commute)
  have "free_scan bm limit (from div 8) ((bm ! (from div 8)) OR (push_bit (from mod 8) 1 - 1)) = first_free bm from limit"
  proof (rule free_scan_correct [OF assms i True])
    show "bit ((bm ! (from div 8)) OR (push_bit (from mod 8) 1 - 1)) j \<longleftrightarrow> from div 8 * 8 + j < from \<or> test_bit bm (from div 8 * 8 + j)"
      if "j < 8" for j
    proof -
      have "from div 8 * 8 + j < from \<longleftrightarrow> j < from mod 8" using div_mult_mod_eq [of "from" 8] by linarith
      then show ?thesis using that low_mask_byte [of "from mod 8" j] by (simp add: bit_or_iff test_bit_iff) blast
    qed
  qed (use div_mult_mod_eq [of "from" 8] in linarith)+
  then show ?thesis using True i by (simp add: find_free_bit_from_def)
qed

lemma first_free_Some:
  assumes "first_free bm from limit = Some k"
  shows "from \<le> k" "k < limit" "\<not> test_bit bm k"
  using assms by (auto simp: first_free_def find_Some_iff nth_append)

section \<open>Reading and materialising bitmaps\<close>

datatype bitmap_kind = BlockBitmap | InodeBitmap

definition bitmap_extent :: "'d ext4 \<Rightarrow> nat \<Rightarrow> bitmap_kind \<Rightarrow> (nat \<times> nat) result" where
  "bitmap_extent e g which =
     (case which of
        BlockBitmap \<Rightarrow> rbind (metadata_block_offset (e_sb e) (bg_block_bitmap (e_groups e ! g))) (\<lambda>off.
          Inr (off, div_ceil (s_clusters_per_group (e_sb e)) 8))
      | InodeBitmap \<Rightarrow> rbind (metadata_block_offset (e_sb e) (bg_inode_bitmap (e_groups e ! g))) (\<lambda>off.
          Inr (off, div_ceil (s_inodes_per_group (e_sb e)) 8)))"

text \<open>The closure \<open>set_bit\<close> of \<open>materialize_bitmap\<close> ignores bits past the buffer.\<close>

definition mark :: "nat \<Rightarrow> bytes \<Rightarrow> bytes" where
  "mark i bm = (if i div 8 < length bm then set_bit bm i else bm)"

definition mark_group :: "ext4_sb \<Rightarrow> nat \<Rightarrow> nat \<Rightarrow> group_desc \<Rightarrow> bytes \<Rightarrow> bytes" where
  "mark_group sb first_block last_block gd bm =
     (let within = (\<lambda>b. first_block \<le> b \<and> b \<le> last_block);
          bm = (if within (bg_block_bitmap gd) then mark (bg_block_bitmap gd - first_block) bm else bm);
          bm = (if within (bg_inode_bitmap gd) then mark (bg_inode_bitmap gd - first_block) bm else bm);
          it_start = bg_inode_table gd;
          it_blocks = div_ceil (s_inodes_per_group sb * s_inode_size sb) (s_block_size sb);
          it_end = sub64 (add64 it_start it_blocks) 1
      in fold (\<lambda>b. mark (b - first_block)) [max it_start first_block..<min it_end last_block + 1] bm)"

definition materialize_bitmap :: "'d ext4 \<Rightarrow> nat \<Rightarrow> bitmap_kind \<Rightarrow> nat \<Rightarrow> bytes" where
  "materialize_bitmap e g which len =
     (let sb = e_sb e; buf = replicate len 0 in
      case which of
        InodeBitmap \<Rightarrow>
          let first_inode = (g * s_inodes_per_group sb + 1) mod 2 ^ 32;
              valid_inodes = (if first_inode > s_inodes_count sb then 0
                else if (first_inode + s_inodes_per_group sb + (2 ^ 32 - 1)) mod 2 ^ 32 > s_inodes_count sb then s_inodes_count sb - first_inode + 1
                else s_inodes_per_group sb)
          in fold mark [valid_inodes..<len * 8] buf
      | BlockBitmap \<Rightarrow>
          let first_block = group_first_block sb g;
              valid_blocks = (if first_block + s_blocks_per_group sb > s_blocks_count sb
                then s_blocks_count sb - first_block else s_blocks_per_group sb);
              buf = fold mark [valid_blocks..<len * 8] buf;
              meta_blocks = (1 + s_reserved_gdt_blocks sb + div_ceil (length (e_groups e) * s_desc_size sb) (s_block_size sb)) mod 2 ^ 32;
              buf = (if group_has_super sb g then fold mark [0..<meta_blocks] buf else buf);
              last_block = first_block + valid_blocks - 1
          in fold (mark_group sb first_block last_block) (e_groups e) buf)"

definition read_bitmap :: "'d block_dev \<Rightarrow> 'd ext4 \<Rightarrow> nat \<Rightarrow> bitmap_kind \<Rightarrow> bytes result" where
  "read_bitmap B e g which =
     rbind (bitmap_extent e g which) (\<lambda>(off, _).
       let uninit = (case which of
             BlockBitmap \<Rightarrow> block_bitmap_uninit (e_groups e ! g)
           | InodeBitmap \<Rightarrow> inode_bitmap_uninit (e_groups e ! g))
       in if uninit then Inr (materialize_bitmap e g which (s_block_size (e_sb e)))
          else fetch B (e_device e) off (s_block_size (e_sb e)))"

section \<open>Planning an allocation\<close>

record ext4_run =
  run_physical :: nat
  run_len :: nat

definition blocks_in_group :: "ext4_sb \<Rightarrow> nat \<Rightarrow> nat" where
  "blocks_in_group sb g =
     min (sub64 (s_blocks_count sb) (s_first_data_block sb + g * s_blocks_per_group sb)) (s_blocks_per_group sb)"

text \<open>Appending a block to the runs: the last run grows when the block follows it.\<close>

definition push_block :: "ext4_run list \<Rightarrow> nat \<Rightarrow> ext4_run list" where
  "push_block out block =
     (if out \<noteq> [] \<and> run_physical (last out) + run_len (last out) = block
      then butlast out @ [(last out)\<lparr>run_len := run_len (last out) + 1\<rparr>]
      else out @ [\<lparr>run_physical = block, run_len = 1\<rparr>])"

text \<open>The claiming loop within one group; the first argument is how many more blocks it may take.\<close>

fun claim_bits :: "nat \<Rightarrow> bytes \<Rightarrow> nat \<Rightarrow> nat \<Rightarrow> nat \<Rightarrow> ext4_run list \<Rightarrow> bytes \<times> nat \<times> ext4_run list" where
  "claim_bits 0 bm cur limit base out = (bm, 0, out)"
| "claim_bits (Suc k) bm cur limit base out =
     (case find_free_bit_from bm cur limit of
        None \<Rightarrow> (bm, 0, out)
      | Some i \<Rightarrow>
          (case claim_bits k (set_bit bm i) (i + 1) limit base (push_block out (base + i)) of
             (bm', taken, out') \<Rightarrow> (bm', taken + 1, out')))"

text \<open>The loop over the groups, in the order they are tried. A plan entry is a group, its new bitmap and the
  number of blocks taken from it.\<close>

fun plan_groups :: "'d block_dev \<Rightarrow> 'd ext4 \<Rightarrow> nat list \<Rightarrow> nat \<Rightarrow> (nat \<times> bytes \<times> nat) list \<Rightarrow> ext4_run list
    \<Rightarrow> (nat \<times> (nat \<times> bytes \<times> nat) list \<times> ext4_run list) result" where
  "plan_groups B e [] remaining plan out = Inr (remaining, plan, out)"
| "plan_groups B e (g # gs) remaining plan out =
     (if remaining = 0 then Inr (remaining, plan, out)
      else if bg_free_blocks_count (e_groups e ! g) = 0 then plan_groups B e gs remaining plan out
      else case read_bitmap B e g BlockBitmap of
          Inl err \<Rightarrow> Inl err
        | Inr bm \<Rightarrow>
            (case claim_bits (min (bg_free_blocks_count (e_groups e ! g)) remaining) bm 0 (blocks_in_group (e_sb e) g)
                (s_first_data_block (e_sb e) + g * s_blocks_per_group (e_sb e)) out of
               (bm', taken, out') \<Rightarrow>
                 plan_groups B e gs (remaining - taken) (if taken > 0 then plan @ [(g, bm', taken)] else plan) out'))"

definition group_order :: "'d ext4 \<Rightarrow> nat \<Rightarrow> nat list" where
  "group_order e goal =
     (let per = s_blocks_per_group (e_sb e); first = s_first_data_block (e_sb e); ngroups = length (e_groups e);
          start = (if goal \<ge> first then min ((goal - first) div per) (ngroups - 1) else 0)
      in map (\<lambda>n. (start + n) mod ngroups) [0..<ngroups])"

definition plan_alloc :: "'d block_dev \<Rightarrow> 'd ext4 \<Rightarrow> nat \<Rightarrow> nat \<Rightarrow> ((nat \<times> bytes \<times> nat) list \<times> ext4_run list) result" where
  "plan_alloc B e goal count =
     rbind (plan_groups B e (group_order e goal) count [] []) (\<lambda>(remaining, plan, out).
       if remaining > 0 then Inl FilesystemFull else Inr (plan, out))"

section \<open>Committing\<close>

type_synonym ('d, 'a) ext4_op = "'d ext4 \<Rightarrow> 'a result \<times> 'd ext4"

definition ebind :: "('d, 'a) ext4_op \<Rightarrow> ('a \<Rightarrow> ('d, 'b) ext4_op) \<Rightarrow> ('d, 'b) ext4_op" where
  "ebind m f e = (case m e of (Inl err, e') \<Rightarrow> (Inl err, e') | (Inr x, e') \<Rightarrow> f x e')"

definition e4_write :: "'d block_dev \<Rightarrow> nat \<Rightarrow> bytes \<Rightarrow> ('d, unit) ext4_op" where
  "e4_write B off b e = (case dev_write B (e_device e) off b of (r, d) \<Rightarrow> (r, e\<lparr>e_device := d\<rparr>))"

definition upd_group :: "nat \<Rightarrow> (group_desc \<Rightarrow> group_desc) \<Rightarrow> 'd ext4 \<Rightarrow> 'd ext4" where
  "upd_group g f e = e\<lparr>e_groups := (e_groups e)[g := f (e_groups e ! g)]\<rparr>"

definition write_bitmap :: "hashes \<Rightarrow> 'd block_dev \<Rightarrow> nat \<Rightarrow> bitmap_kind \<Rightarrow> bytes \<Rightarrow> csum_seed \<Rightarrow> ('d, unit) ext4_op" where
  "write_bitmap H B g which bm sd e =
     (case bitmap_extent e g which of
        Inl err \<Rightarrow> (Inl err, e)
      | Inr (off, csum_len) \<Rightarrow>
          (case e4_write B off bm e of
             (Inl err, e) \<Rightarrow> (Inl err, e)
           | (Inr _, e) \<Rightarrow>
               (case seed_bitmap H sd (take csum_len bm) of
                  None \<Rightarrow> (Inr (), e)
                | Some c \<Rightarrow>
                    (Inr (), upd_group g (\<lambda>gd. case which of
                       BlockBitmap \<Rightarrow> gd\<lparr>bg_block_bitmap_csum := c\<rparr>
                     | InodeBitmap \<Rightarrow> gd\<lparr>bg_inode_bitmap_csum := c\<rparr>) e))))"

text \<open>A series of \<open>put16\<close>: each keeps the low sixteen bits of its value.\<close>

definition put16s :: "(nat \<times> nat) list \<Rightarrow> bytes \<Rightarrow> bytes" where
  "put16s fs = fold (\<lambda>(i, v) d. put d i (le_bytes 2 v)) fs"

text \<open>The fields that \<open>write_group_desc\<close> patches, low halves first; the high halves only in a wide descriptor.\<close>

definition desc_fields :: "bool \<Rightarrow> group_desc \<Rightarrow> (nat \<times> nat) list" where
  "desc_fields wide gd =
     [(0x0C, bg_free_blocks_count gd), (0x0E, bg_free_inodes_count gd), (0x10, bg_used_dirs_count gd), (0x12, bg_flags gd),
      (0x18, bg_block_bitmap_csum gd), (0x1A, bg_inode_bitmap_csum gd), (0x1C, bg_itable_unused gd)] @
     (if wide then
        [(0x2C, bg_free_blocks_count gd div 2 ^ 16), (0x2E, bg_free_inodes_count gd div 2 ^ 16),
         (0x30, bg_used_dirs_count gd div 2 ^ 16), (0x32, bg_itable_unused gd div 2 ^ 16),
         (0x38, bg_block_bitmap_csum gd div 2 ^ 16), (0x3A, bg_inode_bitmap_csum gd div 2 ^ 16)]
      else [])"

definition patch_group_desc :: "bytes \<Rightarrow> group_desc \<Rightarrow> bytes" where
  "patch_group_desc d gd = put16s (desc_fields (length d \<ge> 64) gd) d"

definition write_group_desc :: "hashes \<Rightarrow> 'd block_dev \<Rightarrow> nat \<Rightarrow> csum_seed \<Rightarrow> ('d, unit) ext4_op" where
  "write_group_desc H B g sd e =
     (let size = group_desc_size (e_sb e); off = group_desc_offset (e_sb e) + g * size in
      case fetch B (e_device e) off size of
        Inl err \<Rightarrow> (Inl err, e)
      | Inr d \<Rightarrow>
          (let d = patch_group_desc d (e_groups e ! g) in
           case seed_group_desc H sd g d of
             None \<Rightarrow> e4_write B off d e
           | Some c \<Rightarrow> e4_write B off (put d 0x1E (le_bytes 2 c)) (upd_group g (\<lambda>gd. gd\<lparr>bg_checksum := c\<rparr>) e)))"

definition patch_superblock :: "hashes \<Rightarrow> csum_seed \<Rightarrow> ext4_sb \<Rightarrow> bytes \<Rightarrow> bytes" where
  "patch_superblock H sd sb b =
     (let b = put b 12 (le_bytes 4 (s_free_blocks_count sb));
          b = put b 16 (le_bytes 4 (s_free_inodes_count sb));
          b = (if is_64bit sb then put b SB_FREE_BLOCKS_COUNT_HI (le_bytes 4 (s_free_blocks_count sb div 2 ^ 32)) else b)
      in case seed_superblock H sd b of None \<Rightarrow> b | Some c \<Rightarrow> put b 0x3FC (le_bytes 4 c))"

definition write_superblock :: "hashes \<Rightarrow> 'd block_dev \<Rightarrow> csum_seed \<Rightarrow> ('d, unit) ext4_op" where
  "write_superblock H B sd e =
     (case fetch B (e_device e) 1024 1024 of
        Inl err \<Rightarrow> (Inl err, e)
      | Inr b \<Rightarrow> e4_write B 1024 (patch_superblock H sd (e_sb e) b) e)"

definition clear_uninit :: "nat \<Rightarrow> group_desc \<Rightarrow> group_desc" where
  "clear_uninit m gd = gd\<lparr>bg_flags := bg_flags gd AND (65535 XOR m)\<rparr>"

definition commit :: "hashes \<Rightarrow> 'd block_dev \<Rightarrow> nat \<Rightarrow> bitmap_kind \<Rightarrow> bytes \<Rightarrow> csum_seed \<Rightarrow> ('d, unit) ext4_op" where
  "commit H B g which bm sd e =
     (let e = upd_group g (clear_uninit (case which of BlockBitmap \<Rightarrow> BG_BLOCK_UNINIT | InodeBitmap \<Rightarrow> BG_INODE_UNINIT)) e in
      ebind (write_bitmap H B g which bm sd) (\<lambda>_.
      ebind (write_group_desc H B g sd) (\<lambda>_.
      write_superblock H B sd)) e)"

text \<open>The commit loop of \<open>alloc_blocks\<close>; the group counter is a \<open>u32\<close>, the superblock counter saturates at zero.\<close>

fun commit_alloc :: "hashes \<Rightarrow> 'd block_dev \<Rightarrow> csum_seed \<Rightarrow> (nat \<times> bytes \<times> nat) list \<Rightarrow> ('d, unit) ext4_op" where
  "commit_alloc H B sd [] e = write_superblock H B sd e"
| "commit_alloc H B sd ((g, bm, taken) # plan) e =
     (let e = upd_group g (\<lambda>gd. clear_uninit BG_BLOCK_UNINIT
            (gd\<lparr>bg_free_blocks_count := (bg_free_blocks_count gd + (2 ^ 32 - taken mod 2 ^ 32)) mod 2 ^ 32\<rparr>)) e;
          e = e\<lparr>e_sb := (e_sb e)\<lparr>s_free_blocks_count := s_free_blocks_count (e_sb e) - taken\<rparr>\<rparr>
      in ebind (write_bitmap H B g BlockBitmap bm sd) (\<lambda>_.
         ebind (write_group_desc H B g sd) (\<lambda>_.
         commit_alloc H B sd plan)) e)"

definition alloc_blocks :: "hashes \<Rightarrow> 'd block_dev \<Rightarrow> nat \<Rightarrow> nat \<Rightarrow> ('d, ext4_run list) ext4_op" where
  "alloc_blocks H B goal count e =
     (if count = 0 then (Inr [], e)
      else case for_writing H (e_sb e) of
          Inl err \<Rightarrow> (Inl err, e)
        | Inr sd \<Rightarrow>
            (case plan_alloc B e goal count of
               Inl err \<Rightarrow> (Inl err, e)
             | Inr (plan, out) \<Rightarrow> ebind (commit_alloc H B sd plan) (\<lambda>_ e. (Inr out, e)) e))"

definition alloc_block :: "hashes \<Rightarrow> 'd block_dev \<Rightarrow> nat \<Rightarrow> ('d, nat) ext4_op" where
  "alloc_block H B goal =
     ebind (alloc_blocks H B goal 1) (\<lambda>runs e. (case runs of [] \<Rightarrow> Inl FilesystemFull | r # _ \<Rightarrow> Inr (run_physical r), e))"

section \<open>Releasing\<close>

text \<open>\<open>Iterator::position\<close>.\<close>

fun find_index :: "('a \<Rightarrow> bool) \<Rightarrow> 'a list \<Rightarrow> nat option" where
  "find_index p [] = None"
| "find_index p (x # xs) = (if p x then Some 0 else map_option Suc (find_index p xs))"

text \<open>The plan of \<open>free_blocks\<close>: one entry per group touched, with its bitmap and the number of bits cleared.\<close>

definition plan_slot :: "'d block_dev \<Rightarrow> 'd ext4 \<Rightarrow> nat \<Rightarrow> (nat \<times> bytes \<times> nat) list \<Rightarrow> (nat \<times> (nat \<times> bytes \<times> nat) list) result" where
  "plan_slot B e g plan =
     (case find_index (\<lambda>(gi, _, _). gi = g) plan of
        Some i \<Rightarrow> Inr (i, plan)
      | None \<Rightarrow> rbind (read_bitmap B e g BlockBitmap) (\<lambda>bm. Inr (length plan, plan @ [(g, bm, 0)])))"

definition free_one :: "'d block_dev \<Rightarrow> 'd ext4 \<Rightarrow> nat \<Rightarrow> (nat \<times> bytes \<times> nat) list \<Rightarrow> (nat \<times> bytes \<times> nat) list result" where
  "free_one B e block plan =
     (let first = s_first_data_block (e_sb e); per = s_blocks_per_group (e_sb e) in
      if block < first \<or> block \<ge> s_blocks_count (e_sb e) then Inl (CorruptFs ''free of a block outside the filesystem'')
      else
        let g = (block - first) div per; i = (block - first) mod per in
        if g \<ge> length (e_groups e) then Inl Panic
        else rbind (plan_slot B e g plan) (\<lambda>(slot, plan).
          case plan ! slot of
            (_, bm, freed) \<Rightarrow>
              if i div 8 \<ge> length bm then Inl Panic
              else if \<not> test_bit bm i then Inl (CorruptFs ''double free of a block'')
              else Inr (plan[slot := (g, clear_bit bm i, freed + 1)])))"

fun free_each :: "'d block_dev \<Rightarrow> 'd ext4 \<Rightarrow> nat list \<Rightarrow> (nat \<times> bytes \<times> nat) list \<Rightarrow> (nat \<times> bytes \<times> nat) list result" where
  "free_each B e [] plan = Inr plan"
| "free_each B e (b # bs) plan = rbind (free_one B e b plan) (free_each B e bs)"

text \<open>The blocks of the runs in order, as \<open>free_blocks\<close> iterates over them: the end of a range is a \<open>u64\<close> sum.\<close>

definition freed_list :: "ext4_run list \<Rightarrow> nat list" where
  "freed_list rs = concat (map (\<lambda>r. [run_physical r..<add64 (run_physical r) (run_len r)]) rs)"

fun commit_free :: "hashes \<Rightarrow> 'd block_dev \<Rightarrow> csum_seed \<Rightarrow> (nat \<times> bytes \<times> nat) list \<Rightarrow> ('d, unit) ext4_op" where
  "commit_free H B sd [] e = write_superblock H B sd e"
| "commit_free H B sd ((g, bm, freed) # plan) e =
     (let e = upd_group g (\<lambda>gd. clear_uninit BG_BLOCK_UNINIT
            (gd\<lparr>bg_free_blocks_count := (bg_free_blocks_count gd + freed) mod 2 ^ 32\<rparr>)) e;
          e = e\<lparr>e_sb := (e_sb e)\<lparr>s_free_blocks_count := add64 (s_free_blocks_count (e_sb e)) freed\<rparr>\<rparr>
      in ebind (write_bitmap H B g BlockBitmap bm sd) (\<lambda>_.
         ebind (write_group_desc H B g sd) (\<lambda>_.
         commit_free H B sd plan)) e)"

definition free_blocks :: "hashes \<Rightarrow> 'd block_dev \<Rightarrow> ext4_run list \<Rightarrow> ('d, unit) ext4_op" where
  "free_blocks H B rs e =
     (if rs = [] then (Inr (), e)
      else case for_writing H (e_sb e) of
          Inl err \<Rightarrow> (Inl err, e)
        | Inr sd \<Rightarrow>
            (case free_each B e (freed_list rs) [] of
               Inl err \<Rightarrow> (Inl err, e)
             | Inr plan \<Rightarrow> commit_free H B sd plan e))"

definition free_block :: "hashes \<Rightarrow> 'd block_dev \<Rightarrow> nat \<Rightarrow> ('d, unit) ext4_op" where
  "free_block H B block = free_blocks H B [\<lparr>run_physical = block, run_len = 1\<rparr>]"

section \<open>Inodes\<close>

definition write_blank :: "'d block_dev \<Rightarrow> nat \<Rightarrow> ('d, unit) ext4_op" where
  "write_blank B ino e =
     (case inode_offset e ino of
        Inl err \<Rightarrow> (Inl err, e)
      | Inr off \<Rightarrow> e4_write B off (replicate (s_inode_size (e_sb e)) 0) e)"

fun alloc_inode_loop :: "hashes \<Rightarrow> 'd block_dev \<Rightarrow> csum_seed \<Rightarrow> bool \<Rightarrow> nat list \<Rightarrow> ('d, nat) ext4_op" where
  "alloc_inode_loop H B sd dir [] e = (Inl NoFreeInodes, e)"
| "alloc_inode_loop H B sd dir (g # gs) e =
     (let per = s_inodes_per_group (e_sb e) in
      if bg_free_inodes_count (e_groups e ! g) = 0 then alloc_inode_loop H B sd dir gs e
      else case read_bitmap B e g InodeBitmap of
          Inl err \<Rightarrow> (Inl err, e)
        | Inr bm \<Rightarrow>
            (case find_free_bit bm per of
               None \<Rightarrow> alloc_inode_loop H B sd dir gs e
             | Some i \<Rightarrow>
                 let ino = g * per + i + 1 in
                 if ino < s_first_ino (e_sb e) then alloc_inode_loop H B sd dir gs e
                 else
                   let unused = (per - (i + 1)) mod 2 ^ 32;
                       e = upd_group g (\<lambda>gd. gd\<lparr>bg_free_inodes_count := bg_free_inodes_count gd - 1,
                             bg_used_dirs_count := (if dir then (bg_used_dirs_count gd + 1) mod 2 ^ 32 else bg_used_dirs_count gd),
                             bg_itable_unused := min (bg_itable_unused gd) unused\<rparr>) e;
                       e = e\<lparr>e_sb := (e_sb e)\<lparr>s_free_inodes_count := s_free_inodes_count (e_sb e) - 1\<rparr>\<rparr>
                   in ebind (write_blank B ino) (\<lambda>_. ebind (commit H B g InodeBitmap (set_bit bm i) sd) (\<lambda>_ e. (Inr ino, e))) e))"

definition alloc_inode :: "hashes \<Rightarrow> 'd block_dev \<Rightarrow> bool \<Rightarrow> ('d, nat) ext4_op" where
  "alloc_inode H B dir e =
     (case for_writing H (e_sb e) of
        Inl err \<Rightarrow> (Inl err, e)
      | Inr sd \<Rightarrow> alloc_inode_loop H B sd dir [0..<length (e_groups e)] e)"

definition free_inode :: "hashes \<Rightarrow> 'd block_dev \<Rightarrow> nat \<Rightarrow> bool \<Rightarrow> ('d, unit) ext4_op" where
  "free_inode H B ino was_dir e =
     (case for_writing H (e_sb e) of
        Inl err \<Rightarrow> (Inl err, e)
      | Inr sd \<Rightarrow>
          if ino < s_first_ino (e_sb e) \<or> ino > s_inodes_count (e_sb e) then (Inl (BadInode ino), e)
          else
            let per = s_inodes_per_group (e_sb e);
                g = (sub64 ino 1) div per; i = (sub64 ino 1) mod per
            in if g \<ge> length (e_groups e) then (Inl (BadInode ino), e)
               else if inode_bitmap_uninit (e_groups e ! g)
                 then (Inl (CorruptFs ''free of an inode in an uninitialised group''), e)
               else case read_bitmap B e g InodeBitmap of
                   Inl err \<Rightarrow> (Inl err, e)
                 | Inr bm \<Rightarrow>
                     if i div 8 \<ge> length bm then (Inl Panic, e)
                     else if \<not> test_bit bm i then (Inl (CorruptFs ''double free of an inode''), e)
                     else ebind (write_blank B ino) (\<lambda>_ e.
                       let e = upd_group g (\<lambda>gd. gd\<lparr>bg_free_inodes_count := (bg_free_inodes_count gd + 1) mod 2 ^ 32,
                                 bg_used_dirs_count := (if was_dir \<and> bg_used_dirs_count gd > 0 then bg_used_dirs_count gd - 1 else bg_used_dirs_count gd)\<rparr>) e;
                           e = e\<lparr>e_sb := (e_sb e)\<lparr>s_free_inodes_count := (s_free_inodes_count (e_sb e) + 1) mod 2 ^ 32\<rparr>\<rparr>
                       in commit H B g InodeBitmap (clear_bit bm i) sd e) e)"

end
