(* ===== verification/Ext4_Plan.thy ===== *)
theory Ext4_Plan
  imports Ext4_Alloc
begin

text \<open>
  What the planning phase of the ext4 allocator decides. A grant is a group with the bits claimed in it; the plan
  of \<open>alloc_blocks\<close> is a list of grants over distinct groups, each bit free in the bitmap that was read, and
  the runs handed out are the blocks of the grants in order.
\<close>

section \<open>Runs and bits\<close>

definition run_blocks :: "ext4_run list \<Rightarrow> nat list" where
  "run_blocks rs = concat (map (\<lambda>r. [run_physical r..<run_physical r + run_len r]) rs)"

definition set_bits :: "nat list \<Rightarrow> bytes \<Rightarrow> bytes" where
  "set_bits is bm = fold (\<lambda>i bm. set_bit bm i) is bm"

definition clear_bits :: "nat list \<Rightarrow> bytes \<Rightarrow> bytes" where
  "clear_bits is bm = fold (\<lambda>i bm. clear_bit bm i) is bm"

lemma set_bits_simps [simp]: "set_bits [] bm = bm" "set_bits (i # is) bm = set_bits is (set_bit bm i)"
  by (simp_all add: set_bits_def)

lemma length_set_bits [simp]: "length (set_bits is bm) = length bm"
  by (induction "is" arbitrary: bm) simp_all

lemma div8_less: "i < limit \<Longrightarrow> limit \<le> 8 * n \<Longrightarrow> i div 8 < (n :: nat)"
  by (simp add: div_less_iff_less_mult mult.commute)

lemma test_set_bits:
  "\<forall>i \<in> set is. i < 8 * length bm \<Longrightarrow> test_bit (set_bits is bm) j \<longleftrightarrow> j \<in> set is \<or> test_bit bm j"
  by (induction "is" arbitrary: bm) (auto simp: test_set_bit div8_less)

lemma run_blocks_push [simp]: "run_blocks (push_block out block) = run_blocks out @ [block]"
proof (cases "out = []")
  case True
  then show ?thesis by (simp add: push_block_def run_blocks_def)
next
  case False
  then obtain rs r where "out = rs @ [r]" by (metis append_butlast_last_id)
  then show ?thesis by (auto simp: push_block_def run_blocks_def)
qed

lemma run_blocks_Nil [simp]: "run_blocks [] = []"
  by (simp add: run_blocks_def)

section \<open>Claiming within a group\<close>

lemma claim_bits_spec:
  assumes "claim_bits k bm cur limit base out = (bm', taken, out')" "limit \<le> 8 * length bm"
  shows "\<exists>is. bm' = set_bits is bm \<and> length is = taken \<and> taken \<le> k \<and> sorted_wrt (<) is
    \<and> (\<forall>i \<in> set is. cur \<le> i \<and> i < limit \<and> \<not> test_bit bm i)
    \<and> run_blocks out' = run_blocks out @ map ((+) base) is
    \<and> (taken < k \<longrightarrow> (\<forall>j. cur \<le> j \<and> j < limit \<longrightarrow> test_bit bm j \<or> j \<in> set is))"
  using assms
proof (induction k arbitrary: bm cur out taken)
  case 0
  then show ?case by (intro exI [of _ "[]"]) auto
next
  case (Suc k)
  note ff = find_free_bit_from_eq [OF Suc.prems(2), of cur]
  show ?case
  proof (cases "first_free bm cur limit")
    case None
    then have "\<forall>j. cur \<le> j \<and> j < limit \<longrightarrow> test_bit bm j" by (auto simp: first_free_def find_None_iff)
    with None show ?thesis using Suc.prems(1) ff by (intro exI [of _ "[]"]) auto
  next
    case (Some i)
    note i = first_free_Some [OF Some]
    have low: "test_bit bm j" if "cur \<le> j" "j < i" for j
      using Some that unfolding first_free_def find_Some_iff by (auto simp: less_diff_conv) (metis add.commute le_add_diff_inverse less_diff_conv2 nth_upt i(2) less_trans)
    obtain t where t: "claim_bits k (set_bit bm i) (i + 1) limit base (push_block out (base + i)) = (bm', t, out')" "taken = t + 1"
      using Suc.prems(1) ff Some by (auto split: prod.splits)
    have i8: "i div 8 < length bm" using i(2) Suc.prems(2) by (rule div8_less)
    from Suc.IH [OF t(1)] Suc.prems(2) obtain js where js: "bm' = set_bits js (set_bit bm i)" "length js = t" "t \<le> k" "sorted_wrt (<) js"
      "\<forall>j \<in> set js. i + 1 \<le> j \<and> j < limit \<and> \<not> test_bit (set_bit bm i) j"
      "run_blocks out' = run_blocks out @ [base + i] @ map ((+) base) js"
      "t < k \<longrightarrow> (\<forall>j. i + 1 \<le> j \<and> j < limit \<longrightarrow> test_bit (set_bit bm i) j \<or> j \<in> set js)" by auto
    have cover: "test_bit bm j \<or> j = i \<or> j \<in> set js" if "t < k" "cur \<le> j" "j < limit" for j
    proof (cases j i rule: linorder_cases)
      case greater
      then have "i + 1 \<le> j" by simp
      then have "test_bit (set_bit bm i) j \<or> j \<in> set js" using that js(7) by blast
      then show ?thesis using test_set_bit [OF i8, of j] by blast
    qed (use low that in auto)
    show ?thesis
      using js t(2) i cover test_set_bit [OF i8] by (intro exI [of _ "i # js"]) auto
  qed
qed

section \<open>The plan\<close>

type_synonym grant = "nat \<times> nat list"

definition grant_blocks :: "ext4_sb \<Rightarrow> grant \<Rightarrow> nat list" where
  "grant_blocks sb gr = map (\<lambda>i. s_first_data_block sb + fst gr * s_blocks_per_group sb + i) (snd gr)"

text \<open>A grant is admissible against a function that gives the bitmap of every group.\<close>

definition grant_ok :: "'d ext4 \<Rightarrow> (nat \<Rightarrow> bytes) \<Rightarrow> grant \<Rightarrow> bool" where
  "grant_ok e bits gr \<longleftrightarrow> snd gr \<noteq> [] \<and> sorted_wrt (<) (snd gr)
     \<and> length (snd gr) \<le> bg_free_blocks_count (e_groups e ! fst gr)
     \<and> (\<forall>i \<in> set (snd gr). i < blocks_in_group (e_sb e) (fst gr) \<and> \<not> test_bit (bits (fst gr)) i)"

definition plan_entry :: "(nat \<Rightarrow> bytes) \<Rightarrow> grant \<Rightarrow> nat \<times> bytes \<times> nat" where
  "plan_entry bits gr = (fst gr, set_bits (snd gr) (bits (fst gr)), length (snd gr))"

text \<open>How many blocks a group can give: no more than its descriptor and its bitmap both admit.\<close>

definition group_supply :: "'d ext4 \<Rightarrow> (nat \<Rightarrow> bytes) \<Rightarrow> nat \<Rightarrow> nat" where
  "group_supply e bits g =
     min (bg_free_blocks_count (e_groups e ! g))
         (length (filter (\<lambda>i. \<not> test_bit (bits g) i) [0..<blocks_in_group (e_sb e) g]))"

lemma claimed_all:
  assumes "sorted_wrt (<) (is :: nat list)" "\<forall>i \<in> set is. i < limit \<and> \<not> test_bit bm i"
  shows "length is \<le> length (filter (\<lambda>i. \<not> test_bit bm i) [0..<limit])"
    "(\<forall>j < limit. test_bit bm j \<or> j \<in> set is) \<Longrightarrow> length is = length (filter (\<lambda>i. \<not> test_bit bm i) [0..<limit])"
proof -
  have d: "distinct is" using assms(1) by (simp add: strict_sorted_iff)
  have l: "length (filter (\<lambda>i. \<not> test_bit bm i) [0..<limit]) = card {i. i < limit \<and> \<not> test_bit bm i}"
    by (subst distinct_card [symmetric]) (auto intro!: arg_cong [where f = card])
  have sub: "set is \<subseteq> {i. i < limit \<and> \<not> test_bit bm i}" using assms(2) by auto
  show "length is \<le> length (filter (\<lambda>i. \<not> test_bit bm i) [0..<limit])"
    unfolding l distinct_card [OF d, symmetric] by (rule card_mono) (use sub in auto)
  show "length is = length (filter (\<lambda>i. \<not> test_bit bm i) [0..<limit])" if "\<forall>j < limit. test_bit bm j \<or> j \<in> set is"
  proof -
    have "set is = {i. i < limit \<and> \<not> test_bit bm i}" using sub that by auto
    then show ?thesis unfolding l distinct_card [OF d, symmetric] by simp
  qed
qed

lemma plan_groups_spec:
  assumes "\<And>g. g \<in> set gs \<Longrightarrow> read_bitmap B e g BlockBitmap = Inr (bits g)"
    and "\<And>g. g \<in> set gs \<Longrightarrow> blocks_in_group (e_sb e) g \<le> 8 * length (bits g)"
    and "distinct gs"
  shows "\<exists>grants out'. plan_groups B e gs remaining plan out =
      Inr (remaining - sum_list (map (group_supply e bits) gs), plan @ map (plan_entry bits) grants, out')
    \<and> run_blocks out' = run_blocks out @ concat (map (grant_blocks (e_sb e)) grants)
    \<and> length (concat (map snd grants)) = min remaining (sum_list (map (group_supply e bits) gs))
    \<and> distinct (map fst grants) \<and> fst ` set grants \<subseteq> set gs \<and> (\<forall>gr \<in> set grants. grant_ok e bits gr)"
  using assms
proof (induction gs arbitrary: remaining plan out)
  case Nil
  then show ?case by (intro exI [of _ "[]"] exI [of _ out]) simp
next
  case (Cons g gs)
  let ?lim = "blocks_in_group (e_sb e) g"
  have IH: "\<exists>grants out'. plan_groups B e gs remaining plan out =
      Inr (remaining - sum_list (map (group_supply e bits) gs), plan @ map (plan_entry bits) grants, out')
    \<and> run_blocks out' = run_blocks out @ concat (map (grant_blocks (e_sb e)) grants)
    \<and> length (concat (map snd grants)) = min remaining (sum_list (map (group_supply e bits) gs))
    \<and> distinct (map fst grants) \<and> fst ` set grants \<subseteq> set gs \<and> (\<forall>gr \<in> set grants. grant_ok e bits gr)" for remaining plan out
    using Cons by simp
  consider "remaining = 0" | "remaining > 0" "bg_free_blocks_count (e_groups e ! g) = 0"
    | "remaining > 0" "bg_free_blocks_count (e_groups e ! g) > 0" by blast
  then show ?case
  proof cases
    case 1
    then show ?thesis by (intro exI [of _ "[]"] exI [of _ out]) simp
  next
    case 2
    then have "group_supply e bits g = 0" by (simp add: group_supply_def)
    then show ?thesis using IH [of remaining plan out] 2 by (force simp: subset_insertI2)
  next
    case 3
    let ?fc = "bg_free_blocks_count (e_groups e ! g)"
    obtain bm' taken out1 where cb: "claim_bits (min ?fc remaining) (bits g) 0 ?lim
        (s_first_data_block (e_sb e) + g * s_blocks_per_group (e_sb e)) out = (bm', taken, out1)"
      by (metis prod_cases3)
    have lim: "?lim \<le> 8 * length (bits g)" using Cons.prems(2) by simp
    from claim_bits_spec [OF cb lim] obtain ixs where ixs: "bm' = set_bits ixs (bits g)" "length ixs = taken" "taken \<le> min ?fc remaining"
      "sorted_wrt (<) ixs" "\<forall>i \<in> set ixs. i < ?lim \<and> \<not> test_bit (bits g) i"
      "run_blocks out1 = run_blocks out @ grant_blocks (e_sb e) (g, ixs)"
      "taken < min ?fc remaining \<longrightarrow> (\<forall>j < ?lim. test_bit (bits g) j \<or> j \<in> set ixs)"
      by (auto simp: grant_blocks_def comp_def)
    have taken: "taken = min remaining (group_supply e bits g)"
    proof -
      let ?fr = "length (filter (\<lambda>i. \<not> test_bit (bits g) i) [0..<?lim])"
      have "taken \<le> ?fr" "taken < min ?fc remaining \<Longrightarrow> taken = ?fr"
        using claimed_all [OF ixs(4,5)] ixs(2,7) by blast+
      then show ?thesis using ixs(3) unfolding group_supply_def by linarith
    qed
    have step: "plan_groups B e (g # gs) remaining plan out =
        plan_groups B e gs (remaining - taken) (if taken > 0 then plan @ [(g, bm', taken)] else plan) out1"
      using 3 Cons.prems(1) [of g] cb by simp
    obtain grants out' where gr: "plan_groups B e gs (remaining - taken) (if taken > 0 then plan @ [(g, bm', taken)] else plan) out1 =
        Inr (remaining - taken - sum_list (map (group_supply e bits) gs),
          (if taken > 0 then plan @ [(g, bm', taken)] else plan) @ map (plan_entry bits) grants, out')"
      "run_blocks out' = run_blocks out1 @ concat (map (grant_blocks (e_sb e)) grants)"
      "length (concat (map snd grants)) = min (remaining - taken) (sum_list (map (group_supply e bits) gs))"
      "distinct (map fst grants)" "fst ` set grants \<subseteq> set gs" "\<forall>gr \<in> set grants. grant_ok e bits gr"
      using IH by blast
    let ?grants = "(if taken > 0 then [(g, ixs)] else []) @ grants"
    have ok: "grant_ok e bits (g, ixs)" if "taken > 0"
      using that ixs by (auto simp: grant_ok_def)
    have "plan_groups B e (g # gs) remaining plan out =
        Inr (remaining - sum_list (map (group_supply e bits) (g # gs)), plan @ map (plan_entry bits) ?grants, out')"
      using step gr(1) taken ixs(1,2) by (auto simp: plan_entry_def)
    moreover have "run_blocks out' = run_blocks out @ concat (map (grant_blocks (e_sb e)) ?grants)"
      using gr(2) ixs(2,6) by (auto simp: grant_blocks_def)
    moreover have "length (concat (map snd ?grants)) = min remaining (sum_list (map (group_supply e bits) (g # gs)))"
    proof -
      have "length (concat (map snd ?grants)) = taken + length (concat (map snd grants))" using ixs(2) by auto
      moreover have "sum_list (map (group_supply e bits) (g # gs)) = group_supply e bits g + sum_list (map (group_supply e bits) gs)" by simp
      ultimately show ?thesis using gr(3) taken by linarith
    qed
    moreover have "distinct (map fst ?grants)" "fst ` set ?grants \<subseteq> set (g # gs)"
      using gr(4,5) Cons.prems(3) by auto
    moreover have "\<forall>gr \<in> set ?grants. grant_ok e bits gr" using gr(6) ok by auto
    ultimately show ?thesis by blast
  qed
qed

end
