(* ===== verification/Ext4_Codec.thy ===== *)
theory Ext4_Codec
  imports Ext4_Alloc
begin

unbundle bit_operations_syntax

text \<open>
  Writing a group descriptor or the superblock and parsing it again: the fields the writers patch read back as the
  values in memory, every other field as before. A descriptor of 32 bytes has room for the lower 16 bits of the bitmap
  checksums only.
\<close>

section \<open>Fields of a patched record\<close>

lemma u16le_put_same [bytes_simps]: "o' + 2 \<le> length d \<Longrightarrow> u16le (put d o' (le_bytes 2 v)) o' = v mod 2 ^ 16"
  by (simp add: u16le_def)

lemma u32le_put_same [bytes_simps]: "o' + 4 \<le> length d \<Longrightarrow> u32le (put d o' (le_bytes 4 v)) o' = v mod 2 ^ 32"
  by (simp add: u32le_def)

lemma u16le_put_other [bytes_simps]:
  "i + length b \<le> length d \<Longrightarrow> o' + 2 \<le> i \<or> i + length b \<le> o' \<Longrightarrow> u16le (put d i b) o' = u16le d o'"
  by (auto simp: u16le_def slice_put_before slice_put_after)

lemma u32le_put_other [bytes_simps]:
  "i + length b \<le> length d \<Longrightarrow> o' + 4 \<le> i \<or> i + length b \<le> o' \<Longrightarrow> u32le (put d i b) o' = u32le d o'"
  by (auto simp: u32le_def slice_put_before slice_put_after)

lemmas field_simps_le = u16le_put_same u32le_put_same u16le_put_other u32le_put_other

lemma halves: "v < 2 ^ 32 \<Longrightarrow> v mod 2 ^ 16 + v div 2 ^ 16 mod 2 ^ 16 * 2 ^ 16 = (v :: nat)"
proof -
  assume "v < 2 ^ 32"
  then have "v div 2 ^ 16 < 2 ^ 16" by (simp add: div_less_iff_less_mult)
  then show ?thesis by (simp add: mult.commute)
qed

lemma words: "v < 2 ^ 64 \<Longrightarrow> v mod 2 ^ 32 + v div 2 ^ 32 mod 2 ^ 32 * 2 ^ 32 = (v :: nat)"
proof -
  assume "v < 2 ^ 64"
  then have "v div 2 ^ 32 < 2 ^ 32" by (simp add: div_less_iff_less_mult)
  then show ?thesis by (simp add: mult.commute)
qed

section \<open>Group descriptors\<close>

text \<open>The widths of the fields, which every descriptor in memory keeps, and the part of a descriptor that \<open>ds\<close> bytes hold.\<close>

definition count_width :: "nat \<Rightarrow> nat" where
  "count_width ds = (if 64 \<le> ds then 2 ^ 32 else 2 ^ 16)"

definition desc_typed :: "nat \<Rightarrow> group_desc \<Rightarrow> bool" where
  "desc_typed ds g \<longleftrightarrow> bg_free_blocks_count g < count_width ds \<and> bg_free_inodes_count g < count_width ds \<and> bg_used_dirs_count g < count_width ds
     \<and> bg_flags g < 2 ^ 16 \<and> bg_itable_unused g < count_width ds \<and> bg_checksum g < 2 ^ 16
     \<and> (64 \<le> ds \<longrightarrow> bg_block_bitmap_csum g < 2 ^ 32 \<and> bg_inode_bitmap_csum g < 2 ^ 32)"

definition csum_held :: "nat \<Rightarrow> nat \<Rightarrow> nat" where
  "csum_held ds c = (if 64 \<le> ds then c else c mod 2 ^ 16)"

definition desc_stored :: "nat \<Rightarrow> group_desc \<Rightarrow> group_desc" where
  "desc_stored ds g = g\<lparr>bg_block_bitmap_csum := csum_held ds (bg_block_bitmap_csum g), bg_inode_bitmap_csum := csum_held ds (bg_inode_bitmap_csum g)\<rparr>"

lemma desc_stored_wide: "64 \<le> ds \<Longrightarrow> desc_stored ds g = g"
  by (simp add: desc_stored_def csum_held_def)

lemma desc_stored_fields [simp]:
  "bg_block_bitmap (desc_stored ds g) = bg_block_bitmap g" "bg_free_blocks_count (desc_stored ds g) = bg_free_blocks_count g"
  "bg_checksum (desc_stored ds g) = bg_checksum g" "bg_flags (desc_stored ds g) = bg_flags g"
  "bg_block_bitmap_csum (desc_stored ds g) = csum_held ds (bg_block_bitmap_csum g)"
  "(desc_stored ds g)\<lparr>bg_checksum := c\<rparr> = desc_stored ds (g\<lparr>bg_checksum := c\<rparr>)"
  by (simp_all add: desc_stored_def)

lemma desc_typed_stored: "desc_typed ds (desc_stored ds g) \<longleftrightarrow> desc_typed ds g"
  by (simp add: desc_typed_def desc_stored_def csum_held_def)

definition desc_place :: "group_desc \<Rightarrow> nat \<times> nat \<times> nat" where
  "desc_place g = (bg_block_bitmap g, bg_inode_bitmap g, bg_inode_table g)"

lemma desc_place_stored [simp]: "desc_place (desc_stored ds g) = desc_place g"
  by (simp add: desc_place_def desc_stored_def)

lemma pair16_bound: "u16le d i + u16le d j * 2 ^ 16 < 2 ^ 32"
  using u16le_bound [of d i] u16le_bound [of d j] by simp

lemma u16le_small: "u16le d i < 2 ^ 32"
  using u16le_bound [of d i] by simp

lemma parse_typed: "desc_typed (length d) (group_desc_parse d)"
  using u16le_bound [of d] u16le_small [of d] pair16_bound [of d]
  by (cases "64 \<le> length d") (simp_all add: desc_typed_def count_width_def group_desc_parse_def Let_def)

lemma put16s_simps [simp]: "put16s [] d = d" "put16s ((i, v) # fs) d = put16s fs (put d i (le_bytes 2 v))"
  by (simp_all add: put16s_def)

lemma length_put16s: "\<forall>f \<in> set fs. fst f + 2 \<le> length d \<Longrightarrow> length (put16s fs d) = length d"
  by (induction fs arbitrary: d) auto

lemma slice_put16s:
  "\<forall>f \<in> set fs. fst f + 2 \<le> length d \<and> (i + n \<le> fst f \<or> fst f + 2 \<le> i) \<Longrightarrow> slice (put16s fs d) i n = slice d i n"
  by (induction fs arbitrary: d) (auto simp: slice_put_before slice_put_after)

lemma u16le_put16s:
  assumes "sorted_wrt (\<lambda>a b. fst a + 2 \<le> fst b) fs" "\<forall>f \<in> set fs. fst f + 2 \<le> length d" "(i, v) \<in> set fs"
  shows "u16le (put16s fs d) i = v mod 2 ^ 16"
  using assms
proof (induction fs arbitrary: d)
  case (Cons f fs)
  obtain j w where f: "f = (j, w)" by fastforce
  show ?case
  proof (cases "f = (i, v)")
    case True
    have "slice (put16s fs (put d i (le_bytes 2 v))) i 2 = slice (put d i (le_bytes 2 v)) i 2"
      using Cons.prems True by (intro slice_put16s) auto
    then show ?thesis using True Cons.prems by (simp add: u16le_def)
  next
    case False
    then show ?thesis using Cons f by auto
  qed
qed simp

lemma desc_fields_fit: "(if wide then 64 else 32) \<le> n \<Longrightarrow> \<forall>f \<in> set (desc_fields wide g). fst f + 2 \<le> n"
  by (cases wide) (auto simp: desc_fields_def)

lemma desc_fields_sorted: "sorted_wrt (\<lambda>a b. fst a + 2 \<le> fst b) (desc_fields wide g)"
  by (cases wide) (simp_all add: desc_fields_def)

lemma length_patch_group_desc: "32 \<le> length d \<Longrightarrow> length (patch_group_desc d g) = length d"
  unfolding patch_group_desc_def by (rule length_put16s, rule desc_fields_fit) simp

lemma parse_patch_narrow:
  assumes w: "32 \<le> length d" "length d < 64" and place: "desc_place (group_desc_parse d) = desc_place g"
    and sum: "bg_checksum (group_desc_parse d) = bg_checksum g" and typed: "desc_typed (length d) g"
  shows "group_desc_parse (patch_group_desc d g) = desc_stored (length d) g"
proof -
  let ?d = "patch_group_desc d g"
  have w': "length ?d < 64" using w length_patch_group_desc [of d g] by simp
  have field: "u16le ?d i = v mod 2 ^ 16" if "(i, v) \<in> set (desc_fields False g)" for i v
    using u16le_put16s [of "desc_fields False g" d i v] desc_fields_sorted desc_fields_fit [of False "length d" g] w that
    by (simp add: patch_group_desc_def)
  have keep: "slice ?d i n = slice d i n" if "\<forall>f \<in> set (desc_fields False g). i + n \<le> fst f \<or> fst f + 2 \<le> i" for i n
    using w that desc_fields_fit [of False "length d" g] by (simp add: patch_group_desc_def slice_put16s)
  have old: "u32le ?d 0 = u32le d 0" "u32le ?d 4 = u32le d 4" "u32le ?d 8 = u32le d 8" "u16le ?d 0x1E = u16le d 0x1E"
    unfolding u32le_def u16le_def by (rule arg_cong [where f = le_val], rule keep, simp add: desc_fields_def)+
  have new: "u16le ?d 0x0C = bg_free_blocks_count g mod 2 ^ 16" "u16le ?d 0x0E = bg_free_inodes_count g mod 2 ^ 16"
    "u16le ?d 0x10 = bg_used_dirs_count g mod 2 ^ 16" "u16le ?d 0x12 = bg_flags g mod 2 ^ 16"
    "u16le ?d 0x18 = bg_block_bitmap_csum g mod 2 ^ 16" "u16le ?d 0x1A = bg_inode_bitmap_csum g mod 2 ^ 16"
    "u16le ?d 0x1C = bg_itable_unused g mod 2 ^ 16"
    by (rule field, simp add: desc_fields_def)+
  have "u32le d 0 = bg_block_bitmap g" "u32le d 4 = bg_inode_bitmap g" "u32le d 8 = bg_inode_table g" "u16le d 0x1E = bg_checksum g"
    using w place sum by (simp_all add: desc_place_def group_desc_parse_def Let_def)
  then show ?thesis using typed w' w
    unfolding group_desc_parse_def Let_def old new desc_typed_def
    by (intro group_desc.equality) (simp_all add: desc_stored_def csum_held_def count_width_def)
qed

lemma parse_patch_wide:
  assumes w: "64 \<le> length d" and place: "desc_place (group_desc_parse d) = desc_place g"
    and sum: "bg_checksum (group_desc_parse d) = bg_checksum g" and typed: "desc_typed (length d) g"
  shows "group_desc_parse (patch_group_desc d g) = g"
proof -
  let ?d = "patch_group_desc d g"
  have w': "64 \<le> length ?d" using w length_patch_group_desc [of d g] by simp
  have field: "u16le ?d i = v mod 2 ^ 16" if "(i, v) \<in> set (desc_fields True g)" for i v
    using u16le_put16s [of "desc_fields True g" d i v] desc_fields_sorted desc_fields_fit [of True "length d" g] w that
    by (simp add: patch_group_desc_def)
  have keep: "slice ?d i n = slice d i n" if "\<forall>f \<in> set (desc_fields True g). i + n \<le> fst f \<or> fst f + 2 \<le> i" for i n
    using w that unfolding patch_group_desc_def by (intro slice_put16s) (use desc_fields_fit [of True "length d" g] in auto)
  have old: "u32le ?d 0 = u32le d 0" "u32le ?d 4 = u32le d 4" "u32le ?d 8 = u32le d 8" "u16le ?d 0x1E = u16le d 0x1E"
    "u32le ?d 0x20 = u32le d 0x20" "u32le ?d 0x24 = u32le d 0x24" "u32le ?d 0x28 = u32le d 0x28"
    unfolding u32le_def u16le_def by (rule arg_cong [where f = le_val], rule keep, simp add: desc_fields_def)+
  have new: "u16le ?d 0x0C = bg_free_blocks_count g mod 2 ^ 16" "u16le ?d 0x0E = bg_free_inodes_count g mod 2 ^ 16"
    "u16le ?d 0x10 = bg_used_dirs_count g mod 2 ^ 16" "u16le ?d 0x12 = bg_flags g mod 2 ^ 16"
    "u16le ?d 0x18 = bg_block_bitmap_csum g mod 2 ^ 16" "u16le ?d 0x1A = bg_inode_bitmap_csum g mod 2 ^ 16"
    "u16le ?d 0x1C = bg_itable_unused g mod 2 ^ 16"
    "u16le ?d 0x2C = bg_free_blocks_count g div 2 ^ 16 mod 2 ^ 16" "u16le ?d 0x2E = bg_free_inodes_count g div 2 ^ 16 mod 2 ^ 16"
    "u16le ?d 0x30 = bg_used_dirs_count g div 2 ^ 16 mod 2 ^ 16" "u16le ?d 0x32 = bg_itable_unused g div 2 ^ 16 mod 2 ^ 16"
    "u16le ?d 0x38 = bg_block_bitmap_csum g div 2 ^ 16 mod 2 ^ 16" "u16le ?d 0x3A = bg_inode_bitmap_csum g div 2 ^ 16 mod 2 ^ 16"
    by (rule field, simp add: desc_fields_def)+
  have "u32le d 0 + u32le d 0x20 * 2 ^ 32 = bg_block_bitmap g" "u32le d 4 + u32le d 0x24 * 2 ^ 32 = bg_inode_bitmap g"
    "u32le d 8 + u32le d 0x28 * 2 ^ 32 = bg_inode_table g" "u16le d 0x1E = bg_checksum g"
    using w place sum by (simp_all add: desc_place_def group_desc_parse_def Let_def)
  then show ?thesis using typed w'
    unfolding group_desc_parse_def Let_def old new desc_typed_def
    by (intro group_desc.equality) (use w in \<open>simp_all add: count_width_def halves [simplified]\<close>)
qed

lemma parse_patch:
  assumes "32 \<le> length d" "desc_place (group_desc_parse d) = desc_place g" "bg_checksum (group_desc_parse d) = bg_checksum g" "desc_typed (length d) g"
  shows "group_desc_parse (patch_group_desc d g) = desc_stored (length d) g"
  using assms parse_patch_wide [of d g] parse_patch_narrow [of d g] desc_stored_wide [of "length d" g] by (cases "64 \<le> length d") auto

lemma parse_put_checksum:
  assumes "32 \<le> length d" "c < 2 ^ 16"
  shows "group_desc_parse (put d 0x1E (le_bytes 2 c)) = (group_desc_parse d)\<lparr>bg_checksum := c\<rparr>"
  using assms by (simp add: group_desc_parse_def Let_def field_simps_le)

lemma seed_group_desc_put:
  "32 \<le> length d \<Longrightarrow> seed_group_desc H sd g (put d 0x1E (le_bytes 2 c)) = seed_group_desc H sd g d"
  by (simp add: seed_group_desc_def BG_CHECKSUM_OFFSET_def Let_def) (simp add: put_def)

lemma seed_group_desc_bound: "seed_group_desc H sd g d = Some c \<Longrightarrow> c < 2 ^ 16"
  by (auto simp: seed_group_desc_def Let_def split: if_splits)

lemma seed_bitmap_bound: "seed_bitmap H sd b = Some c \<Longrightarrow> c < 2 ^ 32"
  by (auto simp: seed_bitmap_def crc32c_seed_def not32_def u32_max_def split: if_splits)

section \<open>The superblock\<close>

text \<open>The superblock in memory may differ from the one on disk in its two counters.\<close>

definition with_counts :: "ext4_sb \<Rightarrow> nat \<Rightarrow> nat \<Rightarrow> ext4_sb" where
  "with_counts sb fb fi = sb\<lparr>s_free_blocks_count := fb, s_free_inodes_count := fi\<rparr>"

definition count_fits :: "ext4_sb \<Rightarrow> bool" where
  "count_fits sb \<longleftrightarrow> s_free_blocks_count sb < (if is_64bit sb then 2 ^ 64 else 2 ^ 32) \<and> s_free_inodes_count sb < 2 ^ 32"

lemma slice_put_apart:
  "i + length ys \<le> length xs \<Longrightarrow> j + n \<le> i \<or> i + length ys \<le> j \<Longrightarrow> slice (put xs i ys) j n = slice xs j n"
  by (auto simp: slice_put_before slice_put_after)

lemma length_patch_superblock: "length b = 1024 \<Longrightarrow> length (patch_superblock H sd sb b) = 1024"
  by (simp add: patch_superblock_def Let_def SB_FREE_BLOCKS_COUNT_HI_def split: option.split)

lemma sb_parse_cong:
  assumes "\<And>o' n. o' + n \<le> 12 \<or> 20 \<le> o' \<and> o' + n \<le> 0x158 \<or> 0x15C \<le> o' \<and> o' + n \<le> 0x3FC \<Longrightarrow> slice b' o' n = slice b o' n"
    and "ext4_sb_parse b = Inr sb"
  shows "ext4_sb_parse b' = Inr (with_counts sb (u32le b' 12 + (if is_64bit sb then u32le b' SB_FREE_BLOCKS_COUNT_HI else 0) * 2 ^ 32) (u32le b' 16))"
proof -
  have f: "u16le b' 56 = u16le b 56" "u32le b' 24 = u32le b 24" "u32le b' 76 = u32le b 76" "u16le b' 88 = u16le b 88"
    "u32le b' 92 = u32le b 92" "u32le b' 96 = u32le b 96" "u32le b' 100 = u32le b 100" "u16le b' 254 = u16le b 254"
    "u32le b' 40 = u32le b 40" "u32le b' 32 = u32le b 32" "u32le b' SB_BLOCKS_COUNT_HI = u32le b SB_BLOCKS_COUNT_HI"
    "u32le b' SB_R_BLOCKS_COUNT_HI = u32le b SB_R_BLOCKS_COUNT_HI" "u32le b' 0 = u32le b 0" "u32le b' 4 = u32le b 4"
    "u32le b' 8 = u32le b 8" "u32le b' 20 = u32le b 20" "slice b' 104 16 = slice b 104 16" "u32le b' 36 = u32le b 36"
    "u32le b' 84 = u32le b 84" "u32le b' 0x270 = u32le b 0x270" "u16le b' SB_MIN_EXTRA_ISIZE = u16le b SB_MIN_EXTRA_ISIZE"
    "u16le b' 0x3A = u16le b 0x3A" "u16le b' 206 = u16le b 206"
    unfolding u32le_def u16le_def SB_BLOCKS_COUNT_HI_def SB_R_BLOCKS_COUNT_HI_def SB_MIN_EXTRA_ISIZE_def
    by (simp_all add: assms(1))
  show ?thesis using assms(2) unfolding ext4_sb_parse_def Let_def f
    by (auto simp: with_counts_def is_64bit_def split: if_splits)
qed

lemma parse_patch_superblock:
  assumes "length b = 1024" "ext4_sb_parse b = Inr sb0" "sb = with_counts sb0 fb fi" "count_fits sb"
  shows "ext4_sb_parse (patch_superblock H sd sb b) = Inr sb"
proof -
  let ?b = "patch_superblock H sd sb b"
  have bit: "is_64bit sb = is_64bit sb0" using assms(3) by (simp add: is_64bit_def with_counts_def)
  have keep: "slice ?b o' n = slice b o' n"
    if "o' + n \<le> 12 \<or> 20 \<le> o' \<and> o' + n \<le> 0x158 \<or> 0x15C \<le> o' \<and> o' + n \<le> 0x3FC" for o' n
    using that assms(1)
    by (auto simp: patch_superblock_def Let_def SB_FREE_BLOCKS_COUNT_HI_def slice_put_apart split: option.split)
  have cnt: "u32le ?b 12 = fb mod 2 ^ 32" "u32le ?b 16 = fi mod 2 ^ 32" "is_64bit sb0 \<Longrightarrow> u32le ?b SB_FREE_BLOCKS_COUNT_HI = fb div 2 ^ 32 mod 2 ^ 32"
    using assms(1,3) bit
    by (simp_all add: patch_superblock_def Let_def SB_FREE_BLOCKS_COUNT_HI_def field_simps_le with_counts_def split: option.split)
  have fits: "fi < 2 ^ 32" "is_64bit sb0 \<Longrightarrow> fb < 2 ^ 64" "\<not> is_64bit sb0 \<Longrightarrow> fb < 2 ^ 32"
    using assms(3,4) bit by (auto simp: count_fits_def with_counts_def)
  have "ext4_sb_parse ?b = Inr (with_counts sb0 (u32le ?b 12 + (if is_64bit sb0 then u32le ?b SB_FREE_BLOCKS_COUNT_HI else 0) * 2 ^ 32) (u32le ?b 16))"
    using keep assms(2) by (rule sb_parse_cong)
  then show ?thesis using cnt fits assms(3) words [of fb] by (cases "is_64bit sb0") auto
qed

lemma superblock_checksum:
  assumes "length b = 1024" "seed_superblock H sd (patch_superblock H sd sb b) = Some c"
  shows "u32le (patch_superblock H sd sb b) SB_CHECKSUM_OFFSET = c"
proof -
  define b1 where "b1 = (let b = put b 12 (le_bytes 4 (s_free_blocks_count sb)); b = put b 16 (le_bytes 4 (s_free_inodes_count sb))
      in if is_64bit sb then put b SB_FREE_BLOCKS_COUNT_HI (le_bytes 4 (s_free_blocks_count sb div 2 ^ 32)) else b)"
  have len: "length b1 = 1024" using assms(1) by (simp add: b1_def Let_def SB_FREE_BLOCKS_COUNT_HI_def)
  have p: "patch_superblock H sd sb b = (case seed_superblock H sd b1 of None \<Rightarrow> b1 | Some c \<Rightarrow> put b1 0x3FC (le_bytes 4 c))"
    unfolding patch_superblock_def b1_def Let_def ..
  have same: "seed_superblock H sd (put b1 0x3FC x) = seed_superblock H sd b1" if "length x = 4" for x
    using that len by (simp add: seed_superblock_def SB_CHECKSUM_OFFSET_def put_def)
  show ?thesis
  proof (cases "seed_superblock H sd b1")
    case None
    then show ?thesis using assms(2) p by simp
  next
    case (Some c1)
    then have "c = c1" using assms(2) p same by simp
    moreover have "c1 < 2 ^ 32" using Some by (auto simp: seed_superblock_def crc32c_seed_def not32_def u32_max_def split: if_splits)
    ultimately show ?thesis using p Some len by (simp add: field_simps_le SB_CHECKSUM_OFFSET_def)
  qed
qed

end
