(* ===== verification/Ext4_Store.thy ===== *)
theory Ext4_Store
  imports Ext4_Plan Ext4_Codec
begin

unbundle bit_operations_syntax

text \<open>
  The ext4 allocator over a byte store. The consistency that the module documentation of \<open>alloc.rs\<close> names, bitmap,
  group counter, superblock counter, bitmap checksum and descriptor checksum, is an invariant on the bytes of the
  device and the descriptors in memory; every committed group keeps it. The lemmas are proved in the locale
  \<open>byte_store\<close> and used for a partition of a memory device.
\<close>

section \<open>Layout\<close>

definition free_count :: "ext4_sb \<Rightarrow> nat \<Rightarrow> bytes \<Rightarrow> nat" where
  "free_count sb g bm = length (filter (\<lambda>i. \<not> test_bit bm i) [0..<blocks_in_group sb g])"

definition bitmap_at :: "('d \<Rightarrow> bytes) \<Rightarrow> 'd ext4 \<Rightarrow> nat \<Rightarrow> bytes" where
  "bitmap_at content e g =
     slice (content (e_device e)) (bg_block_bitmap (e_groups e ! g) * s_block_size (e_sb e)) (s_block_size (e_sb e))"

definition desc_at :: "('d \<Rightarrow> bytes) \<Rightarrow> 'd ext4 \<Rightarrow> nat \<Rightarrow> bytes" where
  "desc_at content e g =
     slice (content (e_device e)) (group_desc_offset (e_sb e) + g * group_desc_size (e_sb e)) (group_desc_size (e_sb e))"

text \<open>The block bitmap of a group as the allocator sees it.\<close>

definition block_bits :: "('d \<Rightarrow> bytes) \<Rightarrow> 'd ext4 \<Rightarrow> nat \<Rightarrow> bytes" where
  "block_bits content e g =
     (if block_bitmap_uninit (e_groups e ! g) then materialize_bitmap e g BlockBitmap (s_block_size (e_sb e))
      else bitmap_at content e g)"

text \<open>Where the metadata lies: inside the device, the superblock before the descriptors, the descriptors before
  the bitmaps, no two bitmaps in one block. The counts fit their fields: the free blocks of a group its counter, which is
  16 bits wide in a descriptor of 32 bytes, and the blocks of the filesystem the superblock's counter.\<close>

definition ext4_wf :: "('d \<Rightarrow> bytes) \<Rightarrow> 'd ext4 \<Rightarrow> bool" where
  "ext4_wf content e \<longleftrightarrow> (let sb = e_sb e; gs = e_groups e; bs = s_block_size sb in
     s_blocks_count sb * bs \<le> length (content (e_device e)) \<and> 2048 \<le> group_desc_offset sb
     \<and> 0 < s_blocks_per_group sb \<and> s_blocks_per_group sb < count_width (group_desc_size sb) \<and> s_blocks_per_group sb \<le> 8 * bs \<and> 0 < bs
     \<and> s_first_data_block sb \<le> s_blocks_count sb \<and> s_blocks_count sb < (if is_64bit sb then 2 ^ 64 else 2 ^ 32) \<and> length gs = group_count sb \<and> 0 < group_count sb
     \<and> distinct (map bg_block_bitmap gs)
     \<and> (\<forall>gd \<in> set gs. s_first_data_block sb < bg_block_bitmap gd \<and> bg_block_bitmap gd < s_blocks_count sb
          \<and> group_desc_offset sb + length gs * group_desc_size sb \<le> bg_block_bitmap gd * bs))"

lemmas ext4_wf_unfold = ext4_wf_def Let_def

lemma group_desc_size_ge: "32 \<le> group_desc_size sb"
  by (simp add: group_desc_size_def)

lemma wf_widths:
  assumes "ext4_wf content e"
  shows "s_blocks_count (e_sb e) < 2 ^ 64" "s_blocks_per_group (e_sb e) < 2 ^ 32"
proof -
  have "s_blocks_count (e_sb e) < (if is_64bit (e_sb e) then 2 ^ 64 else 2 ^ 32)" "s_blocks_per_group (e_sb e) < count_width (group_desc_size (e_sb e))"
    using assms unfolding ext4_wf_def Let_def by blast+
  then show "s_blocks_count (e_sb e) < 2 ^ 64" "s_blocks_per_group (e_sb e) < 2 ^ 32" by (simp_all add: count_width_def split: if_splits)
qed

text \<open>One group: its counter is the number of free bits, its descriptor on the device is the one in memory as far as the
  descriptor's size holds it, and both checksums are right, the bitmap's to the width the descriptor keeps.\<close>

definition group_consistent :: "hashes \<Rightarrow> ('d \<Rightarrow> bytes) \<Rightarrow> 'd ext4 \<Rightarrow> nat \<Rightarrow> bool" where
  "group_consistent H content e g \<longleftrightarrow>
     bg_free_blocks_count (e_groups e ! g) = free_count (e_sb e) g (block_bits content e g)
     \<and> group_desc_parse (desc_at content e g) = desc_stored (group_desc_size (e_sb e)) (e_groups e ! g)
     \<and> (\<forall>c. seed_group_desc H (seed_of H (e_sb e)) g (desc_at content e g) = Some c \<longrightarrow> bg_checksum (e_groups e ! g) = c)
     \<and> (\<not> block_bitmap_uninit (e_groups e ! g) \<longrightarrow>
         (\<forall>c. seed_bitmap H (seed_of H (e_sb e)) (take (div_ceil (s_clusters_per_group (e_sb e)) 8) (bitmap_at content e g)) = Some c
            \<longrightarrow> csum_held (group_desc_size (e_sb e)) (bg_block_bitmap_csum (e_groups e ! g)) = csum_held (group_desc_size (e_sb e)) c))"

text \<open>The invariant during a commit: the counters of the superblock on disk may lag behind.\<close>

definition commit_inv :: "hashes \<Rightarrow> ('d \<Rightarrow> bytes) \<Rightarrow> ('d \<Rightarrow> bool) \<Rightarrow> 'd ext4 \<Rightarrow> bool" where
  "commit_inv H content ok e \<longleftrightarrow> ok (e_device e) \<and> ext4_wf content e
     \<and> (\<forall>g < length (e_groups e). group_consistent H content e g)
     \<and> (\<exists>sb0 fb fi. ext4_sb_parse (slice (content (e_device e)) 1024 1024) = Inr sb0 \<and> e_sb e = with_counts sb0 fb fi)"

definition ext4_consistent :: "hashes \<Rightarrow> ('d \<Rightarrow> bytes) \<Rightarrow> ('d \<Rightarrow> bool) \<Rightarrow> 'd ext4 \<Rightarrow> bool" where
  "ext4_consistent H content ok e \<longleftrightarrow> ok (e_device e) \<and> ext4_wf content e
     \<and> (\<forall>g < length (e_groups e). group_consistent H content e g)
     \<and> ext4_sb_parse (slice (content (e_device e)) 1024 1024) = Inr (e_sb e)
     \<and> (\<forall>c. seed_superblock H (seed_of H (e_sb e)) (slice (content (e_device e)) 1024 1024) = Some c
          \<longrightarrow> u32le (slice (content (e_device e)) 1024 1024) SB_CHECKSUM_OFFSET = c)
     \<and> s_free_blocks_count (e_sb e) = sum_list (map bg_free_blocks_count (e_groups e))"

section \<open>What the counters do not touch\<close>

lemma with_counts_geometry [simp]:
  "s_inodes_count (with_counts sb a b) = s_inodes_count sb" "s_blocks_count (with_counts sb a b) = s_blocks_count sb"
  "s_first_data_block (with_counts sb a b) = s_first_data_block sb" "s_block_size (with_counts sb a b) = s_block_size sb"
  "s_blocks_per_group (with_counts sb a b) = s_blocks_per_group sb" "s_inodes_per_group (with_counts sb a b) = s_inodes_per_group sb"
  "s_inode_size (with_counts sb a b) = s_inode_size sb" "s_feature_incompat (with_counts sb a b) = s_feature_incompat sb"
  "s_feature_ro_compat (with_counts sb a b) = s_feature_ro_compat sb" "s_desc_size (with_counts sb a b) = s_desc_size sb"
  "s_uuid (with_counts sb a b) = s_uuid sb" "s_clusters_per_group (with_counts sb a b) = s_clusters_per_group sb"
  "s_checksum_seed (with_counts sb a b) = s_checksum_seed sb" "s_reserved_gdt_blocks (with_counts sb a b) = s_reserved_gdt_blocks sb"
  "s_free_blocks_count (with_counts sb a b) = a" "s_free_inodes_count (with_counts sb a b) = b"
  "with_counts (with_counts sb a b) a' b' = with_counts sb a' b'"
  "with_counts sb (s_free_blocks_count sb) (s_free_inodes_count sb) = sb"
  by (simp_all add: with_counts_def)

lemma with_counts_derived [simp]:
  "is_64bit (with_counts sb a b) = is_64bit sb" "group_desc_size (with_counts sb a b) = group_desc_size sb"
  "group_desc_offset (with_counts sb a b) = group_desc_offset sb" "group_count (with_counts sb a b) = group_count sb"
  "blocks_in_group (with_counts sb a b) g = blocks_in_group sb g" "group_first_block (with_counts sb a b) g = group_first_block sb g"
  "group_has_super (with_counts sb a b) g = group_has_super sb g" "seed_of H (with_counts sb a b) = seed_of H sb"
  "free_count (with_counts sb a b) g bm = free_count sb g bm"
  "metadata_block_offset (with_counts sb a b) blk = metadata_block_offset sb blk"
  "mark_group (with_counts sb a b) fb lb = mark_group sb fb lb"
  by (simp_all add: is_64bit_def group_desc_size_def group_desc_offset_def group_count_def blocks_in_group_def group_first_block_def
      group_has_super_def seed_of_def has_metadata_csum_def free_count_def metadata_block_offset_def mark_group_def fun_eq_iff Let_def split: option.split)

lemma mark_group_place: "desc_place gd = desc_place gd' \<Longrightarrow> mark_group sb fb lb gd = mark_group sb fb lb gd'"
  by (simp add: mark_group_def desc_place_def fun_eq_iff Let_def)

lemma fold_mark_place:
  "map desc_place gs = map desc_place gs' \<Longrightarrow> fold (mark_group sb fb lb) gs bm = fold (mark_group sb fb lb) gs' bm"
proof (induction gs arbitrary: gs' bm)
  case (Cons gd gs)
  then obtain gd' hs where "gs' = gd' # hs" "desc_place gd = desc_place gd'" "map desc_place gs = map desc_place hs" by (cases gs') auto
  then show ?case using Cons.IH [of hs] mark_group_place [of gd gd'] by simp
qed simp

text \<open>The materialised bitmap depends on the geometry only.\<close>

lemma materialize_place:
  assumes "e_sb e' = with_counts (e_sb e) a b" "map desc_place (e_groups e') = map desc_place (e_groups e)"
  shows "materialize_bitmap e' g BlockBitmap n = materialize_bitmap e g BlockBitmap n"
proof -
  have "length (e_groups e') = length (e_groups e)" using assms(2) by (rule map_eq_imp_length_eq)
  then show ?thesis using assms fold_mark_place [OF assms(2)] by (simp add: materialize_bitmap_def Let_def)
qed

lemma length_mark [simp]: "length (mark i bm) = length bm"
  by (simp add: mark_def)

lemma length_fold_mark: "(\<And>x b. length (f x b) = length b) \<Longrightarrow> length (fold f xs bm) = length bm"
  by (induction xs arbitrary: bm) simp_all

lemma length_mark_group [simp]: "length (mark_group sb fb lb gd bm) = length bm"
  by (simp add: mark_group_def Let_def length_fold_mark)

lemma length_materialize: "length (materialize_bitmap e g which n) = n"
  by (cases which) (simp_all add: materialize_bitmap_def Let_def length_fold_mark)

lemma free_count_le: "free_count sb g bm \<le> blocks_in_group sb g"
  unfolding free_count_def by (rule order_trans [OF length_filter_le]) simp

lemma blocks_in_group_le: "blocks_in_group sb g \<le> s_blocks_per_group sb"
  by (simp add: blocks_in_group_def)

lemma group_in_range:
  assumes "ext4_wf content e" "g < length (e_groups e)"
  shows "s_first_data_block (e_sb e) + g * s_blocks_per_group (e_sb e) + blocks_in_group (e_sb e) g \<le> s_blocks_count (e_sb e)"
proof -
  let ?sb = "e_sb e"
  have w: "s_first_data_block ?sb \<le> s_blocks_count ?sb" "s_blocks_count ?sb < 2 ^ 64" "0 < s_blocks_per_group ?sb"
    "g < group_count ?sb" using assms wf_widths [OF assms(1)] by (auto simp: ext4_wf_unfold)
  have gc: "group_count ?sb = div_ceil (s_blocks_count ?sb - s_first_data_block ?sb) (s_blocks_per_group ?sb)"
    using w(1,2) by (simp add: group_count_def sub64_small)
  have "(g + 1) * s_blocks_per_group ?sb \<le> group_count ?sb * s_blocks_per_group ?sb" using w(4) by (intro mult_le_mono1) simp
  also have "\<dots> < s_blocks_count ?sb - s_first_data_block ?sb + s_blocks_per_group ?sb" unfolding gc using w(3) by (rule div_ceil_lower)
  finally have "s_first_data_block ?sb + g * s_blocks_per_group ?sb \<le> s_blocks_count ?sb" using w(1) by (simp add: algebra_simps)
  then show ?thesis using w(2) by (simp add: blocks_in_group_def sub64_small)
qed

section \<open>Bytes on the device\<close>

lemma slot_apart:
  fixes i j n :: nat
  assumes "i \<noteq> j"
  shows "base + i * n + n \<le> base + j * n \<or> base + j * n + n \<le> base + i * n"
proof (cases "i < j")
  case True
  then have "(i + 1) * n \<le> j * n" by (intro mult_le_mono1) simp
  then show ?thesis by simp
next
  case False
  then have "(j + 1) * n \<le> i * n" using assms by (intro mult_le_mono1) simp
  then show ?thesis by simp
qed

lemma slot_within: "g < m \<Longrightarrow> base + g * n + n \<le> base + m * (n :: nat)"
proof -
  assume "g < m"
  then have "(g + 1) * n \<le> m * n" by (intro mult_le_mono1) simp
  then show ?thesis by simp
qed

text \<open>The areas of a well-formed filesystem: one bitmap block and one descriptor slot.\<close>

lemma ext4_areas:
  assumes "ext4_wf content e" "g < length (e_groups e)"
  defines "sb \<equiv> e_sb e"
  defines "bo \<equiv> bg_block_bitmap (e_groups e ! g) * s_block_size sb" and "dp \<equiv> group_desc_offset sb + g * group_desc_size sb"
  shows "bo + s_block_size sb \<le> length (content (e_device e))" "dp + group_desc_size sb \<le> bo" "2048 \<le> dp"
    "\<And>g'. g' < length (e_groups e) \<Longrightarrow> dp + group_desc_size sb \<le> bg_block_bitmap (e_groups e ! g') * s_block_size sb"
    "\<And>g'. g' < length (e_groups e) \<Longrightarrow> g' \<noteq> g \<Longrightarrow>
       bo + s_block_size sb \<le> bg_block_bitmap (e_groups e ! g') * s_block_size sb \<or>
       bg_block_bitmap (e_groups e ! g') * s_block_size sb + s_block_size sb \<le> bo"
proof -
  have w: "s_blocks_count sb * s_block_size sb \<le> length (content (e_device e))" "2048 \<le> group_desc_offset sb" "distinct (map bg_block_bitmap (e_groups e))"
    "\<And>gd. gd \<in> set (e_groups e) \<Longrightarrow> bg_block_bitmap gd < s_blocks_count sb \<and>
       group_desc_offset sb + length (e_groups e) * group_desc_size sb \<le> bg_block_bitmap gd * s_block_size sb"
    using assms(1) by (auto simp: ext4_wf_unfold sb_def)
  have "(bg_block_bitmap (e_groups e ! g) + 1) * s_block_size sb \<le> s_blocks_count sb * s_block_size sb"
    using w(4) [of "e_groups e ! g"] assms(2) by (intro mult_le_mono1) simp
  then show "bo + s_block_size sb \<le> length (content (e_device e))" using w(1) by (simp add: bo_def)
  show dp: "dp + group_desc_size sb \<le> bg_block_bitmap (e_groups e ! g') * s_block_size sb" if "g' < length (e_groups e)" for g'
    using w(4) [of "e_groups e ! g'"] that slot_within [OF assms(2), of "group_desc_offset sb" "group_desc_size sb"] by (simp add: dp_def)
  show "dp + group_desc_size sb \<le> bo" using dp [OF assms(2)] by (simp add: bo_def)
  show "2048 \<le> dp" using w(2) by (simp add: dp_def)
  show "bo + s_block_size sb \<le> bg_block_bitmap (e_groups e ! g') * s_block_size sb \<or>
       bg_block_bitmap (e_groups e ! g') * s_block_size sb + s_block_size sb \<le> bo" if "g' < length (e_groups e)" "g' \<noteq> g" for g'
  proof -
    have "bg_block_bitmap (e_groups e ! g) \<noteq> bg_block_bitmap (e_groups e ! g')"
      using w(3) that assms(2) by (metis distinct_conv_nth length_map nth_map)
    then show ?thesis using slot_apart [of _ _ 0 "s_block_size sb"] by (simp add: bo_def)
  qed
qed

lemma and_nat_le: "(a AND b :: nat) \<le> a"
  using AND_upper1 [of "int a" "int b"] by (simp add: of_nat_and_eq [symmetric])

lemma flag_cleared: "bg_flags gd < 2 ^ 16 \<Longrightarrow> \<not> block_bitmap_uninit (clear_uninit BG_BLOCK_UNINIT gd) \<and> bg_flags (clear_uninit BG_BLOCK_UNINIT gd) < 2 ^ 16"
proof -
  assume "bg_flags gd < 2 ^ 16"
  moreover have "bg_flags gd AND (65535 XOR BG_BLOCK_UNINIT) \<le> bg_flags gd" by (rule and_nat_le)
  moreover have "(bg_flags gd AND (65535 XOR 2)) AND 2 = 0"
    by (simp add: and.assoc)
  ultimately show ?thesis by (simp add: clear_uninit_def block_bitmap_uninit_def BG_BLOCK_UNINIT_def)
qed

section \<open>Committing one group\<close>

definition bitmap_signed :: "hashes \<Rightarrow> csum_seed \<Rightarrow> ext4_sb \<Rightarrow> bytes \<Rightarrow> group_desc \<Rightarrow> group_desc" where
  "bitmap_signed H sd sb bm gd =
     (case seed_bitmap H sd (take (div_ceil (s_clusters_per_group sb) 8) bm) of None \<Rightarrow> gd | Some c \<Rightarrow> gd\<lparr>bg_block_bitmap_csum := c\<rparr>)"

definition desc_signed :: "hashes \<Rightarrow> csum_seed \<Rightarrow> nat \<Rightarrow> bytes \<Rightarrow> group_desc \<Rightarrow> group_desc" where
  "desc_signed H sd g d gd = (case seed_group_desc H sd g d of None \<Rightarrow> gd | Some c \<Rightarrow> gd\<lparr>bg_checksum := c\<rparr>)"

definition desc_bytes_signed :: "hashes \<Rightarrow> csum_seed \<Rightarrow> nat \<Rightarrow> bytes \<Rightarrow> bytes" where
  "desc_bytes_signed H sd g d = (case seed_group_desc H sd g d of None \<Rightarrow> d | Some c \<Rightarrow> put d 0x1E (le_bytes 2 c))"

lemma desc_typed_signed: "desc_typed ds gd \<Longrightarrow> desc_typed ds (bitmap_signed H sd sb bm gd)"
  by (auto simp: bitmap_signed_def desc_typed_def dest: seed_bitmap_bound split: option.split)

lemma bitmap_signed_fields [simp]:
  "desc_place (bitmap_signed H sd sb bm gd) = desc_place gd" "bg_checksum (bitmap_signed H sd sb bm gd) = bg_checksum gd"
  "bg_free_blocks_count (bitmap_signed H sd sb bm gd) = bg_free_blocks_count gd" "bg_flags (bitmap_signed H sd sb bm gd) = bg_flags gd"
  by (simp_all add: bitmap_signed_def desc_place_def split: option.split)

lemma desc_signed_fields [simp]:
  "desc_place (desc_signed H sd g d gd) = desc_place gd" "bg_free_blocks_count (desc_signed H sd g d gd) = bg_free_blocks_count gd"
  "bg_flags (desc_signed H sd g d gd) = bg_flags gd" "bg_block_bitmap_csum (desc_signed H sd g d gd) = bg_block_bitmap_csum gd"
  by (simp_all add: desc_signed_def desc_place_def split: option.split)

lemma parse_desc_bytes_signed:
  assumes "32 \<le> length d" "group_desc_parse d = desc_stored (length d) gd"
  shows "group_desc_parse (desc_bytes_signed H sd g d) = desc_stored (length d) (desc_signed H sd g d gd)" "length (desc_bytes_signed H sd g d) = length d"
    "seed_group_desc H sd g (desc_bytes_signed H sd g d) = Some c \<Longrightarrow> bg_checksum (desc_signed H sd g d gd) = c"
  using assms seed_group_desc_bound [of H sd g d]
  by (auto simp: desc_bytes_signed_def desc_signed_def parse_put_checksum seed_group_desc_put split: option.splits)

text \<open>The effect of a commit of one group: its bitmap block, its descriptor slot and its entry in memory.\<close>

definition group_replaced :: "('d \<Rightarrow> bytes) \<Rightarrow> 'd ext4 \<Rightarrow> 'd ext4 \<Rightarrow> nat \<Rightarrow> bytes \<Rightarrow> group_desc \<Rightarrow> bytes \<Rightarrow> bool" where
  "group_replaced content e e' g bm gd d \<longleftrightarrow> ext4_wf content e \<and> g < length (e_groups e)
     \<and> length bm = s_block_size (e_sb e) \<and> length d = group_desc_size (e_sb e)
     \<and> (\<exists>a b. e_sb e' = with_counts (e_sb e) a b) \<and> e_groups e' = (e_groups e)[g := gd] \<and> desc_place gd = desc_place (e_groups e ! g)
     \<and> content (e_device e') = put (put (content (e_device e)) (bg_block_bitmap (e_groups e ! g) * s_block_size (e_sb e)) bm)
          (group_desc_offset (e_sb e) + g * group_desc_size (e_sb e)) d"

lemma replaced_keeps:
  assumes r: "group_replaced content e e' g bm gd d"
  shows "length (content (e_device e')) = length (content (e_device e))"
    "map desc_place (e_groups e') = map desc_place (e_groups e)"
    "\<And>i. i < length (e_groups e) \<Longrightarrow> bg_block_bitmap (e_groups e' ! i) = bg_block_bitmap (e_groups e ! i)"
    "\<And>i n. i + n \<le> bg_block_bitmap (e_groups e ! g) * s_block_size (e_sb e) \<or>
       bg_block_bitmap (e_groups e ! g) * s_block_size (e_sb e) + s_block_size (e_sb e) \<le> i \<Longrightarrow>
       i + n \<le> group_desc_offset (e_sb e) + g * group_desc_size (e_sb e) \<or>
       group_desc_offset (e_sb e) + g * group_desc_size (e_sb e) + group_desc_size (e_sb e) \<le> i \<Longrightarrow>
       slice (content (e_device e')) i n = slice (content (e_device e)) i n"
proof -
  have wf: "ext4_wf content e" and g: "g < length (e_groups e)" using r by (auto simp: group_replaced_def)
  note ar = ext4_areas(1,2) [OF wf g]
  show "length (content (e_device e')) = length (content (e_device e))" using r ar by (simp add: group_replaced_def)
  show "slice (content (e_device e')) i n = slice (content (e_device e)) i n"
    if "i + n \<le> bg_block_bitmap (e_groups e ! g) * s_block_size (e_sb e) \<or>
         bg_block_bitmap (e_groups e ! g) * s_block_size (e_sb e) + s_block_size (e_sb e) \<le> i"
      "i + n \<le> group_desc_offset (e_sb e) + g * group_desc_size (e_sb e) \<or>
         group_desc_offset (e_sb e) + g * group_desc_size (e_sb e) + group_desc_size (e_sb e) \<le> i" for i n
    using r ar that by (simp add: group_replaced_def slice_put_apart)
  show m: "map desc_place (e_groups e') = map desc_place (e_groups e)"
    using r g by (simp add: group_replaced_def map_update) (metis list_update_id map_update)
  show "bg_block_bitmap (e_groups e' ! i) = bg_block_bitmap (e_groups e ! i)" if "i < length (e_groups e)" for i
    using arg_cong [OF m, of "\<lambda>xs. fst (xs ! i)"] map_eq_imp_length_eq [OF m] that by (simp add: desc_place_def)
qed

lemma replaced_wf:
  assumes r: "group_replaced content e e' g bm gd d"
  shows "ext4_wf content e'"
proof -
  note k = replaced_keeps [OF r]
  have l: "length (e_groups e') = length (e_groups e)" using r by (simp add: group_replaced_def)
  have bbs: "map bg_block_bitmap (e_groups e') = map bg_block_bitmap (e_groups e)" using k(3) l by (intro nth_equalityI) auto
  then have bb: "bg_block_bitmap ` set (e_groups e') = bg_block_bitmap ` set (e_groups e)" by (metis list.set_map)
  have all: "(\<forall>gd \<in> set (e_groups e'). P (bg_block_bitmap gd)) \<longleftrightarrow> (\<forall>gd \<in> set (e_groups e). P (bg_block_bitmap gd))" for P
    using bb by (metis (no_types, lifting) image_iff)
  have wf: "ext4_wf content e" using r by (simp add: group_replaced_def)
  obtain a b where sb: "e_sb e' = with_counts (e_sb e) a b" using r by (auto simp: group_replaced_def)
  show ?thesis using wf unfolding ext4_wf_def Let_def sb k(1) bbs l
      all [of "\<lambda>x. s_first_data_block (with_counts (e_sb e) a b) < x \<and> x < s_blocks_count (with_counts (e_sb e) a b) \<and>
        group_desc_offset (with_counts (e_sb e) a b) + length (e_groups e) * group_desc_size (with_counts (e_sb e) a b)
          \<le> x * s_block_size (with_counts (e_sb e) a b)"]
    by auto
qed

lemma replaced_own:
  assumes r: "group_replaced content e e' g bm gd d"
  shows "bitmap_at content e' g = bm" "desc_at content e' g = d" "e_groups e' ! g = gd"
proof -
  have wf: "ext4_wf content e" and g: "g < length (e_groups e)" using r by (auto simp: group_replaced_def)
  note ar = ext4_areas(1,2) [OF wf g]
  obtain a b where sb: "e_sb e' = with_counts (e_sb e) a b" using r by (auto simp: group_replaced_def)
  show "bitmap_at content e' g = bm"
    using r ar sb replaced_keeps(3) [OF r g] by (simp add: bitmap_at_def group_replaced_def slice_put_after)
  show "desc_at content e' g = d" "e_groups e' ! g = gd" using r ar sb g by (auto simp: desc_at_def group_replaced_def)
qed

lemma replaced_other:
  assumes r: "group_replaced content e e' g bm gd d" and i: "i < length (e_groups e)" "i \<noteq> g"
  shows "bitmap_at content e' i = bitmap_at content e i" "desc_at content e' i = desc_at content e i" "e_groups e' ! i = e_groups e ! i"
proof -
  have wf: "ext4_wf content e" and g: "g < length (e_groups e)" using r by (auto simp: group_replaced_def)
  note ar = ext4_areas [OF wf g]
  obtain a b where sb: "e_sb e' = with_counts (e_sb e) a b" using r by (auto simp: group_replaced_def)
  show "bitmap_at content e' i = bitmap_at content e i"
    using ar(4,5) [OF i(1)] i(2) by (auto simp: bitmap_at_def replaced_keeps(3) [OF r i(1)] sb intro!: replaced_keeps(4) [OF r])
  have "group_desc_offset (e_sb e) + i * group_desc_size (e_sb e) + group_desc_size (e_sb e) \<le> bg_block_bitmap (e_groups e ! g) * s_block_size (e_sb e)"
    using ext4_areas(4) [OF wf i(1) g] .
  then show "desc_at content e' i = desc_at content e i"
    using slot_apart [of i g "group_desc_offset (e_sb e)" "group_desc_size (e_sb e)"] i(2)
    by (auto simp: desc_at_def sb intro!: replaced_keeps(4) [OF r])
  show "e_groups e' ! i = e_groups e ! i" using r i(2) by (simp add: group_replaced_def)
qed

lemma replaced_bits:
  assumes r: "group_replaced content e e' g bm gd d" and un: "\<not> block_bitmap_uninit gd" and i: "i < length (e_groups e)"
  shows "block_bits content e' i = (if i = g then bm else block_bits content e i)"
proof -
  obtain a b where sb: "e_sb e' = with_counts (e_sb e) a b" using r by (auto simp: group_replaced_def)
  have "materialize_bitmap e' i BlockBitmap n = materialize_bitmap e i BlockBitmap n" for n
    using sb replaced_keeps(2) [OF r] by (rule materialize_place)
  then show ?thesis using replaced_own [OF r] replaced_other [OF r i] un sb by (auto simp: block_bits_def)
qed

lemma replaced_consistent:
  assumes r: "group_replaced content e e' g bm gd d" and un: "\<not> block_bitmap_uninit gd" and i: "i < length (e_groups e)"
    and old: "group_consistent H content e i"
    and new: "bg_free_blocks_count gd = free_count (e_sb e) g bm" "group_desc_parse d = desc_stored (group_desc_size (e_sb e)) gd"
      "\<And>c. seed_group_desc H (seed_of H (e_sb e)) g d = Some c \<Longrightarrow> bg_checksum gd = c"
      "\<And>c. seed_bitmap H (seed_of H (e_sb e)) (take (div_ceil (s_clusters_per_group (e_sb e)) 8) bm) = Some c \<Longrightarrow> bg_block_bitmap_csum gd = c"
  shows "group_consistent H content e' i"
proof -
  obtain a b where sb: "e_sb e' = with_counts (e_sb e) a b" using r by (auto simp: group_replaced_def)
  show ?thesis
  proof (cases "i = g")
    case True
    then show ?thesis using new replaced_own [OF r] replaced_bits [OF r un i] sb by (simp add: group_consistent_def)
  next
    case False
    then show ?thesis using old replaced_other [OF r i False] replaced_bits [OF r un i] sb by (simp add: group_consistent_def)
  qed
qed

context byte_store
begin

lemma wf_offset:
  assumes "ok (e_device e)" "ext4_wf content e" "gd \<in> set (e_groups e)"
  shows "metadata_block_offset (e_sb e) (bg_block_bitmap gd) = Inr (bg_block_bitmap gd * s_block_size (e_sb e))"
proof -
  have w: "s_blocks_count (e_sb e) * s_block_size (e_sb e) < 2 ^ 64" "s_first_data_block (e_sb e) < bg_block_bitmap gd"
    "bg_block_bitmap gd < s_blocks_count (e_sb e)" using assms content_len [OF assms(1)] by (auto simp: ext4_wf_unfold)
  then obtain off where off: "metadata_block_offset (e_sb e) (bg_block_bitmap gd) = Inr off" by (simp add: metadata_block_offset_def)
  show ?thesis using off metadata_block_offset_bounds(1) [OF off w(1)] by simp
qed

lemma read_bitmap_bits:
  assumes "ok (e_device e)" "ext4_wf content e" "g < length (e_groups e)"
  shows "read_bitmap B e g BlockBitmap = Inr (block_bits content e g)" "length (block_bits content e g) = s_block_size (e_sb e)"
proof -
  note a = ext4_areas(1) [OF assms(2,3)]
  show "read_bitmap B e g BlockBitmap = Inr (block_bits content e g)"
    using wf_offset [OF assms(1,2), of "e_groups e ! g"] assms(1,3) a
    by (simp add: read_bitmap_def bitmap_extent_def block_bits_def bitmap_at_def fetch_ok)
  show "length (block_bits content e g) = s_block_size (e_sb e)"
    using a by (simp add: block_bits_def bitmap_at_def length_materialize)
qed

lemma commit_group_bytes:
  fixes H :: hashes and sd :: csum_seed
  assumes ok: "ok (e_device e)" and wf: "ext4_wf content e" and g: "g < length (e_groups e)" and bm: "length bm = s_block_size (e_sb e)"
    and old: "group_desc_parse (desc_at content e g) = desc_stored (group_desc_size (e_sb e)) (e_groups e ! g)"
    and e1: "e_device e1 = e_device e" "e_sb e1 = with_counts (e_sb e) a b" "e_groups e1 = (e_groups e)[g := gd0]"
    and gd0: "desc_place gd0 = desc_place (e_groups e ! g)" "bg_checksum gd0 = bg_checksum (e_groups e ! g)" "desc_typed (group_desc_size (e_sb e)) gd0"
  defines "sb \<equiv> e_sb e"
  defines "gd1 \<equiv> bitmap_signed H sd sb bm gd0"
  defines "d1 \<equiv> patch_group_desc (desc_at content e g) gd1"
  shows "\<exists>e'. ebind (write_bitmap H B g BlockBitmap bm sd) (\<lambda>_. write_group_desc H B g sd) e1 = (Inr (), e')
    \<and> ok (e_device e') \<and> e_sb e' = e_sb e1 \<and> e_groups e' = (e_groups e)[g := desc_signed H sd g d1 gd1]
    \<and> content (e_device e') = put (put (content (e_device e)) (bg_block_bitmap (e_groups e ! g) * s_block_size sb) bm)
         (group_desc_offset sb + g * group_desc_size sb) (desc_bytes_signed H sd g d1)"
    and "group_desc_parse d1 = desc_stored (group_desc_size sb) gd1" "length d1 = group_desc_size sb"
proof -
  let ?bo = "bg_block_bitmap (e_groups e ! g) * s_block_size sb" and ?dp = "group_desc_offset sb + g * group_desc_size sb"
  let ?C = "content (e_device e)"
  note ar = ext4_areas [OF wf g, folded sb_def]
  have ds: "32 \<le> group_desc_size sb" by (rule group_desc_size_ge)
  have len: "length (desc_at content e g) = group_desc_size sb" using ar(1,2) by (simp add: desc_at_def sb_def [symmetric])
  show "length d1 = group_desc_size sb" using len ds by (simp add: d1_def length_patch_group_desc)
  have typed: "desc_typed (group_desc_size sb) gd1" using gd0(3) by (simp add: gd1_def sb_def desc_typed_signed)
  show p1: "group_desc_parse d1 = desc_stored (group_desc_size sb) gd1"
    unfolding d1_def len [symmetric] by (rule parse_patch) (use ds len old gd0 typed in \<open>simp_all add: gd1_def\<close>)
  have place: "bg_block_bitmap gd0 = bg_block_bitmap (e_groups e ! g)" using gd0(1) by (simp add: desc_place_def)
  have ext: "bitmap_extent e1 g BlockBitmap = Inr (?bo, div_ceil (s_clusters_per_group sb) 8)"
    using wf_offset [OF ok wf, of "e_groups e ! g"] g e1 place by (simp add: bitmap_extent_def sb_def)
  obtain d2 where d2: "dev_write B (e_device e) ?bo bm = (Inr (), d2)" "ok d2" "content d2 = put ?C ?bo bm"
    using write_ok [OF ok, of ?bo bm] ar(1) bm by (auto simp: sb_def)
  define e2 where "e2 = e1\<lparr>e_device := d2, e_groups := (e_groups e)[g := gd1]\<rparr>"
  have wb: "write_bitmap H B g BlockBitmap bm sd e1 = (Inr (), e2)"
    using ext d2(1) e1 g unfolding write_bitmap_def e4_write_def upd_group_def
    by (auto simp: e2_def gd1_def bitmap_signed_def split: option.split)
  have size1: "group_desc_size (e_sb e2) = group_desc_size sb" "group_desc_offset (e_sb e2) = group_desc_offset sb"
    using e1(2) by (simp_all add: e2_def sb_def)
  have lenC: "length (content d2) = length ?C" using d2(3) ar(1) bm by (simp add: sb_def)
  have rd: "fetch B d2 ?dp (group_desc_size sb) = Inr (desc_at content e g)"
  proof -
    have "fetch B d2 ?dp (group_desc_size sb) = Inr (slice (content d2) ?dp (group_desc_size sb))"
      using d2(2) ar(1,2) lenC by (intro fetch_ok) auto
    then show ?thesis using d2(3) ar(1,2) bm by (simp add: desc_at_def sb_def slice_put_before)
  qed
  have lens: "length (desc_bytes_signed H sd g d1) = group_desc_size sb"
    using parse_desc_bytes_signed(2) [of d1 gd1 H sd g] p1 \<open>length d1 = _\<close> ds by simp
  obtain d3 where d3: "dev_write B d2 ?dp (desc_bytes_signed H sd g d1) = (Inr (), d3)" "ok d3"
      "content d3 = put (content d2) ?dp (desc_bytes_signed H sd g d1)"
    using write_ok [OF d2(2), of ?dp "desc_bytes_signed H sd g d1"] lens lenC ar(1,2) by auto
  have e2g: "e_groups e2 ! g = gd1" "e_device e2 = d2" "e_groups e2 = (e_groups e)[g := gd1]" using g by (simp_all add: e2_def)
  have "write_group_desc H B g sd e2 = (Inr (), e2\<lparr>e_device := d3, e_groups := (e_groups e)[g := desc_signed H sd g d1 gd1]\<rparr>)"
    using rd d3(1) e2g g unfolding write_group_desc_def Let_def size1 e4_write_def upd_group_def
    by (cases "seed_group_desc H sd g d1") (simp_all add: d1_def [symmetric] desc_signed_def desc_bytes_signed_def e2_def)
  then show "\<exists>e'. ebind (write_bitmap H B g BlockBitmap bm sd) (\<lambda>_. write_group_desc H B g sd) e1 = (Inr (), e')
    \<and> ok (e_device e') \<and> e_sb e' = e_sb e1 \<and> e_groups e' = (e_groups e)[g := desc_signed H sd g d1 gd1]
    \<and> content (e_device e') = put (put ?C ?bo bm) ?dp (desc_bytes_signed H sd g d1)"
    using wb d2 d3 by (simp add: ebind_def e2_def)
qed

text \<open>One entry of a plan keeps the invariant: its group gets the new bitmap, with counter, checksums and descriptor
  to match, and nothing else changes.\<close>

lemma commit_step:
  assumes inv: "commit_inv H content ok e" and g: "g < length (e_groups e)" and bm: "length bm = s_block_size (e_sb e)"
    and e1: "e_device e1 = e_device e" "e_sb e1 = with_counts (e_sb e) a b"
      "e_groups e1 = (e_groups e)[g := clear_uninit BG_BLOCK_UNINIT ((e_groups e ! g)\<lparr>bg_free_blocks_count := free_count (e_sb e) g bm\<rparr>)]"
  defines "sd \<equiv> seed_of H (e_sb e)"
  shows "\<exists>e'. ebind (write_bitmap H B g BlockBitmap bm sd) (\<lambda>_. write_group_desc H B g sd) e1 = (Inr (), e')
    \<and> commit_inv H content ok e' \<and> e_sb e' = e_sb e1 \<and> length (e_groups e') = length (e_groups e)
    \<and> (\<forall>i < length (e_groups e). block_bits content e' i = (if i = g then bm else block_bits content e i))"
proof -
  have ok: "ok (e_device e)" and wf: "ext4_wf content e" and gc: "\<And>i. i < length (e_groups e) \<Longrightarrow> group_consistent H content e i"
    using inv by (auto simp: commit_inv_def)
  let ?gd0 = "clear_uninit BG_BLOCK_UNINIT ((e_groups e ! g)\<lparr>bg_free_blocks_count := free_count (e_sb e) g bm\<rparr>)" and ?sb = "e_sb e"
  have old: "group_desc_parse (desc_at content e g) = desc_stored (group_desc_size ?sb) (e_groups e ! g)" using gc [OF g] by (simp add: group_consistent_def)
  have len: "length (desc_at content e g) = group_desc_size ?sb" using ext4_areas(1,2) [OF wf g] by (simp add: desc_at_def)
  have typed: "desc_typed (group_desc_size ?sb) (e_groups e ! g)" using parse_typed [of "desc_at content e g"] old len by (simp add: desc_typed_stored)
  have fc: "free_count ?sb g bm < count_width (group_desc_size ?sb)" using free_count_le [of ?sb g bm] blocks_in_group_le [of ?sb g] wf by (simp add: ext4_wf_unfold)
  have fl: "\<not> block_bitmap_uninit ?gd0" "bg_flags ?gd0 < 2 ^ 16"
    using flag_cleared [of "(e_groups e ! g)\<lparr>bg_free_blocks_count := free_count ?sb g bm\<rparr>"] typed by (simp_all add: desc_typed_def)
  have gd0: "desc_place ?gd0 = desc_place (e_groups e ! g)" "bg_checksum ?gd0 = bg_checksum (e_groups e ! g)" "desc_typed (group_desc_size ?sb) ?gd0"
    using typed fc fl(2) by (simp_all add: desc_place_def clear_uninit_def desc_typed_def)
  define gd1 where "gd1 = bitmap_signed H sd ?sb bm ?gd0"
  define d1 where "d1 = patch_group_desc (desc_at content e g) gd1"
  note cb = commit_group_bytes [OF ok wf g bm old e1 gd0, of H sd, folded gd1_def, folded d1_def]
  define gd2 where "gd2 = desc_signed H sd g d1 gd1"
  define d2 where "d2 = desc_bytes_signed H sd g d1"
  have d2: "group_desc_parse d2 = desc_stored (group_desc_size ?sb) gd2" "length d2 = group_desc_size ?sb" "\<And>c. seed_group_desc H sd g d2 = Some c \<Longrightarrow> bg_checksum gd2 = c"
    using parse_desc_bytes_signed [of d1 gd1 H sd g] cb(2,3) group_desc_size_ge [of ?sb] by (simp_all add: d2_def gd2_def)
  obtain e' where e': "ebind (write_bitmap H B g BlockBitmap bm sd) (\<lambda>_. write_group_desc H B g sd) e1 = (Inr (), e')"
    "ok (e_device e')" "e_sb e' = e_sb e1" and r: "group_replaced content e e' g bm gd2 d2"
    using cb(1) wf g bm d2(2) gd0(1) e1(2) by (auto simp: group_replaced_def gd2_def d2_def gd1_def)
  have un: "\<not> block_bitmap_uninit gd2" using fl(1) by (simp add: gd2_def gd1_def block_bitmap_uninit_def)
  have fc2: "bg_free_blocks_count gd2 = free_count ?sb g bm" by (simp add: gd2_def gd1_def clear_uninit_def)
  have cs2: "bg_block_bitmap_csum gd2 = c" if "seed_bitmap H sd (take (div_ceil (s_clusters_per_group ?sb) 8) bm) = Some c" for c
    using that by (simp add: gd2_def gd1_def bitmap_signed_def)
  have "group_consistent H content e' i" if "i < length (e_groups e)" for i
    using fc2 d2(1,3) cs2 unfolding sd_def by (rule replaced_consistent [OF r un that gc [OF that]])
  moreover have "slice (content (e_device e')) 1024 1024 = slice (content (e_device e)) 1024 1024"
    using ext4_areas(2,3) [OF wf g] by (intro replaced_keeps(4) [OF r]) auto
  moreover have "length (e_groups e') = length (e_groups e)" using r by (simp add: group_replaced_def)
  ultimately have "commit_inv H content ok e'"
    using inv e'(2,3) replaced_wf [OF r] e1(2) by (auto simp: commit_inv_def) blast
  then show ?thesis using e' \<open>length (e_groups e') = _\<close> replaced_bits [OF r un] by blast
qed

text \<open>The superblock closes a batch: its counters on disk are those in memory again.\<close>

lemma commit_superblock:
  assumes inv: "commit_inv H content ok e" and cnt: "s_free_blocks_count (e_sb e) = sum_list (map bg_free_blocks_count (e_groups e))"
    and fits: "count_fits (e_sb e)"
  defines "sd \<equiv> seed_of H (e_sb e)"
  shows "\<exists>e'. write_superblock H B sd e = (Inr (), e') \<and> ext4_consistent H content ok e' \<and> e_sb e' = e_sb e \<and> e_groups e' = e_groups e
    \<and> (\<forall>i < length (e_groups e). block_bits content e' i = block_bits content e i)"
proof -
  have ok: "ok (e_device e)" and wf: "ext4_wf content e" and gc: "\<And>i. i < length (e_groups e) \<Longrightarrow> group_consistent H content e i"
    using inv by (auto simp: commit_inv_def)
  obtain sb0 fb fi where sb0: "ext4_sb_parse (slice (content (e_device e)) 1024 1024) = Inr sb0" "e_sb e = with_counts sb0 fb fi"
    using inv by (auto simp: commit_inv_def)
  let ?C = "content (e_device e)" and ?b = "patch_superblock H sd (e_sb e) (slice (content (e_device e)) 1024 1024)"
  have n: "0 < length (e_groups e)" using wf unfolding ext4_wf_def Let_def by linarith
  have room: "2048 \<le> length ?C" using ext4_areas(1-3) [OF wf n] by linarith
  have len: "length ?b = 1024" using room by (simp add: length_patch_superblock)
  obtain d' where d': "dev_write B (e_device e) 1024 ?b = (Inr (), d')" "ok d'" "content d' = put ?C 1024 ?b"
    using write_ok [OF ok, of 1024 ?b] room len by auto
  define e' where "e' = e\<lparr>e_device := d'\<rparr>"
  have w: "write_superblock H B sd e = (Inr (), e')"
    using d'(1) room fetch_ok [OF ok, of 1024 1024] by (simp add: write_superblock_def e4_write_def e'_def)
  have keep: "slice (content d') i m = slice ?C i m" if "2048 \<le> i" for i m
    using that d'(3) room len by (simp add: slice_put_after)
  have bits: "bitmap_at content e' i = bitmap_at content e i" "desc_at content e' i = desc_at content e i" if "i < length (e_groups e)" for i
    using ext4_areas(2,3) [OF wf that] by (auto simp: bitmap_at_def desc_at_def e'_def intro!: keep)
  have mat: "materialize_bitmap e' i BlockBitmap m = materialize_bitmap e i BlockBitmap m" for i m
    by (rule materialize_place [where a = "s_free_blocks_count (e_sb e)" and b = "s_free_inodes_count (e_sb e)"]) (simp_all add: e'_def)
  have bb: "block_bits content e' i = block_bits content e i" if "i < length (e_groups e)" for i
    using bits [OF that] mat by (simp add: block_bits_def) (simp add: e'_def)
  have "ext4_wf content e'" using wf d'(3) room len by (auto simp: ext4_wf_unfold e'_def)
  moreover have "group_consistent H content e' i" if "i < length (e_groups e)" for i
    using gc [OF that] bits [OF that] bb [OF that] by (simp add: group_consistent_def) (simp add: e'_def)
  moreover have "slice (content (e_device e')) 1024 1024 = ?b" using d'(3) room len by (simp add: e'_def)
  moreover have "ext4_sb_parse ?b = Inr (e_sb e)" using room sb0 fits by (intro parse_patch_superblock) auto
  moreover have "u32le ?b SB_CHECKSUM_OFFSET = c" if "seed_superblock H sd ?b = Some c" for c
    using room that by (intro superblock_checksum) auto
  ultimately have "ext4_consistent H content ok e'"
    using d'(2) cnt by (simp add: ext4_consistent_def e'_def sd_def)
  then show ?thesis using w bb by (auto simp: e'_def)
qed

end

end
