(* ===== verification/Ext4_Commit.thy ===== *)
theory Ext4_Commit
  imports Ext4_Store
begin

text \<open>
  Whole batches over a byte store: \<open>alloc_blocks\<close> and \<open>free_blocks\<close> keep the filesystem consistent, and their effect on
  the set of blocks in use is the abstract one, union with the blocks granted and difference with the blocks released.
\<close>

section \<open>Counting free blocks\<close>

definition total_free :: "('d \<Rightarrow> bytes) \<Rightarrow> 'd ext4 \<Rightarrow> nat" where
  "total_free content e = (\<Sum>i < length (e_groups e). free_count (e_sb e) i (block_bits content e i))"

lemma group_counters:
  assumes "\<forall>g < length (e_groups e). group_consistent H content e g"
  shows "sum_list (map bg_free_blocks_count (e_groups e)) = total_free content e"
proof -
  have "sum_list (map bg_free_blocks_count (e_groups e)) = (\<Sum>i < length (e_groups e). bg_free_blocks_count (e_groups e ! i))"
    by (simp add: sum_list_sum_nth atLeast0LessThan)
  then show ?thesis using assms by (simp add: total_free_def group_consistent_def)
qed

lemma sum_group_blocks:
  assumes "ext4_wf content e" "n \<le> length (e_groups e)"
  shows "(\<Sum>i < n. blocks_in_group (e_sb e) i) \<le> s_blocks_count (e_sb e)"
proof (cases n)
  case (Suc m)
  have "(\<Sum>i < m. blocks_in_group (e_sb e) i) \<le> (\<Sum>i < m. s_blocks_per_group (e_sb e))"
    by (rule sum_mono) (rule blocks_in_group_le)
  then show ?thesis using Suc group_in_range [OF assms(1), of m] assms(2) by simp
qed simp

lemma total_free_le: "ext4_wf content e \<Longrightarrow> total_free content e \<le> s_blocks_count (e_sb e)"
  using sum_group_blocks [of content e "length (e_groups e)"] sum_mono [of "{..<length (e_groups e)}" "\<lambda>i. free_count (e_sb e) i (block_bits content e i)"
      "blocks_in_group (e_sb e)"] free_count_le by (fastforce simp: total_free_def)

lemma counts_fit:
  assumes "ext4_wf content e" "s_free_blocks_count (e_sb e) = total_free content e" "s_free_inodes_count (e_sb e) < 2 ^ 32"
  shows "count_fits (e_sb e)"
proof -
  have "s_blocks_count (e_sb e) < (if is_64bit (e_sb e) then 2 ^ 64 else 2 ^ 32)" using assms(1) unfolding ext4_wf_def Let_def by blast
  then show ?thesis using assms(2,3) total_free_le [OF assms(1)] unfolding count_fits_def by linarith
qed

lemma sum_replaced:
  fixes f :: "nat \<Rightarrow> nat"
  assumes "g < n" "\<forall>i < n. i \<noteq> g \<longrightarrow> f' i = f i"
  shows "(\<Sum>i < n. f' i) + f g = (\<Sum>i < n. f i) + f' g"
proof -
  have "(\<Sum>i \<in> {..<n} - {g}. f' i) = (\<Sum>i \<in> {..<n} - {g}. f i)" using assms(2) by (intro sum.cong) auto
  moreover have "(\<Sum>i < n. f' i) = f' g + (\<Sum>i \<in> {..<n} - {g}. f' i)" "(\<Sum>i < n. f i) = f g + (\<Sum>i \<in> {..<n} - {g}. f i)"
    using assms(1) by (simp_all add: sum.remove)
  ultimately show ?thesis by simp
qed

lemma total_free_replaced:
  assumes "g < length (e_groups e)" "length (e_groups e') = length (e_groups e)" "e_sb e' = with_counts (e_sb e) a b"
    "\<forall>i < length (e_groups e). block_bits content e' i = (if i = g then bm else block_bits content e i)"
  shows "total_free content e' + free_count (e_sb e) g (block_bits content e g) = total_free content e + free_count (e_sb e) g bm"
  unfolding total_free_def assms(2,3) using assms(1,4) sum_replaced [OF assms(1), of "\<lambda>i. free_count (e_sb e) i (block_bits content e' i)"
      "\<lambda>i. free_count (e_sb e) i (block_bits content e i)"] by simp

lemma replaced_total_le:
  assumes wf: "ext4_wf content e" and g: "g < length (e_groups e)"
  shows "total_free content e + free_count (e_sb e) g bm \<le> s_blocks_count (e_sb e) + free_count (e_sb e) g (block_bits content e g)"
proof -
  let ?f = "\<lambda>i. free_count (e_sb e) i (block_bits content e i)" and ?f' = "\<lambda>i. if i = g then free_count (e_sb e) g bm else free_count (e_sb e) i (block_bits content e i)"
  have "(\<Sum>i < length (e_groups e). ?f' i) \<le> (\<Sum>i < length (e_groups e). blocks_in_group (e_sb e) i)"
    by (rule sum_mono) (simp add: free_count_le)
  also have "\<dots> \<le> s_blocks_count (e_sb e)" using sum_group_blocks [OF wf order_refl] .
  finally show ?thesis using sum_replaced [OF g, of ?f' ?f] by (simp add: total_free_def)
qed

lemma ebind_assoc: "ebind m (\<lambda>x. ebind (f x) k) e = ebind (ebind m f) k e"
  by (simp add: ebind_def split: prod.splits sum.splits)

section \<open>Committing a plan\<close>

text \<open>A plan fits a filesystem when each entry is a bitmap of a different group.\<close>

definition plan_fits :: "'d ext4 \<Rightarrow> (nat \<times> bytes \<times> nat) list \<Rightarrow> bool" where
  "plan_fits e plan \<longleftrightarrow> distinct (map fst plan)
     \<and> (\<forall>(g, bm, t) \<in> set plan. g < length (e_groups e) \<and> length bm = s_block_size (e_sb e))"

definition plan_bits :: "(nat \<times> bytes \<times> nat) list \<Rightarrow> (nat \<Rightarrow> bytes) \<Rightarrow> nat \<Rightarrow> bytes" where
  "plan_bits plan bits g = (case map_of plan g of None \<Rightarrow> bits g | Some (bm, _) \<Rightarrow> bm)"

lemma plan_bits_Cons: "distinct (map fst ((g, bm, t) # plan)) \<Longrightarrow>
    plan_bits plan (\<lambda>i. if i = g then bm else bits i) i = plan_bits ((g, bm, t) # plan) bits i"
  by (cases "map_of plan g") (auto simp: plan_bits_def map_of_eq_None_iff dest!: map_of_SomeD intro: rev_image_eqI split: option.split)

lemma plan_bits_cong: "bits i = bits' i \<Longrightarrow> plan_bits plan bits i = plan_bits plan bits' i"
  by (simp add: plan_bits_def split: option.split)

lemma wrap_sub32: "t \<le> c \<Longrightarrow> c < 2 ^ 32 \<Longrightarrow> (c + (2 ^ 32 - t mod 2 ^ 32)) mod 2 ^ 32 = c - (t :: nat)"
proof -
  assume a: "t \<le> c" "c < 2 ^ 32"
  then have "c + (2 ^ 32 - t mod 2 ^ 32) = (c - t) + 2 ^ 32" by simp
  then have "(c + (2 ^ 32 - t mod 2 ^ 32)) mod 2 ^ 32 = (c - t) mod 2 ^ 32" by (simp only: mod_add_self2)
  then show ?thesis using a by simp
qed

context byte_store
begin

lemma counter_typed:
  assumes "commit_inv H content ok e" "g < length (e_groups e)"
  shows "bg_free_blocks_count (e_groups e ! g) = free_count (e_sb e) g (block_bits content e g)" "bg_free_blocks_count (e_groups e ! g) < 2 ^ 32"
proof -
  have wf: "ext4_wf content e" and c: "group_consistent H content e g" using assms by (auto simp: commit_inv_def)
  show s: "bg_free_blocks_count (e_groups e ! g) = free_count (e_sb e) g (block_bits content e g)" using c by (simp add: group_consistent_def)
  show "bg_free_blocks_count (e_groups e ! g) < 2 ^ 32"
    unfolding s using free_count_le [of "e_sb e" g "block_bits content e g"] blocks_in_group_le [of "e_sb e" g] wf_widths(2) [OF wf] by linarith
qed

lemma finish_batch:
  assumes "commit_inv H content ok e" "s_free_blocks_count (e_sb e) = total_free content e" "s_free_inodes_count (e_sb e) < 2 ^ 32"
  shows "\<exists>e'. write_superblock H B (seed_of H (e_sb e)) e = (Inr (), e') \<and> ext4_consistent H content ok e' \<and> e_sb e' = e_sb e
    \<and> length (e_groups e') = length (e_groups e) \<and> (\<forall>i < length (e_groups e). block_bits content e' i = plan_bits [] (block_bits content e) i)"
proof -
  have wf: "ext4_wf content e" "\<forall>g < length (e_groups e). group_consistent H content e g" using assms(1) by (auto simp: commit_inv_def)
  have "s_free_blocks_count (e_sb e) = sum_list (map bg_free_blocks_count (e_groups e))"
    using assms(2) group_counters [OF wf(2)] by simp
  from commit_superblock [OF assms(1) this counts_fit [OF wf(1) assms(2,3)]] obtain e' where
    "write_superblock H B (seed_of H (e_sb e)) e = (Inr (), e')" "ext4_consistent H content ok e'" "e_sb e' = e_sb e" "e_groups e' = e_groups e"
    "\<forall>i < length (e_groups e). block_bits content e' i = block_bits content e i" by blast
  then show ?thesis by (intro exI [of _ e']) (simp add: plan_bits_def)
qed

lemma commit_alloc_ok:
  assumes "commit_inv H content ok e" "plan_fits e plan" "s_free_blocks_count (e_sb e) = total_free content e" "s_free_inodes_count (e_sb e) < 2 ^ 32"
    and "\<forall>(g, bm, t) \<in> set plan. free_count (e_sb e) g bm + t = free_count (e_sb e) g (block_bits content e g)"
  shows "\<exists>e'. commit_alloc H B (seed_of H (e_sb e)) plan e = (Inr (), e') \<and> ext4_consistent H content ok e'
    \<and> e_sb e' = with_counts (e_sb e) (s_free_blocks_count (e_sb e) - sum_list (map (snd \<circ> snd) plan)) (s_free_inodes_count (e_sb e))
    \<and> length (e_groups e') = length (e_groups e)
    \<and> (\<forall>i < length (e_groups e). block_bits content e' i = plan_bits plan (block_bits content e) i)"
  using assms
proof (induction plan arbitrary: e)
  case Nil
  show ?case using finish_batch [OF Nil.prems(1,3,4)] by simp
next
  case (Cons p plan)
  obtain g bm t where p: "p = (g, bm, t)" by (metis prod_cases3)
  let ?sb = "e_sb e" and ?sd = "seed_of H (e_sb e)"
  have g: "g < length (e_groups e)" and bm: "length bm = s_block_size ?sb" and d: "g \<notin> fst ` set plan" "distinct (map fst plan)"
    and cnt: "free_count ?sb g bm + t = free_count ?sb g (block_bits content e g)"
    using Cons.prems(2,5) by (auto simp: p plan_fits_def)
  note ct = counter_typed [OF Cons.prems(1) g]
  define e1 where "e1 = (upd_group g (\<lambda>gd. clear_uninit BG_BLOCK_UNINIT (gd\<lparr>bg_free_blocks_count := free_count ?sb g bm\<rparr>)) e)
      \<lparr>e_sb := with_counts ?sb (s_free_blocks_count ?sb - t) (s_free_inodes_count ?sb)\<rparr>"
  have step: "commit_alloc H B ?sd (p # plan) e =
      ebind (ebind (write_bitmap H B g BlockBitmap bm ?sd) (\<lambda>_. write_group_desc H B g ?sd)) (\<lambda>_. commit_alloc H B ?sd plan) e1"
  proof -
    have "(bg_free_blocks_count (e_groups e ! g) + (2 ^ 32 - t mod 2 ^ 32)) mod 2 ^ 32 = free_count ?sb g bm"
      using wrap_sub32 [of t "bg_free_blocks_count (e_groups e ! g)"] ct cnt by simp
    then show ?thesis by (simp add: p ebind_assoc e1_def upd_group_def with_counts_def)
  qed
  obtain e2 where e2: "ebind (write_bitmap H B g BlockBitmap bm ?sd) (\<lambda>_. write_group_desc H B g ?sd) e1 = (Inr (), e2)"
    "commit_inv H content ok e2" "e_sb e2 = with_counts ?sb (s_free_blocks_count ?sb - t) (s_free_inodes_count ?sb)"
    "length (e_groups e2) = length (e_groups e)"
    "\<forall>i < length (e_groups e). block_bits content e2 i = (if i = g then bm else block_bits content e i)"
    using commit_step [OF Cons.prems(1) g bm, of e1 "s_free_blocks_count ?sb - t" "s_free_inodes_count ?sb"] by (auto simp: e1_def upd_group_def)
  have tot: "s_free_blocks_count (e_sb e2) = total_free content e2"
    using total_free_replaced [OF g e2(4,3,5)] cnt Cons.prems(3) e2(3) by simp
  have "\<exists>e'. commit_alloc H B (seed_of H (e_sb e2)) plan e2 = (Inr (), e') \<and> ext4_consistent H content ok e'
    \<and> e_sb e' = with_counts (e_sb e2) (s_free_blocks_count (e_sb e2) - sum_list (map (snd \<circ> snd) plan)) (s_free_inodes_count (e_sb e2))
    \<and> length (e_groups e') = length (e_groups e2)
    \<and> (\<forall>i < length (e_groups e2). block_bits content e' i = plan_bits plan (block_bits content e2) i)"
  proof (rule Cons.IH [OF e2(2) _ tot])
    show "plan_fits e2 plan" using Cons.prems(2) e2(3,4) by (auto simp: p plan_fits_def)
    show "s_free_inodes_count (e_sb e2) < 2 ^ 32" using Cons.prems(4) e2(3) by simp
    show "\<forall>(g, bm, t) \<in> set plan. free_count (e_sb e2) g bm + t = free_count (e_sb e2) g (block_bits content e2 g)"
      using Cons.prems(2,5) d(1) e2(3,5) by (force simp: p plan_fits_def)
  qed
  then show ?case using step e2 plan_bits_Cons [of g bm t plan "block_bits content e"] Cons.prems(2)
      plan_bits_cong [of "block_bits content e2" _ "\<lambda>i. if i = g then bm else block_bits content e i" plan]
    by (auto simp: ebind_def p plan_fits_def comp_def)
qed

lemma commit_free_ok:
  assumes "commit_inv H content ok e" "plan_fits e plan" "s_free_blocks_count (e_sb e) = total_free content e" "s_free_inodes_count (e_sb e) < 2 ^ 32"
    and "\<forall>(g, bm, t) \<in> set plan. free_count (e_sb e) g bm = free_count (e_sb e) g (block_bits content e g) + t"
  shows "\<exists>e'. commit_free H B (seed_of H (e_sb e)) plan e = (Inr (), e') \<and> ext4_consistent H content ok e'
    \<and> e_sb e' = with_counts (e_sb e) (s_free_blocks_count (e_sb e) + sum_list (map (snd \<circ> snd) plan)) (s_free_inodes_count (e_sb e))
    \<and> length (e_groups e') = length (e_groups e)
    \<and> (\<forall>i < length (e_groups e). block_bits content e' i = plan_bits plan (block_bits content e) i)"
  using assms
proof (induction plan arbitrary: e)
  case Nil
  show ?case using finish_batch [OF Nil.prems(1,3,4)] by simp
next
  case (Cons p plan)
  obtain g bm t where p: "p = (g, bm, t)" by (metis prod_cases3)
  let ?sb = "e_sb e" and ?sd = "seed_of H (e_sb e)"
  have g: "g < length (e_groups e)" and bm: "length bm = s_block_size ?sb" and d: "g \<notin> fst ` set plan" "distinct (map fst plan)"
    and cnt: "free_count ?sb g bm = free_count ?sb g (block_bits content e g) + t"
    using Cons.prems(2,5) by (auto simp: p plan_fits_def)
  note ct = counter_typed [OF Cons.prems(1) g]
  define e1 where "e1 = (upd_group g (\<lambda>gd. clear_uninit BG_BLOCK_UNINIT (gd\<lparr>bg_free_blocks_count := free_count ?sb g bm\<rparr>)) e)
      \<lparr>e_sb := with_counts ?sb (s_free_blocks_count ?sb + t) (s_free_inodes_count ?sb)\<rparr>"
  have step: "commit_free H B ?sd (p # plan) e =
      ebind (ebind (write_bitmap H B g BlockBitmap bm ?sd) (\<lambda>_. write_group_desc H B g ?sd)) (\<lambda>_. commit_free H B ?sd plan) e1"
  proof -
    have wf: "ext4_wf content e" using Cons.prems(1) by (simp add: commit_inv_def)
    then have "s_blocks_per_group ?sb < 2 ^ 32" "s_blocks_count ?sb < 2 ^ 64" by (rule wf_widths)+
    moreover have "total_free content e + t \<le> s_blocks_count ?sb"
      using replaced_total_le [OF wf g, of bm] cnt by simp
    moreover have "free_count ?sb g bm \<le> s_blocks_per_group ?sb" using free_count_le [of ?sb g bm] blocks_in_group_le [of ?sb g] by simp
    ultimately have "(bg_free_blocks_count (e_groups e ! g) + t) mod 2 ^ 32 = free_count ?sb g bm"
      "add64 (s_free_blocks_count ?sb) t = s_free_blocks_count ?sb + t"
      using ct cnt Cons.prems(3) by (simp_all add: add64_small)
    then show ?thesis by (simp add: p ebind_assoc e1_def upd_group_def with_counts_def)
  qed
  obtain e2 where e2: "ebind (write_bitmap H B g BlockBitmap bm ?sd) (\<lambda>_. write_group_desc H B g ?sd) e1 = (Inr (), e2)"
    "commit_inv H content ok e2" "e_sb e2 = with_counts ?sb (s_free_blocks_count ?sb + t) (s_free_inodes_count ?sb)"
    "length (e_groups e2) = length (e_groups e)"
    "\<forall>i < length (e_groups e). block_bits content e2 i = (if i = g then bm else block_bits content e i)"
    using commit_step [OF Cons.prems(1) g bm, of e1 "s_free_blocks_count ?sb + t" "s_free_inodes_count ?sb"] by (auto simp: e1_def upd_group_def)
  have tot: "s_free_blocks_count (e_sb e2) = total_free content e2"
    using total_free_replaced [OF g e2(4,3,5)] cnt Cons.prems(3) e2(3) by simp
  have "\<exists>e'. commit_free H B (seed_of H (e_sb e2)) plan e2 = (Inr (), e') \<and> ext4_consistent H content ok e'
    \<and> e_sb e' = with_counts (e_sb e2) (s_free_blocks_count (e_sb e2) + sum_list (map (snd \<circ> snd) plan)) (s_free_inodes_count (e_sb e2))
    \<and> length (e_groups e') = length (e_groups e2)
    \<and> (\<forall>i < length (e_groups e2). block_bits content e' i = plan_bits plan (block_bits content e2) i)"
  proof (rule Cons.IH [OF e2(2) _ tot])
    show "plan_fits e2 plan" using Cons.prems(2) e2(3,4) by (auto simp: p plan_fits_def)
    show "s_free_inodes_count (e_sb e2) < 2 ^ 32" using Cons.prems(4) e2(3) by simp
    show "\<forall>(g, bm, t) \<in> set plan. free_count (e_sb e2) g bm = free_count (e_sb e2) g (block_bits content e2 g) + t"
      using Cons.prems(2,5) d(1) e2(3,5) by (force simp: p plan_fits_def)
  qed
  then show ?case using step e2 plan_bits_Cons [of g bm t plan "block_bits content e"] Cons.prems(2)
      plan_bits_cong [of "block_bits content e2" _ "\<lambda>i. if i = g then bm else block_bits content e i" plan]
    by (auto simp: ebind_def p plan_fits_def add.assoc comp_def)
qed

end

end
