(* ===== verification/Ext4_Blocks.thy ===== *)
theory Ext4_Blocks
  imports Ext4_Commit
begin

text \<open>
  The block allocator as an abstract machine on the set of blocks in use: allocation adds fresh blocks or reports a
  full filesystem, release removes blocks that were in use or refuses the whole batch.
\<close>

section \<open>Block numbers and the set of blocks in use\<close>

definition block_no :: "ext4_sb \<Rightarrow> nat \<Rightarrow> nat \<Rightarrow> nat" where
  "block_no sb g i = s_first_data_block sb + g * s_blocks_per_group sb + i"

definition ext4_used :: "('d \<Rightarrow> bytes) \<Rightarrow> 'd ext4 \<Rightarrow> nat set" where
  "ext4_used content e = {b. \<exists>g < length (e_groups e). \<exists>i < blocks_in_group (e_sb e) g. b = block_no (e_sb e) g i \<and> test_bit (block_bits content e g) i}"

lemma block_no_inj:
  assumes "block_no sb g i = block_no sb h j" "i < s_blocks_per_group sb" "j < s_blocks_per_group sb"
  shows "g = h" "i = j"
proof -
  have "g * s_blocks_per_group sb + i = h * s_blocks_per_group sb + j" using assms(1) by (simp add: block_no_def)
  then have "(g * s_blocks_per_group sb + i) div s_blocks_per_group sb = (h * s_blocks_per_group sb + j) div s_blocks_per_group sb" by simp
  then show "g = h" using assms(2,3) by simp
  then show "i = j" using assms(1) by (simp add: block_no_def)
qed

lemma block_no_inj_group:
  assumes "block_no sb g i = block_no sb h j" "i < blocks_in_group sb g" "j < blocks_in_group sb h"
  shows "g = h \<and> i = j"
  using block_no_inj [OF assms(1)] assms(2,3) blocks_in_group_le [of sb g] blocks_in_group_le [of sb h] by simp

lemma block_no_range:
  "ext4_wf content e \<Longrightarrow> g < length (e_groups e) \<Longrightarrow> i < blocks_in_group (e_sb e) g \<Longrightarrow>
    s_first_data_block (e_sb e) \<le> block_no (e_sb e) g i \<and> block_no (e_sb e) g i < s_blocks_count (e_sb e)"
  using group_in_range [of content e g] by (simp add: block_no_def)

lemma block_no_with_counts [simp]: "block_no (with_counts sb a b) g i = block_no sb g i"
  by (simp add: block_no_def)

text \<open>Every block of the filesystem is a bit of exactly one group.\<close>

lemma block_no_onto:
  assumes wf: "ext4_wf content e" and b: "s_first_data_block (e_sb e) \<le> b" "b < s_blocks_count (e_sb e)"
  defines "g \<equiv> (b - s_first_data_block (e_sb e)) div s_blocks_per_group (e_sb e)"
    and "i \<equiv> (b - s_first_data_block (e_sb e)) mod s_blocks_per_group (e_sb e)"
  shows "g < length (e_groups e)" "i < blocks_in_group (e_sb e) g" "b = block_no (e_sb e) g i"
proof -
  let ?per = "s_blocks_per_group (e_sb e)" and ?fst = "s_first_data_block (e_sb e)" and ?bc = "s_blocks_count (e_sb e)"
  have w: "0 < ?per" "?bc < 2 ^ 64" "length (e_groups e) = group_count (e_sb e)" "?fst \<le> ?bc" using wf wf_widths(1) [OF wf] by (auto simp: ext4_wf_unfold)
  show eq: "b = block_no (e_sb e) g i" using b(1) by (simp add: block_no_def g_def i_def)
  have "g * ?per < ?bc - ?fst" using b eq by (simp add: block_no_def)
  also have "\<dots> \<le> group_count (e_sb e) * ?per" using w div_ceil_upper [of ?per "?bc - ?fst"] by (simp add: group_count_def sub64_small)
  finally show "g < length (e_groups e)" using w(3) by simp
  have "i < ?per" using w(1) by (simp add: i_def)
  moreover have "i < ?bc - (?fst + g * ?per)" using eq b(2) by (simp add: block_no_def)
  ultimately show "i < blocks_in_group (e_sb e) g" using w(2) eq b(2) by (simp add: blocks_in_group_def sub64_small block_no_def)
qed

lemma ext4_used_range: "ext4_wf content e \<Longrightarrow> ext4_used content e \<subseteq> {s_first_data_block (e_sb e)..<s_blocks_count (e_sb e)}"
  using block_no_range by (fastforce simp: ext4_used_def)

lemma in_used:
  assumes "g < length (e_groups e)" "i < blocks_in_group (e_sb e) g"
  shows "block_no (e_sb e) g i \<in> ext4_used content e \<longleftrightarrow> test_bit (block_bits content e g) i"
  using assms block_no_inj_group [of "e_sb e" g i] by (auto simp: ext4_used_def)

section \<open>Free counts under changes of bits\<close>

lemma free_count_card: "free_count sb g bm = card {i. i < blocks_in_group sb g \<and> \<not> test_bit bm i}"
  unfolding free_count_def by (subst distinct_card [symmetric]) (auto intro!: arg_cong [where f = card])

lemma free_count_set_bits:
  assumes "distinct is" "\<forall>i \<in> set is. i < blocks_in_group sb g \<and> \<not> test_bit bm i" "blocks_in_group sb g \<le> 8 * length bm"
  shows "free_count sb g (set_bits is bm) + length is = free_count sb g bm"
proof -
  let ?F = "{i. i < blocks_in_group sb g \<and> \<not> test_bit bm i}"
  have "\<forall>i \<in> set is. i < 8 * length bm" using assms(2,3) by auto
  then have "{i. i < blocks_in_group sb g \<and> \<not> test_bit (set_bits is bm) i} = ?F - set is" by (auto simp: test_set_bits)
  moreover have "set is \<subseteq> ?F" using assms(2) by auto
  then have "card (?F - set is) + card (set is) = card ?F" using card_Diff_subset [of "set is" ?F] card_mono [of ?F "set is"] by simp
  ultimately show ?thesis using distinct_card [OF assms(1)] by (simp add: free_count_card)
qed

lemma free_count_clear_bit:
  assumes "i < blocks_in_group sb g" "test_bit bm i" "i div 8 < length bm"
  shows "free_count sb g (clear_bit bm i) = free_count sb g bm + 1"
proof -
  have "{j. j < blocks_in_group sb g \<and> \<not> test_bit (clear_bit bm i) j} = insert i {j. j < blocks_in_group sb g \<and> \<not> test_bit bm j}"
    using assms by (auto simp: test_clear_bit)
  then show ?thesis using assms(2) by (simp add: free_count_card)
qed

section \<open>What a plan grants\<close>

lemma grant_blocks_no: "grant_blocks sb gr = map (block_no sb (fst gr)) (snd gr)"
  by (simp add: grant_blocks_def block_no_def)

lemma map_of_entries: "map_of (map (plan_entry bits) grants) g = map_option (\<lambda>ixs. (set_bits ixs (bits g), length ixs)) (map_of grants g)"
  by (induction grants) (auto simp: plan_entry_def)

lemma granted_bits:
  assumes "distinct (map fst grants)" "\<forall>gr \<in> set grants. \<forall>i \<in> set (snd gr). i < 8 * length (bits (fst gr))"
  shows "test_bit (plan_bits (map (plan_entry bits) grants) bits g) i \<longleftrightarrow> test_bit (bits g) i \<or> (\<exists>ixs. (g, ixs) \<in> set grants \<and> i \<in> set ixs)"
proof (cases "map_of grants g")
  case None
  then have "\<forall>ixs. (g, ixs) \<notin> set grants" by (metis map_of_eq_None_iff fst_conv image_eqI)
  then show ?thesis using None by (simp add: plan_bits_def map_of_entries)
next
  case (Some ixs)
  have mem: "(g, ixs) \<in> set grants" using Some by (rule map_of_SomeD)
  have "(\<exists>js. (g, js) \<in> set grants \<and> i \<in> set js) \<longleftrightarrow> i \<in> set ixs"
    using mem map_of_is_SomeI [OF assms(1)] Some by (metis option.inject)
  moreover have "\<forall>i \<in> set ixs. i < 8 * length (bits g)" using bspec [OF assms(2) mem] by simp
  ultimately show ?thesis using Some by (simp add: plan_bits_def map_of_entries test_set_bits disj_commute)
qed

lemma grants_distinct:
  assumes "distinct (map fst grants)" "\<forall>gr \<in> set grants. distinct (snd gr) \<and> (\<forall>i \<in> set (snd gr). i < blocks_in_group sb (fst gr))"
  shows "distinct (concat (map (grant_blocks sb) grants))"
  using assms
proof (induction grants)
  case (Cons gr grants)
  have "set (grant_blocks sb gr) \<inter> set (concat (map (grant_blocks sb) grants)) = {}"
  proof (rule ccontr)
    assume "set (grant_blocks sb gr) \<inter> set (concat (map (grant_blocks sb) grants)) \<noteq> {}"
    then obtain i hr j where "i \<in> set (snd gr)" "hr \<in> set grants" "j \<in> set (snd hr)" "block_no sb (fst gr) i = block_no sb (fst hr) j"
      by (auto simp: grant_blocks_no)
    moreover from this have "fst gr = fst hr" using Cons.prems(2) block_no_inj_group [of sb "fst gr" i "fst hr" j] by auto
    ultimately show False using Cons.prems(1) by auto
  qed
  moreover have "inj_on (block_no sb (fst gr)) (set (snd gr))" by (auto simp: inj_on_def block_no_def)
  ultimately show ?case using Cons by (auto simp: grant_blocks_no distinct_map)
qed simp

lemma group_order_perm: "distinct (group_order e goal)" "set (group_order e goal) = {..<length (e_groups e)}"
proof -
  let ?n = "length (e_groups e)"
  obtain s where s: "group_order e goal = map (\<lambda>n. (s + n) mod ?n) [0..<?n]" by (auto simp: group_order_def Let_def)
  have inj: "inj_on (\<lambda>n. (s + n) mod ?n) {..<?n}"
  proof (rule inj_onI)
    fix x y assume xy: "x \<in> {..<?n}" "y \<in> {..<?n}" "(s + x) mod ?n = (s + y) mod ?n"
    then have "x mod ?n = y mod ?n" unfolding nat_mod_eq_iff by (simp add: add.assoc)
    then show "x = y" using xy by simp
  qed
  then show "distinct (group_order e goal)" by (simp add: s distinct_map atLeast0LessThan)
  have "(\<lambda>n. (s + n) mod ?n) ` {..<?n} \<subseteq> {..<?n}" by (auto intro!: mod_less_divisor)
  then have "(\<lambda>n. (s + n) mod ?n) ` {..<?n} = {..<?n}" using inj by (intro endo_inj_surj) auto
  then show "set (group_order e goal) = {..<?n}" by (simp add: s atLeast0LessThan)
qed

section \<open>Allocation\<close>

lemma sum_supply:
  assumes "\<forall>g < length (e_groups e). group_consistent H content e g"
  shows "sum_list (map (group_supply e (block_bits content e)) (group_order e goal)) = total_free content e"
proof -
  have s: "group_supply e (block_bits content e) g = free_count (e_sb e) g (block_bits content e g)" if "g < length (e_groups e)" for g
    using assms that by (simp add: group_supply_def group_consistent_def free_count_def)
  have "sum_list (map (group_supply e (block_bits content e)) (group_order e goal)) = sum (group_supply e (block_bits content e)) {..<length (e_groups e)}"
    using sum_list_distinct_conv_sum_set [OF group_order_perm(1) [of e goal]] group_order_perm(2) [of e goal] by metis
  then show ?thesis using s by (simp add: total_free_def)
qed

lemma for_writing_seed: "for_writing H sb = Inr sd \<Longrightarrow> sd = seed_of H sb"
  by (auto simp: for_writing_def Let_def split: if_splits)

lemma grant_ok_distinct: "grant_ok e bits gr \<Longrightarrow> distinct (snd gr)"
  by (simp add: grant_ok_def strict_sorted_iff)

lemma parsed_inodes_typed: "ext4_sb_parse b = Inr sb \<Longrightarrow> s_free_inodes_count sb < 2 ^ 32"
  using u32le_bound [of b 16] by (auto simp: ext4_sb_parse_def Let_def split: if_splits)

context byte_store
begin

lemma consistent_inv:
  assumes "ext4_consistent H content ok e"
  shows "commit_inv H content ok e" "s_free_blocks_count (e_sb e) = total_free content e" "s_free_inodes_count (e_sb e) < 2 ^ 32"
proof -
  show "commit_inv H content ok e"
    using assms with_counts_geometry(18) [of "e_sb e"] unfolding commit_inv_def ext4_consistent_def by metis
  show "s_free_blocks_count (e_sb e) = total_free content e" "s_free_inodes_count (e_sb e) < 2 ^ 32"
    using assms group_counters [of e H content] parsed_inodes_typed by (auto simp: ext4_consistent_def)
qed

lemma bits_room:
  assumes "ok (e_device e)" "ext4_wf content e" "g < length (e_groups e)"
  shows "blocks_in_group (e_sb e) g \<le> 8 * length (block_bits content e g)"
  using read_bitmap_bits(2) [OF assms] blocks_in_group_le [of "e_sb e" g] assms(2) by (simp add: ext4_wf_unfold)

text \<open>The plan for a request that the free blocks cover.\<close>

lemma plan_alloc_ok:
  assumes c: "ext4_consistent H content ok e"
  defines "bits \<equiv> block_bits content e"
  shows "if n \<le> s_free_blocks_count (e_sb e)
    then \<exists>grants out. plan_alloc B e goal n = Inr (map (plan_entry bits) grants, out) \<and> run_blocks out = concat (map (grant_blocks (e_sb e)) grants)
      \<and> length (concat (map snd grants)) = n \<and> distinct (map fst grants) \<and> (\<forall>gr \<in> set grants. fst gr < length (e_groups e) \<and> grant_ok e bits gr)
    else plan_alloc B e goal n = Inl FilesystemFull"
proof -
  have ok: "ok (e_device e)" "ext4_wf content e" "\<forall>g < length (e_groups e). group_consistent H content e g" using c by (auto simp: ext4_consistent_def)
  have free: "sum_list (map (group_supply e bits) (group_order e goal)) = s_free_blocks_count (e_sb e)"
    using sum_supply [OF ok(3)] consistent_inv(2) [OF c] by (simp add: bits_def)
  have rd: "read_bitmap B e g BlockBitmap = Inr (bits g)" "blocks_in_group (e_sb e) g \<le> 8 * length (bits g)" if "g \<in> set (group_order e goal)" for g
    using read_bitmap_bits(1) [OF ok(1,2)] bits_room [OF ok(1,2)] that group_order_perm(2) [of e goal] by (auto simp: bits_def)
  obtain grants out where gr: "plan_groups B e (group_order e goal) n [] [] = Inr (n - s_free_blocks_count (e_sb e), map (plan_entry bits) grants, out)"
      "run_blocks out = concat (map (grant_blocks (e_sb e)) grants)" "length (concat (map snd grants)) = min n (s_free_blocks_count (e_sb e))"
      "distinct (map fst grants)" "fst ` set grants \<subseteq> set (group_order e goal)" "\<forall>gr \<in> set grants. grant_ok e bits gr"
    using plan_groups_spec [where gs = "group_order e goal" and B = B and e = e and bits = bits and remaining = n and plan = "[]" and out = "[]",
        OF rd group_order_perm(1)] by (auto simp: free)
  have "\<forall>gr \<in> set grants. fst gr < length (e_groups e)" using gr(5) group_order_perm(2) [of e goal] by auto
  then show ?thesis using gr by (auto simp: plan_alloc_def)
qed

lemma alloc_blocks_ok:
  assumes c: "ext4_consistent H content ok e" and w: "for_writing H (e_sb e) = Inr sd" and n: "0 < n" "n \<le> s_free_blocks_count (e_sb e)"
  shows "\<exists>out e'. alloc_blocks H B goal n e = (Inr out, e') \<and> ext4_consistent H content ok e'
    \<and> length (run_blocks out) = n \<and> distinct (run_blocks out) \<and> set (run_blocks out) \<inter> ext4_used content e = {}
    \<and> ext4_used content e' = ext4_used content e \<union> set (run_blocks out)
    \<and> e_sb e' = with_counts (e_sb e) (s_free_blocks_count (e_sb e) - n) (s_free_inodes_count (e_sb e))"
proof -
  let ?bits = "block_bits content e" and ?sb = "e_sb e"
  have ok: "ok (e_device e)" "ext4_wf content e" using c by (auto simp: ext4_consistent_def)
  obtain grants out where gr: "plan_alloc B e goal n = Inr (map (plan_entry ?bits) grants, out)"
      "run_blocks out = concat (map (grant_blocks ?sb) grants)" "length (concat (map snd grants)) = n" "distinct (map fst grants)"
      "\<forall>gr \<in> set grants. fst gr < length (e_groups e) \<and> grant_ok e ?bits gr"
    using plan_alloc_ok [OF c, of n goal] n(2) by auto
  let ?plan = "map (plan_entry ?bits) grants"
  have lim: "\<forall>gr \<in> set grants. \<forall>i \<in> set (snd gr). i < blocks_in_group ?sb (fst gr) \<and> i < 8 * length (?bits (fst gr)) \<and> \<not> test_bit (?bits (fst gr)) i"
    using gr(5) bits_room [OF ok] by (fastforce simp: grant_ok_def)
  have fits: "plan_fits e ?plan" using gr(4,5) read_bitmap_bits(2) [OF ok] by (auto simp: plan_fits_def plan_entry_def comp_def)
  have cnt: "\<forall>(g, bm, t) \<in> set ?plan. free_count ?sb g bm + t = free_count ?sb g (?bits g)"
    using gr(5) lim bits_room [OF ok] by (auto simp: plan_entry_def intro!: free_count_set_bits grant_ok_distinct)
  have tot: "sum_list (map (snd \<circ> snd) ?plan) = n" using gr(3) by (simp add: plan_entry_def comp_def length_concat)
  obtain e' where e': "commit_alloc H B sd ?plan e = (Inr (), e')" "ext4_consistent H content ok e'"
      "e_sb e' = with_counts ?sb (s_free_blocks_count ?sb - n) (s_free_inodes_count ?sb)" "length (e_groups e') = length (e_groups e)"
      "\<forall>i < length (e_groups e). block_bits content e' i = plan_bits ?plan ?bits i"
    using commit_alloc_ok [OF consistent_inv(1) [OF c] fits consistent_inv(2,3) [OF c] cnt] tot for_writing_seed [OF w] by auto
  have new: "b \<in> set (run_blocks out) \<longleftrightarrow> (\<exists>g i ixs. (g, ixs) \<in> set grants \<and> i \<in> set ixs \<and> b = block_no ?sb g i)" for b
    unfolding gr(2) by (force simp: grant_blocks_no)
  have in_gr: "g < length (e_groups e)" "i < blocks_in_group ?sb g" if "(g, ixs) \<in> set grants" "i \<in> set ixs" for g ixs i
    using bspec [OF lim that(1)] bspec [OF gr(5) that(1)] that(2) by auto
  have "set (run_blocks out) \<inter> ext4_used content e = {}"
    using lim gr(5) in_used [of _ e _ content] by (fastforce simp: new)
  moreover have "ext4_used content e' = ext4_used content e \<union> set (run_blocks out)"
  proof -
    have tb: "test_bit (block_bits content e' g) i \<longleftrightarrow> test_bit (?bits g) i \<or> (\<exists>ixs. (g, ixs) \<in> set grants \<and> i \<in> set ixs)"
      if "g < length (e_groups e)" for g i using granted_bits [OF gr(4), of ?bits g i] lim e'(5) that by simp
    have "ext4_used content e' = {b. \<exists>g < length (e_groups e). \<exists>i < blocks_in_group ?sb g. b = block_no ?sb g i \<and>
        (test_bit (?bits g) i \<or> (\<exists>ixs. (g, ixs) \<in> set grants \<and> i \<in> set ixs))}"
      by (simp add: ext4_used_def e'(3,4) tb cong: conj_cong)
    also have "\<dots> = ext4_used content e \<union> {b. \<exists>g i ixs. (g, ixs) \<in> set grants \<and> i \<in> set ixs \<and> b = block_no ?sb g i}"
      unfolding ext4_used_def using in_gr by blast
    also have "\<dots> = ext4_used content e \<union> set (run_blocks out)" using new by blast
    finally show ?thesis .
  qed
  moreover have "distinct (run_blocks out)" unfolding gr(2) using gr(4,5) lim by (intro grants_distinct) (auto intro: grant_ok_distinct)
  moreover have "length (run_blocks out) = n" using gr(2,3) by (simp add: length_concat grant_blocks_no comp_def)
  ultimately show ?thesis using gr(1) w n(1) e'(1-3) by (auto simp: alloc_blocks_def ebind_def)
qed

lemma alloc_blocks_full:
  assumes "ext4_consistent H content ok e" "for_writing H (e_sb e) = Inr sd" "s_free_blocks_count (e_sb e) < n"
  shows "alloc_blocks H B goal n e = (Inl FilesystemFull, e)"
  using plan_alloc_ok [OF assms(1), of n goal] assms(2,3) by (simp add: alloc_blocks_def)

end

end
