(* ===== verification/Ext4_Free.thy ===== *)
theory Ext4_Free
  imports Ext4_Blocks
begin

text \<open>
  Releasing blocks. The plan of \<open>free_blocks\<close> is followed block by block: after a prefix of the batch the bitmaps of
  the plan are those of the device without the blocks of the prefix, so a block that is free, outside the filesystem
  or named twice is refused, and a refused batch leaves the filesystem as it was.
\<close>

section \<open>The plan of a release\<close>

definition freeing :: "('d \<Rightarrow> bytes) \<Rightarrow> 'd ext4 \<Rightarrow> nat set \<Rightarrow> (nat \<times> bytes \<times> nat) list \<Rightarrow> bool" where
  "freeing content e gone plan \<longleftrightarrow> plan_fits e plan
     \<and> (\<forall>(g, bm, t) \<in> set plan. free_count (e_sb e) g bm = free_count (e_sb e) g (block_bits content e g) + t
          \<and> (\<forall>i < blocks_in_group (e_sb e) g. test_bit bm i \<longleftrightarrow> test_bit (block_bits content e g) i \<and> block_no (e_sb e) g i \<notin> gone))
     \<and> (\<forall>g < length (e_groups e). g \<notin> fst ` set plan \<longrightarrow> (\<forall>i < blocks_in_group (e_sb e) g. block_no (e_sb e) g i \<notin> gone))"

lemma freeing_Nil: "freeing content e {} []"
  by (simp add: freeing_def plan_fits_def)

lemma find_index_Some: "find_index p xs = Some i \<Longrightarrow> i < length xs \<and> p (xs ! i)"
  by (induction xs arbitrary: i) (auto split: if_splits)

lemma find_index_None: "find_index p xs = None \<Longrightarrow> x \<in> set xs \<Longrightarrow> \<not> p x"
  by (induction xs) (auto split: if_splits)

lemma freeing_bits:
  assumes "freeing content e gone plan" "g < length (e_groups e)" "i < blocks_in_group (e_sb e) g"
  shows "test_bit (plan_bits plan (block_bits content e) g) i \<longleftrightarrow> test_bit (block_bits content e g) i \<and> block_no (e_sb e) g i \<notin> gone"
proof (cases "map_of plan g")
  case None
  then have "g \<notin> fst ` set plan" by (simp add: map_of_eq_None_iff)
  then show ?thesis using None assms by (simp add: freeing_def plan_bits_def)
next
  case (Some v)
  obtain bm t where v: "v = (bm, t)" by fastforce
  then have "(g, bm, t) \<in> set plan" using Some by (auto dest: map_of_SomeD)
  then show ?thesis using Some v assms by (auto simp: freeing_def plan_bits_def)
qed

lemma freeing_bits_sum:
  assumes "plan_fits e plan" "slot < length plan" "plan ! slot = (g, bm, t)" "(h, bm', t') \<in> set (plan[slot := (g, bm2, t2)])"
  shows "(h, bm', t') = (g, bm2, t2) \<or> h \<noteq> g \<and> (h, bm', t') \<in> set plan"
proof -
  obtain j where j: "j < length plan" "plan[slot := (g, bm2, t2)] ! j = (h, bm', t')" using assms(4) by (metis in_set_conv_nth length_list_update)
  show ?thesis
  proof (cases "j = slot")
    case True
    then show ?thesis using j by simp
  next
    case False
    then have p: "plan ! j = (h, bm', t')" using j by simp
    have "fst (plan ! j) \<noteq> fst (plan ! slot)"
      using assms(1,2) j(1) False by (metis distinct_conv_nth length_map nth_map plan_fits_def)
    then show ?thesis using p assms(3) j(1) by (metis fst_conv nth_mem)
  qed
qed

context byte_store
begin

lemma plan_slot_ok:
  assumes "ok (e_device e)" "ext4_wf content e" "freeing content e gone plan" "g < length (e_groups e)"
  shows "\<exists>slot plan' bm t. plan_slot B e g plan = Inr (slot, plan') \<and> slot < length plan' \<and> plan' ! slot = (g, bm, t) \<and> freeing content e gone plan'"
proof (cases "find_index (\<lambda>(gi, _, _). gi = g) plan")
  case None
  then have new: "g \<notin> fst ` set plan" using find_index_None [OF None] by fastforce
  note rb = read_bitmap_bits [OF assms(1,2,4)]
  have "freeing content e gone (plan @ [(g, block_bits content e g, 0)])"
    using assms(3,4) new rb(2) by (auto simp: freeing_def plan_fits_def)
  then show ?thesis using None rb(1) by (intro exI [of _ "length plan"]) (auto simp: plan_slot_def)
next
  case (Some i)
  then have "i < length plan" "\<exists>bm t. plan ! i = (g, bm, t)" using find_index_Some [OF Some] by (auto split: prod.splits)
  then show ?thesis using Some assms(3) by (auto simp: plan_slot_def)
qed

text \<open>One block: released if it is in use and not already released by this batch.\<close>

lemma free_one_ok:
  assumes c: "ok (e_device e)" "ext4_wf content e" and f: "freeing content e gone plan"
  shows "if b \<in> ext4_used content e - gone then \<exists>plan'. free_one B e b plan = Inr plan' \<and> freeing content e (insert b gone) plan'
    else \<exists>msg. free_one B e b plan = Inl (CorruptFs msg)"
proof (cases "s_first_data_block (e_sb e) \<le> b \<and> b < s_blocks_count (e_sb e)")
  case False
  then show ?thesis using ext4_used_range [OF c(2)] by (auto simp: free_one_def)
next
  case True
  let ?sb = "e_sb e"
  define g where "g = (b - s_first_data_block ?sb) div s_blocks_per_group ?sb"
  define i where "i = (b - s_first_data_block ?sb) mod s_blocks_per_group ?sb"
  have gi: "g < length (e_groups e)" "i < blocks_in_group ?sb g" "b = block_no ?sb g i"
    using block_no_onto [OF c(2)] True unfolding g_def i_def by blast+
  obtain slot p bm t where p: "plan_slot B e g plan = Inr (slot, p)" "slot < length p" "p ! slot = (g, bm, t)" "freeing content e gone p"
    using plan_slot_ok [OF c f gi(1)] by blast
  have mem: "(g, bm, t) \<in> set p" using p(2,3) by (metis nth_mem)
  have fp: "plan_fits e p" using p(4) by (simp add: freeing_def)
  have bm: "length bm = s_block_size ?sb" using fp mem by (auto simp: plan_fits_def)
  have i8: "i div 8 < length bm" using gi(2) bits_room [OF c gi(1)] read_bitmap_bits(2) [OF c gi(1)] bm by (simp add: div8_less)
  have cnt: "free_count ?sb g bm = free_count ?sb g (block_bits content e g) + t"
    and tb: "test_bit bm j \<longleftrightarrow> test_bit (block_bits content e g) j \<and> block_no ?sb g j \<notin> gone" if "j < blocks_in_group ?sb g" for j
    using p(4) mem that gi(2) by (auto simp: freeing_def)
  have one: "free_one B e b plan = (if \<not> test_bit bm i then Inl (CorruptFs ''double free of a block'') else Inr (p[slot := (g, clear_bit bm i, t + 1)]))"
    using True gi(1) p i8 by (simp add: free_one_def Let_def g_def [symmetric] i_def [symmetric])
  show ?thesis
  proof (cases "test_bit bm i")
    case False
    then show ?thesis using one tb [OF gi(2)] in_used [OF gi(1,2)] gi(3) by auto
  next
    case T: True
    let ?q = "p[slot := (g, clear_bit bm i, t + 1)]"
    have fsts: "map fst ?q = map fst p" using p(2,3) by (simp add: map_update) (metis fst_conv list_update_id nth_map)
    have "plan_fits e ?q"
      using fp fsts bm gi(1) unfolding plan_fits_def by (auto dest!: set_update_subset_insert [THEN subsetD])
    moreover have "free_count ?sb h bm' = free_count ?sb h (block_bits content e h) + t' \<and>
        (\<forall>j < blocks_in_group ?sb h. test_bit bm' j \<longleftrightarrow> test_bit (block_bits content e h) j \<and> block_no ?sb h j \<notin> insert b gone)"
      if "(h, bm', t') \<in> set ?q" for h bm' t'
    proof (cases "(h, bm', t') = (g, clear_bit bm i, t + 1)")
      case True
      then show ?thesis using T cnt [OF gi(2)] tb gi i8 block_no_inj_group [OF _ _ gi(2)]
        by (auto simp: free_count_clear_bit test_clear_bit)
    next
      case False
      then have h: "h \<noteq> g" "(h, bm', t') \<in> set p" using freeing_bits_sum [OF fp p(2,3) that] by auto
      then show ?thesis using p(4) gi(3) block_no_inj_group [OF _ _ gi(2)] by (auto simp: freeing_def)
    qed
    moreover have "block_no ?sb h j \<notin> insert b gone" if "h < length (e_groups e)" "h \<notin> fst ` set ?q" "j < blocks_in_group ?sb h" for h j
    proof -
      have "fst ` set ?q = fst ` set p" using fsts by (metis list.set_map)
      then have "h \<notin> fst ` set p" "h \<noteq> g" using that mem by force+
      then show ?thesis using p(4) that gi(3) block_no_inj_group [OF _ that(3) gi(2)] by (auto simp: freeing_def)
    qed
    ultimately have "freeing content e (insert b gone) ?q" unfolding freeing_def by blast
    then show ?thesis using T one tb [OF gi(2)] in_used [OF gi(1,2)] gi(3) by auto
  qed
qed

lemma free_each_ok:
  assumes "ok (e_device e)" "ext4_wf content e" "freeing content e gone plan"
  shows "if distinct bs \<and> set bs \<subseteq> ext4_used content e - gone
    then \<exists>plan'. free_each B e bs plan = Inr plan' \<and> freeing content e (gone \<union> set bs) plan'
    else \<exists>msg. free_each B e bs plan = Inl (CorruptFs msg)"
  using assms(3)
proof (induction bs arbitrary: gone plan)
  case (Cons b bs)
  show ?case
  proof (cases "b \<in> ext4_used content e - gone")
    case True
    then obtain plan' where p: "free_one B e b plan = Inr plan'" "freeing content e (insert b gone) plan'"
      using free_one_ok [OF assms(1,2) Cons.prems, of b] by auto
    have "distinct (b # bs) \<and> set (b # bs) \<subseteq> ext4_used content e - gone \<longleftrightarrow> distinct bs \<and> set bs \<subseteq> ext4_used content e - insert b gone"
      using True by auto
    then show ?thesis using Cons.IH [OF p(2)] p(1) by auto
  next
    case False
    then show ?thesis using free_one_ok [OF assms(1,2) Cons.prems, of b] by auto
  qed
qed simp

lemma free_blocks_ok:
  assumes c: "ext4_consistent H content ok e" and w: "for_writing H (e_sb e) = Inr sd" and rs: "rs \<noteq> []"
    and fr: "distinct (freed_list rs)" "set (freed_list rs) \<subseteq> ext4_used content e"
  shows "\<exists>e'. free_blocks H B rs e = (Inr (), e') \<and> ext4_consistent H content ok e'
    \<and> ext4_used content e' = ext4_used content e - set (freed_list rs)"
proof -
  have ok: "ok (e_device e)" "ext4_wf content e" using c by (auto simp: ext4_consistent_def)
  obtain plan where p: "free_each B e (freed_list rs) [] = Inr plan" "freeing content e (set (freed_list rs)) plan"
    using free_each_ok [OF ok freeing_Nil, of "freed_list rs"] fr by auto
  have fits: "plan_fits e plan" and cnt: "\<forall>(g, bm, t) \<in> set plan. free_count (e_sb e) g bm = free_count (e_sb e) g (block_bits content e g) + t"
    using p(2) by (auto simp: freeing_def)
  obtain e' where e': "commit_free H B sd plan e = (Inr (), e')" "ext4_consistent H content ok e'" "length (e_groups e') = length (e_groups e)"
      "\<forall>i < length (e_groups e). block_bits content e' i = plan_bits plan (block_bits content e) i"
      "\<exists>a b. e_sb e' = with_counts (e_sb e) a b"
    using commit_free_ok [OF consistent_inv(1) [OF c] fits consistent_inv(2,3) [OF c] cnt] for_writing_seed [OF w] by auto
  obtain a b where sb: "e_sb e' = with_counts (e_sb e) a b" using e'(5) by blast
  have tb: "test_bit (block_bits content e' g) i \<longleftrightarrow> test_bit (block_bits content e g) i \<and> block_no (e_sb e) g i \<notin> set (freed_list rs)"
    if "g < length (e_groups e)" "i < blocks_in_group (e_sb e) g" for g i using freeing_bits [OF p(2) that] e'(4) that by simp
  have "ext4_used content e' = {b. \<exists>g < length (e_groups e). \<exists>i < blocks_in_group (e_sb e) g. b = block_no (e_sb e) g i
      \<and> test_bit (block_bits content e g) i \<and> block_no (e_sb e) g i \<notin> set (freed_list rs)}"
    by (simp add: ext4_used_def e'(3) sb tb cong: conj_cong)
  also have "\<dots> = ext4_used content e - set (freed_list rs)" unfolding ext4_used_def by blast
  finally have "ext4_used content e' = ext4_used content e - set (freed_list rs)" .
  then show ?thesis using rs w p(1) e'(1,2) by (auto simp: free_blocks_def)
qed

lemma free_blocks_refused:
  assumes c: "ext4_consistent H content ok e" and w: "for_writing H (e_sb e) = Inr sd"
    and fr: "\<not> (distinct (freed_list rs) \<and> set (freed_list rs) \<subseteq> ext4_used content e)"
  shows "\<exists>msg. free_blocks H B rs e = (Inl (CorruptFs msg), e)"
proof -
  have ok: "ok (e_device e)" "ext4_wf content e" using c by (auto simp: ext4_consistent_def)
  have "rs \<noteq> []" using fr by (auto simp: freed_list_def)
  moreover have "\<exists>msg. free_each B e (freed_list rs) [] = Inl (CorruptFs msg)"
    using free_each_ok [OF ok freeing_Nil, of "freed_list rs"] fr by (auto split: if_splits)
  ultimately show ?thesis using w by (auto simp: free_blocks_def)
qed

section \<open>Mounting again\<close>

lemma descriptors_read_back:
  assumes c: "ext4_consistent H content ok e"
  shows "read_group_descriptors B (e_device e) (e_sb e) = Inr (map (desc_stored (group_desc_size (e_sb e))) (e_groups e))"
proof -
  let ?sb = "e_sb e" and ?C = "content (e_device e)"
  have ok: "ok (e_device e)" "ext4_wf content e" "length ?C < 2 ^ 64" using c content_len by (auto simp: ext4_consistent_def)
  have n: "length (e_groups e) = group_count ?sb" "0 < group_count ?sb" using ok(2) by (auto simp: ext4_wf_unfold)
  have "\<forall>gd \<in> set (e_groups e). group_desc_offset ?sb + length (e_groups e) * group_desc_size ?sb \<le> bg_block_bitmap gd * s_block_size ?sb"
    using ok(2) unfolding ext4_wf_def Let_def by blast
  then have "group_desc_offset ?sb + group_count ?sb * group_desc_size ?sb \<le> bg_block_bitmap (e_groups e ! 0) * s_block_size ?sb"
    using n by (metis nth_mem)
  moreover have "bg_block_bitmap (e_groups e ! 0) * s_block_size ?sb \<le> length ?C" using ext4_areas(1) [OF ok(2), of 0] n by simp
  ultimately have fit: "group_desc_offset ?sb + group_count ?sb * group_desc_size ?sb \<le> length ?C" by simp
  have slot: "slice (slice ?C (group_desc_offset ?sb) (group_count ?sb * group_desc_size ?sb)) (g * group_desc_size ?sb) (group_desc_size ?sb) =
      desc_at content e g" if "g < group_count ?sb" for g
    using slot_within [OF that, of 0 "group_desc_size ?sb"] by (simp add: desc_at_def slice_slice)
  have "group_desc_parse (desc_at content e g) = desc_stored (group_desc_size ?sb) (e_groups e ! g)" if "g < group_count ?sb" for g
    using c that n(1) by (auto simp: ext4_consistent_def group_consistent_def)
  then have "map (\<lambda>g. group_desc_parse (slice (slice ?C (group_desc_offset ?sb) (group_count ?sb * group_desc_size ?sb)) (g * group_desc_size ?sb)
      (group_desc_size ?sb))) [0..<group_count ?sb] = map (desc_stored (group_desc_size ?sb)) (e_groups e)"
    using slot n(1) by (intro nth_equalityI) auto
  then show ?thesis using fit ok(3) fetch_ok [OF ok(1) fit] by (simp add: read_group_descriptors_def width_simps)
qed

lemma remount:
  assumes c: "ext4_consistent H content ok e'" and m: "ext4_mount B d = Inr e" and sb: "e_sb e' = with_counts (e_sb e) a b"
  shows "ext4_mount B (e_device e') = Inr (e'\<lparr>e_groups := map (desc_stored (group_desc_size (e_sb e'))) (e_groups e')\<rparr>)"
proof -
  have ok: "ok (e_device e')" "ext4_wf content e'" using c by (auto simp: ext4_consistent_def)
  have n: "0 < length (e_groups e')" using ok(2) unfolding ext4_wf_def Let_def by linarith
  have "1024 + 1024 \<le> length (content (e_device e'))" using ext4_areas(1-3) [OF ok(2) n] by linarith
  then have "fetch B (e_device e') 1024 1024 = Inr (slice (content (e_device e')) 1024 1024)" by (rule fetch_ok [OF ok(1)])
  moreover have "ext4_sb_parse (slice (content (e_device e')) 1024 1024) = Inr (e_sb e')" using c by (simp add: ext4_consistent_def)
  moreover have "\<not> flag_set (s_feature_incompat (e_sb e)) x" if "x \<in> {INCOMPAT_RECOVER, INCOMPAT_ENCRYPT, INCOMPAT_JOURNAL_DEV, INCOMPAT_META_BG}" for x
    using m that unfolding ext4_mount_def rbind_Inr by (auto simp: rbind_Inr split: if_splits)
  ultimately show ?thesis using descriptors_read_back [OF c] by (simp add: ext4_mount_def sb)
qed

end

end
