(* ===== verification/Ext4_Volume.thy ===== *)
theory Ext4_Volume
  imports Ext4_Free Volume_Source
begin

unbundle bit_operations_syntax


section \<open>Reading zero-filled bytes with some fields set\<close>







section \<open>A volume of sixteen blocks\<close>


























section \<open>Properties\<close>







end
