(* ===== verification/Spec2Isabelle.thy ===== *)
theory Spec2Isabelle
  imports Interval_Set Sb_Exclude Scsi_Flush Node_Codec Csum_Items Btrfs_Items File_Read Node_Cache Partition_Table Ext4_Volume
begin

text \<open>
  Verification of the core of a user space stack that reads and writes encrypted USB drives without kernel
  support: SCSI over USB bulk-only transport, LUKS2 volumes, and the btrfs and ext4 file systems
  (\<open>src/core/src\<close>).

  \<^bold>\<open>The program.\<close> A USB transport carries SCSI commands to a drive (\<open>usb/\<close>); the SCSI device is a random-access byte
  device (\<open>device.rs\<close>). A volume is a window of a device, in the clear (\<open>volume.rs\<close>) or decrypted sector by sector
  (\<open>luks/volume.rs\<close>). A file system is mounted on a volume: btrfs (\<open>fs/btrfs/\<close>) reads trees of checksummed nodes through a
  map from logical to physical addresses, and its writer edits and emits nodes; ext4 (\<open>fs/ext4/\<close>) reads group
  descriptors and bitmaps, and its allocator changes them. Each layer talks to the one below through the two traits
  \<open>ReadAt\<close> and \<open>WriteAt\<close>.

  \<^bold>\<open>How it is modelled.\<close> Structs are records, enums are datatypes, every operation is one executable definition under
  the source's name; \<open>&mut self\<close> is a state that is passed and returned, \<open>Result\<close> is a sum whose left side is the error, and a
  branch that would panic is the error \<open>Panic\<close>. Integers are naturals; where an operation can leave its width the
  wrap-around, saturation or check of the source is written out (\<open>add64\<close>, \<open>sub64\<close>, \<open>mul64\<close>, \<open>checked_add64\<close>, \<open>mod 2 ^ 32\<close>),
  with the release build's wrapping for unmarked operators. Bytes are 8 bit words. Loops that always end are total
  functions with their measure; loops that depend on what a device returns (the cursor over a tree, the
  extent loop of a read, the sector loop of the checksum check) are partial functions in the option type, and the
  properties state that they return. No fuel is used. External code is a parameter with named hypotheses: the hash
  functions (\<open>hashes\<close>, \<open>hashes_ok\<close>), the decompressors (\<open>decoders\<close>), the block cipher (\<open>xts_crate\<close>, \<open>xts_ok\<close>), key
  derivation and SHA-2 (\<open>crypto_crates\<close>, \<open>crates_ok\<close>), the JSON deserializer (a function from text to metadata), CRC-32 (\<open>crc_ok\<close>), the USB
  transport (\<open>bulk_transport\<close>).

  \<^bold>\<open>The theories.\<close>

  \<^item> \<open>Prelude\<close>: byte strings (slices, in-place replacement, little- and big-endian numbers), widths, ranges, binary
    search on sorted lists; \<open>Errors\<close>: \<open>error.rs\<close>.
  \<^item> \<open>Bot\<close>, \<open>Scsi\<close>, \<open>Scsi_Device\<close>: \<open>usb/bot.rs\<close> and \<open>usb/scsi.rs\<close>, command and status wrappers, the command protocol with its
    recovery, opening a drive, the chunked read and write loops with read-modify-write, flushing. \<open>Block_Io\<close> and \<open>Bot_Target\<close>
    state what these loops and commands need from below as locales; \<open>Mock_Drive\<close> models the simulated drive of
    \<open>core/tests/common/mod.rs\<close> and interprets them; \<open>Scsi_Stack\<close> has the properties of the whole stack; \<open>Scsi_Flush\<close> follows cache
    flushes through a session of operations on any transport.
  \<^item> \<open>Devices\<close>: the traits (\<open>device.rs\<close>), the memory device of the test suite, plain volumes (\<open>volume.rs\<close>). The locale \<open>byte_store\<close> is
    the contract of a device; a window of a store is a store (locale \<open>plain_store\<close>). \<open>Luks_Volume\<close>: \<open>luks/volume.rs\<close>
    and the cipher loops of \<open>luks/keyslot.rs\<close>; a LUKS volume over a store is a store whose content is the
    plaintext. \<open>Volume_Source\<close>: the choice between the two.
  \<^item> \<open>Luks_Keyslot\<close>: the rest of \<open>luks/keyslot.rs\<close>, from a password to a verified master key, against a reference for the
    anti-forensic splitter. \<open>Luks_Header\<close>: \<open>luks/header.rs\<close>, the two header copies and which one counts.
    \<open>Partition_Table\<close>: \<open>partition/\<close>, both table formats, the backup table and the scan for LUKS partitions.
  \<^item> \<open>Chunk_Map\<close>, \<open>Sb_Exclude\<close>, \<open>Interval_Set\<close>: \<open>chunk.rs\<close>, \<open>write/exclude.rs\<close>, \<open>write/interval_set.rs\<close>.
  \<^item> \<open>Btree_Node\<close>, \<open>Node_Edit\<close>, \<open>Node_Codec\<close>, \<open>Csum_Items\<close>, \<open>Btrfs_Items\<close>: \<open>tree.rs\<close>, \<open>write/node.rs\<close>, \<open>inode.rs\<close>: reading,
    editing and emitting tree blocks, and the items the writer builds.
  \<^item> \<open>Btree_Cursor\<close>, \<open>Tree_Scan\<close>, \<open>Leaf_Tree\<close>: \<open>cursor.rs\<close> and the lookups of \<open>mod.rs\<close>. \<open>items_below\<close> is the list a tree
    stores; the cursor is a position in it. The locale \<open>item_cursor\<close> gives the scans from the cursor's laws.
  \<^item> \<open>Compress\<close>, \<open>Btrfs_Data\<close>, \<open>File_Read\<close>, \<open>Data_Verify\<close>: \<open>compress.rs\<close>, \<open>extent.rs\<close>, \<open>csum.rs\<close>: what a file read returns and
    what its checksum verification compares. \<open>Node_Cache\<close>: \<open>cache.rs\<close>, reads of nodes through the cache and the pending
    blocks of a batch, and what the write path does to both (\<open>mod.rs\<close>, \<open>write/batch.rs\<close>, \<open>write/file.rs\<close>, \<open>write/commit.rs\<close>): a batch
    is taken out of the mount, filled, rolled back, re-armed by a commit with its parsed nodes kept, and put back. What a commit
    writes to the device is arbitrary; that it replaces the roots, empties the cache and looks the checksum tree up
    again is the code's \<open>update_mount_state\<close>.
  \<^item> \<open>Ext4_Layout\<close>, \<open>Ext4_Alloc\<close>: \<open>ext4/mod.rs\<close> (superblock, descriptors, mounting), \<open>ext4/csum.rs\<close>, \<open>ext4/alloc.rs\<close>. \<open>Ext4_Plan\<close>: what
    the planning phase grants. \<open>Ext4_Codec\<close>: patched metadata parses to what is in memory, for descriptors of 64 bytes and more, and for
    those of 32 bytes up to the upper half of the bitmap checksums, which they do not hold (\<open>desc_stored\<close>). \<open>Ext4_Store\<close>, \<open>Ext4_Commit\<close>: the
    commit phase over a byte store keeps \<open>ext4_consistent\<close>. \<open>Ext4_Blocks\<close>, \<open>Ext4_Free\<close>: allocation and release as operations on the
    set of blocks in use. \<open>Ext4_Volume\<close>: the properties on a volume source.

  \<^bold>\<open>What is shown.\<close> Refinement: the interval set, chunk map, leaves and the ext4 allocator implement the abstract set or
  map operations; the node caches are transparent. Equivalence: binary searches, the checksum walk and the split of checksum items agree with their
  reference. Round trips: btrfs leaves and interior nodes, directory, inode and extent items, checksum items, the chunk array of the superblock,
  and ext4 group descriptors and superblock counters parse back to what they were written from. A container formatted with a password opens with it. Functional correctness of the
  stacks: SCSI reads and writes against the simulated drive, LUKS reads and writes of any alignment, btrfs file
  reads. Safety: the interval set grants no address twice, the exclusion list covers the superblock mirrors of chunks that do not
  wrap the address space, a write counts as done only when the drive said so, a flush only when the drive passed it or refused the
  command for good, a master key is returned only when its digest matches. Errors: requests out of bounds are refused before anything is sent.

  \<^bold>\<open>Not modelled.\<close> The JSON text of a LUKS header (parsed by \<open>serde_json\<close>), the usbfs ioctl transport
  and the JNI bridge (unsafe code, threads and handles), the forensic log (diagnostics only), the btrfs transaction layer above
  node editing (allocation, copy on write, what a transaction writes), the caches of \<open>statfs\<close> and of the subvolume list, path resolution and
  superblock selection of btrfs, ext4 file and directory writing. \<open>Node_Cache\<close> starts from a mount with an empty cache: the reads
  of the mount itself are not modelled.
\<close>

end
